(* ===== verification/TN_Prelude.thy ===== *)
theory TN_Prelude
  imports Main "HOL-Library.Word" "HOL-Library.AList" "HOL-Library.Multiset"
begin

text \<open>
  Shared vocabulary of the development: the names of the model's base types, machine integer
  arithmetic at 64 bits, results with an error branch and the loops that use the question mark
  operator, and the collections of rules the component proofs draw on.

  Opaque values of the program (digests, public keys, peer identifiers, signatures) are natural
  numbers: the 32 byte arrays and keys are compared bytewise in the code, which is the order of
  the numbers they spell in big endian.
\<close>

named_theorems u64_simps \<open>machine arithmetic that does not wrap\<close>
named_theorems map_simps \<open>look-ups after updates of the collection models\<close>
named_theorems res_simps \<open>case analysis of results\<close>

type_synonym round = nat
type_synonym epoch = nat
type_synonym timestamp = nat
type_synonym digest = nat
type_synonym block_hash = nat
type_synonym authority_id = nat
type_synonym bls_pk = nat
type_synonym signature = nat
type_synonym worker_id = nat
type_synonym voting_power = nat

section \<open>Unsigned 64 bit arithmetic of a release build\<close>

definition u64_max :: nat where
  "u64_max = 2 ^ 64"

definition u64_add :: "nat \<Rightarrow> nat \<Rightarrow> nat" where
  "u64_add a b = (a + b) mod u64_max"

definition u64_sub :: "nat \<Rightarrow> nat \<Rightarrow> nat" where
  "u64_sub a b = (a + (u64_max - b)) mod u64_max"

definition u64_mul :: "nat \<Rightarrow> nat \<Rightarrow> nat" where
  "u64_mul a b = (a * b) mod u64_max"

definition u64_sum :: "nat list \<Rightarrow> nat" where
  "u64_sum xs = foldl u64_add 0 xs"

lemma u64_add_exact [u64_simps]: "a + b < u64_max \<Longrightarrow> u64_add a b = a + b"
  by (simp add: u64_add_def)

lemma u64_mul_exact [u64_simps]: "a * b < u64_max \<Longrightarrow> u64_mul a b = a * b"
  by (simp add: u64_mul_def)

lemma u64_sub_exact [u64_simps]:
  assumes "b \<le> a" "a < u64_max"
  shows "u64_sub a b = a - b"
proof -
  have "a + (u64_max - b) = (a - b) + u64_max" using assms by linarith
  hence "u64_sub a b = ((a - b) + u64_max) mod u64_max" by (simp only: u64_sub_def)
  also have "\<dots> = (a - b) mod u64_max" by (rule mod_add_self2)
  finally show ?thesis using assms by simp
qed

lemma u64_sub_wraps:
  assumes "a < b" "b < u64_max"
  shows "u64_sub a b = u64_max - (b - a)"
proof -
  have "a + (u64_max - b) = u64_max - (b - a)" and "u64_max - (b - a) < u64_max"
    using assms by linarith+
  thus ?thesis by (simp add: u64_sub_def)
qed

lemma u64_add_less [simp]: "u64_add a b < u64_max"
  by (simp add: u64_add_def u64_max_def)

lemma u64_sum_acc: "a + sum_list xs < u64_max \<Longrightarrow> foldl u64_add a xs = a + sum_list xs"
proof (induction xs arbitrary: a)
  case (Cons x xs)
  have "a + x < u64_max" and "(a + x) + sum_list xs < u64_max" using Cons.prems by simp_all
  thus ?case using Cons.IH[of "a + x"] by (simp add: u64_simps)
qed simp

lemma u64_sum_exact [u64_simps]: "sum_list xs < u64_max \<Longrightarrow> u64_sum xs = sum_list xs"
  using u64_sum_acc[of 0 xs] by (simp add: u64_sum_def)

text \<open>Subtraction of 32 bit rounds, which wraps below zero.\<close>

definition u32_max :: nat where
  "u32_max = 2 ^ 32"

definition u32_sub :: "nat \<Rightarrow> nat \<Rightarrow> nat" where
  "u32_sub a b = (if b \<le> a then a - b else u32_max - (b - a))"

definition u32_add :: "nat \<Rightarrow> nat \<Rightarrow> nat" where
  "u32_add a b = (a + b) mod u32_max"

lemma u32_add_exact [u64_simps]: "a + b < u32_max \<Longrightarrow> u32_add a b = a + b"
  by (simp add: u32_add_def)

lemma u32_add_le: "u32_add a b \<le> a + b"
  by (simp add: u32_add_def)

lemma u32_sub_exact [u64_simps]: "b \<le> a \<Longrightarrow> u32_sub a b = a - b"
  by (simp add: u32_sub_def)

section \<open>Results and loops with early return\<close>

type_synonym ('e, 'a) result = "'e + 'a"

fun is_ok :: "('e, 'a) result \<Rightarrow> bool" where
  "is_ok (Inl e) = False"
| "is_ok (Inr x) = True"

text \<open>A for loop over a list whose body may return an error early.\<close>

fun try_fold :: "('x \<Rightarrow> 's \<Rightarrow> ('e, 's) result) \<Rightarrow> 'x list \<Rightarrow> 's \<Rightarrow> ('e, 's) result" where
  "try_fold f [] s = Inr s"
| "try_fold f (x # xs) s = (case f x s of Inl e \<Rightarrow> Inl e | Inr s' \<Rightarrow> try_fold f xs s')"

lemma try_fold_append:
  "try_fold f (xs @ ys) s = (case try_fold f xs s of Inl e \<Rightarrow> Inl e | Inr s' \<Rightarrow> try_fold f ys s')"
  by (induction xs arbitrary: s) (auto split: sum.splits)

lemma try_fold_invariant:
  assumes "try_fold f xs s = Inr s'" "P s"
    and "\<And>x s s'. x \<in> set xs \<Longrightarrow> P s \<Longrightarrow> f x s = Inr s' \<Longrightarrow> P s'"
  shows "P s'"
  using assms
proof (induction xs arbitrary: s)
  case (Cons x xs)
  then obtain t where "f x s = Inr t" "try_fold f xs t = Inr s'" by (auto split: sum.splits)
  moreover from this have "P t" using Cons.prems(2) Cons.prems(3)[of x s t] by simp
  ultimately show ?case using Cons.IH[of t] Cons.prems(3) by (meson list.set_intros(2))
qed simp

text \<open>A loop that collects the results of its body, as collecting an iterator of results does.\<close>

fun try_map :: "('x \<Rightarrow> ('e, 'y) result) \<Rightarrow> 'x list \<Rightarrow> ('e, 'y list) result" where
  "try_map f [] = Inr []"
| "try_map f (x # xs) = (case f x of Inl e \<Rightarrow> Inl e | Inr y \<Rightarrow>
     (case try_map f xs of Inl e \<Rightarrow> Inl e | Inr ys \<Rightarrow> Inr (y # ys)))"

lemma try_map_Inr_iff:
  "try_map f xs = Inr ys \<longleftrightarrow> list_all2 (\<lambda>x y. f x = Inr y) xs ys"
proof (induction xs arbitrary: ys)
  case (Cons x xs)
  show ?case
  proof (cases ys)
    case (Cons y ys')
    thus ?thesis using Cons.IH[of ys'] by (cases "f x"; cases "try_map f xs") auto
  qed (auto split: sum.splits)
qed auto

section \<open>Reachability by steps that keep an invariant\<close>

locale step_system =
  fixes start :: "'s \<Rightarrow> bool" and step :: "'s \<Rightarrow> 's \<Rightarrow> bool" and inv :: "'s \<Rightarrow> bool"
  assumes inv_start: "start s \<Longrightarrow> inv s"
    and inv_step: "inv s \<Longrightarrow> step s t \<Longrightarrow> inv t"
begin

lemma inv_steps:
  assumes "step\<^sup>*\<^sup>* s t" "inv s"
  shows "inv t"
  using assms by (induction rule: rtranclp_induct) (auto intro: inv_step)

lemma inv_reachable: "start s \<Longrightarrow> step\<^sup>*\<^sup>* s t \<Longrightarrow> inv t"
  using inv_steps inv_start by blast

lemma monotone_steps:
  assumes "step\<^sup>*\<^sup>* s t" "inv s"
    and "\<And>a b. inv a \<Longrightarrow> step a b \<Longrightarrow> m a \<le> (m b :: 'm::preorder)"
  shows "m s \<le> m t"
  using assms(1,2)
proof (induction rule: rtranclp_induct)
  case (step y z)
  have "inv y" using inv_steps[OF step.hyps(1) step.prems] .
  with step assms(3)[of y z] show ?case using order_trans by blast
qed simp

end

section \<open>Generic lemmas on lists\<close>

lemma sum_list_map_filter_le:
  "sum_list (map f (filter P xs)) \<le> (sum_list (map f xs) :: nat)"
  by (induction xs) auto

lemma sum_list_distinct_subset:
  assumes "distinct xs" "set xs \<subseteq> A" "finite A"
  shows "sum_list (map f xs) \<le> (sum f A :: nat)"
proof -
  have "sum_list (map f xs) = sum f (set xs)" using assms(1) by (simp add: sum_list_distinct_conv_sum_set)
  also have "\<dots> \<le> sum f A" using assms by (intro sum_mono2) auto
  finally show ?thesis .
qed

lemma fold_invariant_list:
  assumes "P s" "\<And>x s. x \<in> set xs \<Longrightarrow> P s \<Longrightarrow> P (f x s)"
  shows "P (fold f xs s)"
  using assms by (induction xs arbitrary: s) auto

lemma find_Some_iff_mem: "List.find P xs = Some x \<Longrightarrow> x \<in> set xs \<and> P x"
  by (auto simp: find_Some_iff)

end
