(* ===== verification/Rust_Collections.thy ===== *)
theory Rust_Collections
  imports TN_Prelude
begin

text \<open>
  The collections of the Rust standard library the program uses. An ordered map (BTreeMap) is an
  association list with strictly ascending keys, so that iteration is in key order; an ordered set
  (BTreeSet) is a strictly ascending list. A hash map and an index map are association lists with
  distinct keys: the position in the list is the iteration order, which an index map defines as
  insertion order and a hash map leaves open. The interface that the components rely on is the
  locale \<^verbatim>\<open>keyed_map\<close>; both kinds of map are interpretations of it.
\<close>

section \<open>Ordered maps and sets\<close>

type_synonym ('k, 'v) btree_map = "('k \<times> 'v) list"
type_synonym ('k, 'v) hash_map = "('k \<times> 'v) list"

fun bt_insert :: "'k::linorder \<Rightarrow> 'v \<Rightarrow> ('k, 'v) btree_map \<Rightarrow> ('k, 'v) btree_map" where
  "bt_insert k v [] = [(k, v)]"
| "bt_insert k v ((k', v') # m) =
     (if k < k' then (k, v) # (k', v') # m
      else if k = k' then (k, v) # m
      else (k', v') # bt_insert k v m)"

definition bt_remove :: "'k \<Rightarrow> ('k, 'v) btree_map \<Rightarrow> ('k, 'v) btree_map" where
  "bt_remove k m = filter (\<lambda>e. fst e \<noteq> k) m"

definition bt_retain :: "('k \<Rightarrow> 'v \<Rightarrow> bool) \<Rightarrow> ('k, 'v) btree_map \<Rightarrow> ('k, 'v) btree_map" where
  "bt_retain p m = filter (\<lambda>e. p (fst e) (snd e)) m"

definition bt_sorted :: "('k::linorder, 'v) btree_map \<Rightarrow> bool" where
  "bt_sorted m = sorted_wrt (<) (map fst m)"

definition bt_keys :: "('k, 'v) btree_map \<Rightarrow> 'k list" where
  "bt_keys m = map fst m"

definition bt_values :: "('k, 'v) btree_map \<Rightarrow> 'v list" where
  "bt_values m = map snd m"

definition bt_collect :: "('k::linorder \<times> 'v) list \<Rightarrow> ('k, 'v) btree_map" where
  "bt_collect es = fold (\<lambda>(k, v). bt_insert k v) es []"

fun bs_insert :: "'a::linorder \<Rightarrow> 'a list \<Rightarrow> 'a list" where
  "bs_insert x [] = [x]"
| "bs_insert x (y # ys) = (if x < y then x # y # ys else if x = y then y # ys else y # bs_insert x ys)"

definition bs_collect :: "'a::linorder list \<Rightarrow> 'a list" where
  "bs_collect xs = fold bs_insert xs []"

lemma set_bs_insert [simp]: "set (bs_insert x ys) = insert x (set ys)"
  by (induction x ys rule: bs_insert.induct) auto

lemma sorted_bs_insert: "sorted_wrt (<) ys \<Longrightarrow> sorted_wrt (<) (bs_insert x ys)"
  by (induction x ys rule: bs_insert.induct) auto

lemma set_bs_fold: "set (fold bs_insert xs ys) = set xs \<union> set ys"
  by (induction xs arbitrary: ys) auto

lemma set_bs_collect [simp]: "set (bs_collect xs) = set xs"
  by (simp add: bs_collect_def set_bs_fold)

lemma sorted_bs_collect: "sorted_wrt (<) (bs_collect xs)"
  unfolding bs_collect_def by (rule fold_invariant_list) (auto intro: sorted_bs_insert)

lemma distinct_bs_collect [simp]: "distinct (bs_collect xs)"
  using sorted_bs_collect strict_sorted_iff by blast

section \<open>The interface of a map\<close>

lemma map_of_eqI_rev: "distinct (map fst es) \<Longrightarrow> map_of (rev es) = map_of es"
  by (rule map_of_eqI) (auto simp: rev_map[symmetric])

locale keyed_map =
  fixes get :: "'m \<Rightarrow> 'k \<Rightarrow> 'v option"
    and put :: "'k \<Rightarrow> 'v \<Rightarrow> 'm \<Rightarrow> 'm"
    and del :: "'k \<Rightarrow> 'm \<Rightarrow> 'm"
    and entries :: "'m \<Rightarrow> ('k \<times> 'v) list"
    and empty :: 'm
    and wf :: "'m \<Rightarrow> bool"
  assumes get_put: "wf m \<Longrightarrow> get (put k v m) = (get m)(k \<mapsto> v)"
    and get_del: "wf m \<Longrightarrow> get (del k m) = (get m)(k := None)"
    and wf_put: "wf m \<Longrightarrow> wf (put k v m)"
    and wf_del: "wf m \<Longrightarrow> wf (del k m)"
    and wf_empty: "wf empty"
    and entries_empty: "entries empty = []"
    and get_entries: "wf m \<Longrightarrow> get m = map_of (entries m)"
    and distinct_entries: "wf m \<Longrightarrow> distinct (map fst (entries m))"
begin

lemma get_empty: "get empty k = None"
  using get_entries[OF wf_empty] by (simp add: entries_empty)

lemma get_iff_entries: "wf m \<Longrightarrow> get m k = Some v \<longleftrightarrow> (k, v) \<in> set (entries m)"
  by (simp add: get_entries distinct_entries)

lemma values_put:
  "wf m \<Longrightarrow> set (entries (put k v m)) = insert (k, v) {e \<in> set (entries m). fst e \<noteq> k}"
  by (auto simp: get_iff_entries[symmetric] wf_put get_put split: if_splits)

lemma wf_put_list: "wf m \<Longrightarrow> wf (fold (\<lambda>(k, v). put k v) es m)"
  by (induction es arbitrary: m) (auto simp: wf_put)

lemma get_put_list: "wf m \<Longrightarrow> get (fold (\<lambda>(k, v). put k v) es m) = get m ++ map_of (rev es)"
proof (induction es arbitrary: m)
  case (Cons e es)
  thus ?case by (cases e) (simp add: wf_put get_put map_add_def fun_eq_iff split: option.splits)
qed simp

lemma get_put_list_distinct:
  assumes "distinct (map fst es)"
  shows "get (fold (\<lambda>(k, v). put k v) es empty) = map_of es"
proof -
  have "map_of (rev es) = map_of es" using assms by (rule map_of_eqI_rev)
  thus ?thesis by (simp add: get_put_list[OF wf_empty] get_empty map_add_def fun_eq_iff split: option.splits)
qed

lemma length_entries: "wf m \<Longrightarrow> length (entries m) = card (dom (get m))"
proof -
  assume "wf m"
  hence "dom (get m) = set (map fst (entries m))" and "distinct (map fst (entries m))"
    by (simp_all add: get_entries dom_map_of_conv_image_fst distinct_entries)
  thus ?thesis by (metis distinct_card length_map)
qed

lemma sum_entries:
  "wf m \<Longrightarrow> sum_list (map (\<lambda>e. f (fst e) (snd e)) (entries m)) = (\<Sum>k\<in>dom (get m). (f k (the (get m k)) :: nat))"
proof -
  assume w: "wf m"
  have d: "dom (get m) = set (map fst (entries m))" and "distinct (map fst (entries m))"
    using w by (simp_all add: get_entries dom_map_of_conv_image_fst distinct_entries)
  hence "(\<Sum>k\<in>dom (get m). f k (the (get m k))) = sum_list (map (\<lambda>k. f k (the (get m k))) (map fst (entries m)))"
    by (simp only: sum_list_distinct_conv_sum_set)
  also have "\<dots> = sum_list (map (\<lambda>e. f (fst e) (snd e)) (entries m))"
    unfolding map_map using w
    by (intro arg_cong[where f = sum_list] map_cong)
      (auto simp: get_entries distinct_entries intro!: arg_cong[where f = "f _"] map_of_is_SomeI[THEN arg_cong[where f = the]])
  finally show ?thesis by simp
qed

end

subsection \<open>Ordered maps implement it\<close>

lemma map_of_bt_insert [map_simps]: "map_of (bt_insert k v m) = (map_of m)(k \<mapsto> v)"
  by (induction k v m rule: bt_insert.induct) (auto simp: fun_eq_iff)

lemma map_of_bt_remove [map_simps]: "map_of (bt_remove k m) = (map_of m)(k := None)"
  by (induction m) (auto simp: bt_remove_def fun_eq_iff)

lemma keys_bt_insert: "fst ` set (bt_insert k v m) = insert k (fst ` set m)"
  by (induction k v m rule: bt_insert.induct) auto

lemma bt_sorted_insert: "bt_sorted m \<Longrightarrow> bt_sorted (bt_insert k v m)"
proof (induction k v m rule: bt_insert.induct)
  case (2 k v k' v' m)
  thus ?case using keys_bt_insert[of k v m] by (auto simp: bt_sorted_def image_iff)
qed (simp add: bt_sorted_def)

lemma bt_sorted_filter: "bt_sorted m \<Longrightarrow> bt_sorted (filter p m)"
  by (induction m) (auto simp: bt_sorted_def)

lemma bt_sorted_remove: "bt_sorted m \<Longrightarrow> bt_sorted (bt_remove k m)"
  by (simp add: bt_remove_def bt_sorted_filter)

lemma bt_sorted_Nil: "bt_sorted []"
  by (simp add: bt_sorted_def)

lemma bt_sorted_retain: "bt_sorted m \<Longrightarrow> bt_sorted (bt_retain p m)"
  by (simp add: bt_retain_def bt_sorted_filter)

lemma bt_sorted_distinct: "bt_sorted m \<Longrightarrow> distinct (map fst m)"
  using strict_sorted_iff by (auto simp: bt_sorted_def)

lemma map_of_bt_retain [map_simps]:
  "bt_sorted m \<Longrightarrow> map_of (bt_retain p m) k =
     (case map_of m k of None \<Rightarrow> None | Some v \<Rightarrow> if p k v then Some v else None)"
proof (induction m)
  case (Cons e m)
  have "map_of m (fst e) = None"
    using bt_sorted_distinct[OF Cons.prems] by (auto simp: map_of_eq_None_iff)
  moreover have "bt_sorted m" using Cons.prems by (simp add: bt_sorted_def)
  ultimately show ?case using Cons.IH by (auto simp: bt_retain_def split: option.splits)
qed (simp add: bt_retain_def)

interpretation bt: keyed_map map_of bt_insert bt_remove id "[]" bt_sorted
  by unfold_locales
    (simp_all add: map_simps bt_sorted_insert bt_sorted_distinct bt_sorted_remove bt_sorted_Nil)

lemma bt_sorted_collect: "bt_sorted (bt_collect es)"
  unfolding bt_collect_def using bt.wf_put_list[OF bt.wf_empty, of es] by simp

lemma map_of_bt_collect: "distinct (map fst es) \<Longrightarrow> map_of (bt_collect es) = map_of es"
  unfolding bt_collect_def by (rule bt.get_put_list_distinct)

subsection \<open>Hash maps implement it\<close>

interpretation hm: keyed_map map_of AList.update AList.delete id "[]" "\<lambda>m. distinct (map fst m)"
  by unfold_locales
    (auto simp: update_conv' delete_conv' distinct_update distinct_delete fun_eq_iff)

lemma map_of_update [map_simps]: "map_of (AList.update k v m) = (map_of m)(k \<mapsto> v)"
  by (rule update_conv')

lemma dom_fold_update:
  "dom (map_of (fold (\<lambda>a. AList.update (f a) (g a)) as m)) = dom (map_of m) \<union> f ` set as"
  by (induction as arbitrary: m) (auto simp: map_of_update)

lemma map_of_delete [map_simps]: "map_of (AList.delete k m) = (map_of m)(k := None)"
  by (rule delete_conv')

end
