(* ===== verification/Committee.thy ===== *)
theory Committee
  imports Rust_Collections
begin

text \<open>
  The committee of an epoch (crates/types/src/committee.rs): authorities with their voting power,
  the two ordered maps that index them by protocol key and by identifier, the quorum (2f+1) and
  validity (f+1) thresholds, the builder, and the look-ups the rest of the program uses. The
  locale \<^verbatim>\<open>quorum_system\<close> is the contract the consensus components rely on; the committee that the
  builder returns implements it.
\<close>

section \<open>Authorities and committees\<close>

text \<open>
  The identifier of an authority is the peer id that libp2p derives from the network key; the
  derivation is the argument \<open>to_peer_id\<close> of the constructor and its value is kept in the record.
\<close>

record authority =
  protocol_key :: bls_pk
  voting_power :: voting_power
  primary_network_address :: string
  execution_address :: nat
  network_key :: nat
  hostname :: string
  auth_id :: authority_id

definition authority_new ::
  "(nat \<Rightarrow> authority_id) \<Rightarrow> bls_pk \<Rightarrow> voting_power \<Rightarrow> string \<Rightarrow> nat \<Rightarrow> nat \<Rightarrow> string \<Rightarrow> authority" where
  "authority_new to_peer_id pk vp addr exec nk host =
     \<lparr> protocol_key = pk, voting_power = vp, primary_network_address = addr,
       execution_address = exec, network_key = nk, hostname = host, auth_id = to_peer_id nk \<rparr>"

record committee =
  authorities :: "(bls_pk, authority) btree_map"
  authorities_by_id :: "(authority_id, authority) btree_map"
  c_epoch :: epoch
  quorum_threshold :: voting_power
  validity_threshold :: voting_power

definition total_voting_power :: "committee \<Rightarrow> voting_power" where
  "total_voting_power c = u64_sum (map voting_power (bt_values (authorities c)))"

definition calculate_quorum_threshold :: "committee \<Rightarrow> voting_power" where
  "calculate_quorum_threshold c = u64_add (u64_mul 2 (total_voting_power c) div 3) 1"

definition div_ceil :: "nat \<Rightarrow> nat \<Rightarrow> nat" where
  "div_ceil a b = (if a mod b > 0 then a div b + 1 else a div b)"

definition calculate_validity_threshold :: "committee \<Rightarrow> voting_power" where
  "calculate_validity_threshold c =
     (let t = div_ceil (total_voting_power c) 3 in if t = 0 then 1 else t)"

text \<open>A failed assertion aborts the process: the result is then \<^const>\<open>None\<close>.\<close>

definition load :: "committee \<Rightarrow> committee option" where
  "load c =
     (let c1 = c\<lparr> authorities_by_id :=
                   bt_collect (map (\<lambda>a. (auth_id a, a)) (bt_values (authorities c))) \<rparr>;
          c2 = c1\<lparr> validity_threshold := calculate_validity_threshold c1 \<rparr>;
          c3 = c2\<lparr> quorum_threshold := calculate_quorum_threshold c2 \<rparr>
      in if length (authorities_by_id c3) > 1 then Some c3 else None)"

definition committee_new :: "(bls_pk, authority) btree_map \<Rightarrow> epoch \<Rightarrow> committee option" where
  "committee_new auths e =
     (case load \<lparr> authorities = auths, authorities_by_id = [], c_epoch = e,
                  quorum_threshold = 0, validity_threshold = 0 \<rparr> of
        None \<Rightarrow> None
      | Some c \<Rightarrow>
          if length (authorities_by_id c) = length (authorities c) \<and>
             validity_threshold c = calculate_validity_threshold c \<and>
             quorum_threshold c = calculate_quorum_threshold c
          then Some c else None)"

definition committee_authority :: "committee \<Rightarrow> authority_id \<Rightarrow> authority option" where
  "committee_authority c i = map_of (authorities_by_id c) i"

definition authority_by_key :: "committee \<Rightarrow> bls_pk \<Rightarrow> authority option" where
  "authority_by_key c k = map_of (authorities c) k"

definition committee_authorities :: "committee \<Rightarrow> authority list" where
  "committee_authorities c = bt_values (authorities_by_id c)"

definition is_authority :: "committee \<Rightarrow> authority_id \<Rightarrow> bool" where
  "is_authority c i = (map_of (authorities_by_id c) i \<noteq> None)"

definition committee_size :: "committee \<Rightarrow> nat" where
  "committee_size c = length (authorities c)"

definition voting_power_by_key :: "committee \<Rightarrow> bls_pk \<Rightarrow> voting_power" where
  "voting_power_by_key c k = (case map_of (authorities c) k of None \<Rightarrow> 0 | Some a \<Rightarrow> voting_power a)"

definition voting_power_by_id :: "committee \<Rightarrow> authority_id \<Rightarrow> voting_power" where
  "voting_power_by_id c i = (case map_of (authorities_by_id c) i of None \<Rightarrow> 0 | Some a \<Rightarrow> voting_power a)"

definition reached_quorum :: "committee \<Rightarrow> voting_power \<Rightarrow> bool" where
  "reached_quorum c p = (p \<ge> quorum_threshold c)"

definition reached_validity :: "committee \<Rightarrow> voting_power \<Rightarrow> bool" where
  "reached_validity c p = (p \<ge> validity_threshold c)"

text \<open>
  The weighted choice of the seeded generator belongs to the rand crate: it is the argument
  \<open>choose_weighted\<close>, applied to the seed and to the authorities in key order with their weights. The
  code rounds the weights to 32 bit floats first, which is part of the argument.
  No choice (an empty list or only zero weights) is the panic of the code.
\<close>

definition committee_leader ::
  "(nat \<Rightarrow> (authority \<times> voting_power) list \<Rightarrow> authority option) \<Rightarrow> committee \<Rightarrow> nat \<Rightarrow> authority option" where
  "committee_leader choose_weighted c seed =
     choose_weighted seed (map (\<lambda>a. (a, voting_power a)) (bt_values (authorities c)))"

definition others_primaries_by_id ::
  "committee \<Rightarrow> authority_id \<Rightarrow> (authority_id \<times> string \<times> nat) list" where
  "others_primaries_by_id c myself =
     map (\<lambda>e. (auth_id (snd e), primary_network_address (snd e), network_key (snd e)))
       (filter (\<lambda>e. auth_id (snd e) \<noteq> myself) (authorities c))"

record committee_builder =
  b_epoch :: epoch
  b_authorities :: "(bls_pk, authority) btree_map"

definition builder_new :: "epoch \<Rightarrow> committee_builder" where
  "builder_new e = \<lparr> b_epoch = e, b_authorities = [] \<rparr>"

definition add_authority ::
  "(nat \<Rightarrow> authority_id) \<Rightarrow> bls_pk \<Rightarrow> voting_power \<Rightarrow> string \<Rightarrow> nat \<Rightarrow> nat \<Rightarrow> string
    \<Rightarrow> committee_builder \<Rightarrow> committee_builder" where
  "add_authority to_peer_id pk stake addr exec nk host b =
     b\<lparr> b_authorities := bt_insert pk (authority_new to_peer_id pk stake addr exec nk host) (b_authorities b) \<rparr>"

definition build :: "committee_builder \<Rightarrow> committee option" where
  "build b = committee_new (b_authorities b) (b_epoch b)"

section \<open>The invariant of a committee\<close>

definition auths_wf :: "(bls_pk, authority) btree_map \<Rightarrow> bool" where
  "auths_wf as = (bt_sorted as \<and> (\<forall>e\<in>set as. protocol_key (snd e) = fst e))"

definition committee_wf :: "committee \<Rightarrow> bool" where
  "committee_wf c =
     (auths_wf (authorities c) \<and>
      authorities_by_id c = bt_collect (map (\<lambda>a. (auth_id a, a)) (bt_values (authorities c))) \<and>
      length (authorities_by_id c) = length (authorities c) \<and>
      1 < length (authorities c) \<and>
      quorum_threshold c = calculate_quorum_threshold c \<and>
      validity_threshold c = calculate_validity_threshold c)"

text \<open>The doubled total power fits 64 bits, so that the threshold computation does not wrap.\<close>

definition power_fits :: "committee \<Rightarrow> bool" where
  "power_fits c = (2 * sum_list (map voting_power (bt_values (authorities c))) < u64_max)"

definition members :: "committee \<Rightarrow> authority_id set" where
  "members c = set (bt_keys (authorities_by_id c))"

definition total_power :: "committee \<Rightarrow> nat" where
  "total_power c = sum (voting_power_by_id c) (members c)"

lemma builder_new_wf: "auths_wf (b_authorities (builder_new e))"
  by (simp add: builder_new_def auths_wf_def bt_sorted_Nil)

lemma add_authority_wf:
  "auths_wf (b_authorities b) \<Longrightarrow> auths_wf (b_authorities (add_authority tp pk s ad ex nk ho b))"
  using bt.values_put[of "b_authorities b" pk]
  by (auto simp: add_authority_def auths_wf_def bt_sorted_insert authority_new_def)

lemma committee_new_wf: "auths_wf as \<Longrightarrow> committee_new as e = Some c \<Longrightarrow> committee_wf c"
  by (auto simp: committee_new_def load_def committee_wf_def Let_def calculate_validity_threshold_def
      calculate_quorum_threshold_def total_voting_power_def split: if_splits)

lemma build_wf: "auths_wf (b_authorities b) \<Longrightarrow> build b = Some c \<Longrightarrow> committee_wf c"
  by (simp add: build_def committee_new_wf)

lemma load_fields: "load c = Some c' \<Longrightarrow> authorities c' = authorities c \<and> c_epoch c' = c_epoch c"
  by (auto simp: load_def Let_def split: if_splits)

lemma build_fields: "build b = Some c \<Longrightarrow> c_epoch c = b_epoch b \<and> authorities c = b_authorities b"
  by (auto simp: build_def committee_new_def dest!: load_fields split: if_splits option.splits)

lemma by_id_distinct:
  assumes "committee_wf c"
  shows "distinct (map auth_id (bt_values (authorities c)))"
proof -
  let ?es = "map (\<lambda>a. (auth_id a, a)) (bt_values (authorities c))"
  have "map_of (bt_collect ?es) = map_of [] ++ map_of (rev ?es)"
    unfolding bt_collect_def by (rule bt.get_put_list) (rule bt.wf_empty)
  hence "dom (map_of (bt_collect ?es)) = set (map fst ?es)"
    by (simp add: dom_map_of_conv_image_fst rev_map[symmetric] image_image)
  hence "length (bt_collect ?es) = card (set (map fst ?es))"
    using bt.length_entries[OF bt_sorted_collect, of ?es] by simp
  moreover have "length (bt_collect ?es) = length ?es"
    using assms unfolding committee_wf_def bt_values_def by (metis length_map)
  ultimately have "card (set (map fst ?es)) = length (map fst ?es)" by simp
  hence "distinct (map fst ?es)" by (rule card_distinct)
  thus ?thesis by (simp add: comp_def)
qed

lemma by_id_sorted: "committee_wf c \<Longrightarrow> bt_sorted (authorities_by_id c)"
  by (simp add: committee_wf_def bt_sorted_collect)

lemma by_id_map_of:
  assumes "committee_wf c"
  shows "map_of (authorities_by_id c) = map_of (map (\<lambda>a. (auth_id a, a)) (bt_values (authorities c)))"
  using assms by_id_distinct[OF assms] map_of_bt_collect[of "map (\<lambda>a. (auth_id a, a)) (bt_values (authorities c))"]
  by (simp add: committee_wf_def comp_def)

lemma committee_authority_iff:
  assumes "committee_wf c"
  shows "committee_authority c i = Some a \<longleftrightarrow> a \<in> set (bt_values (authorities c)) \<and> auth_id a = i"
proof -
  let ?es = "map (\<lambda>a. (auth_id a, a)) (bt_values (authorities c))"
  have "distinct (map fst ?es)" using by_id_distinct[OF assms] by (simp add: comp_def)
  hence "map_of ?es i = Some a \<longleftrightarrow> (i, a) \<in> set ?es" by simp
  thus ?thesis by (auto simp: committee_authority_def by_id_map_of[OF assms])
qed

lemma members_eq: "committee_wf c \<Longrightarrow> members c = auth_id ` set (bt_values (authorities c))"
proof -
  assume w: "committee_wf c"
  have "members c = dom (map_of (authorities_by_id c))"
    by (simp add: members_def bt_keys_def dom_map_of_conv_image_fst)
  thus ?thesis using by_id_map_of[OF w] by (simp add: dom_map_of_conv_image_fst image_image)
qed

lemma finite_members [simp]: "finite (members c)"
  by (simp add: members_def)

lemma members_iff: "i \<in> members c \<longleftrightarrow> is_authority c i"
  by (auto simp: members_def is_authority_def bt_keys_def map_of_eq_None_iff)

lemma power_non_member: "i \<notin> members c \<Longrightarrow> voting_power_by_id c i = 0"
  by (auto simp: members_iff is_authority_def voting_power_by_id_def)

lemma power_of_authority:
  "committee_wf c \<Longrightarrow> a \<in> set (bt_values (authorities c)) \<Longrightarrow> voting_power_by_id c (auth_id a) = voting_power a"
  using committee_authority_iff[of c "auth_id a" a] by (simp add: voting_power_by_id_def committee_authority_def)

lemma total_power_sum_list:
  assumes "committee_wf c"
  shows "total_power c = sum_list (map voting_power (bt_values (authorities c)))"
proof -
  have "total_power c = sum (voting_power_by_id c) (set (map auth_id (bt_values (authorities c))))"
    by (simp add: total_power_def members_eq[OF assms])
  also have "\<dots> = sum_list (map (voting_power_by_id c) (map auth_id (bt_values (authorities c))))"
    using sum_list_distinct_conv_sum_set[OF by_id_distinct[OF assms], of "voting_power_by_id c"] by simp
  also have "\<dots> = sum_list (map voting_power (bt_values (authorities c)))"
    unfolding map_map by (intro arg_cong[where f = sum_list] map_cong) (auto simp: power_of_authority[OF assms])
  finally show ?thesis .
qed

section \<open>Thresholds\<close>

lemma quorum_threshold_eq:
  assumes "committee_wf c" "power_fits c"
  shows "quorum_threshold c = 2 * total_power c div 3 + 1"
proof -
  let ?t = "sum_list (map voting_power (bt_values (authorities c)))"
  have t: "2 * ?t < u64_max" using assms(2) by (simp add: power_fits_def)
  hence "u64_sum (map voting_power (bt_values (authorities c))) = ?t" by (intro u64_sum_exact) simp
  moreover have "2 * ?t div 3 + 1 < u64_max" using t by (simp add: u64_max_def)
  ultimately show ?thesis using t assms(1)
    by (simp add: committee_wf_def calculate_quorum_threshold_def total_voting_power_def
        total_power_sum_list[OF assms(1)] u64_simps)
qed

lemma validity_threshold_eq:
  assumes "committee_wf c" "power_fits c"
  shows "validity_threshold c = (if total_power c = 0 then 1 else (total_power c + 2) div 3)"
proof -
  let ?t = "sum_list (map voting_power (bt_values (authorities c)))"
  have "u64_sum (map voting_power (bt_values (authorities c))) = ?t"
    using assms(2) by (intro u64_sum_exact) (simp add: power_fits_def)
  moreover have "div_ceil ?t 3 = (?t + 2) div 3"
    unfolding div_ceil_def by (cases "?t mod 3 = 0") (auto, presburger+)
  ultimately have v: "validity_threshold c = (if (?t + 2) div 3 = 0 then 1 else (?t + 2) div 3)"
    using assms(1)
    by (simp add: committee_wf_def calculate_validity_threshold_def total_voting_power_def Let_def)
  show ?thesis unfolding v total_power_sum_list[OF assms(1)] by presburger
qed

section \<open>The contract of a quorum system\<close>

locale quorum_system =
  fixes nodes :: "'c \<Rightarrow> 'a set"
    and weight :: "'c \<Rightarrow> 'a \<Rightarrow> nat"
    and quorum :: "'c \<Rightarrow> nat"
    and validity :: "'c \<Rightarrow> nat"
    and wf :: "'c \<Rightarrow> bool"
  assumes nodes_finite: "wf c \<Longrightarrow> finite (nodes c)"
    and quorum_validity: "wf c \<Longrightarrow> quorum c + validity c > sum (weight c) (nodes c)"
    and quorum_twice: "wf c \<Longrightarrow> 2 * quorum c \<ge> sum (weight c) (nodes c) + validity c"
    and quorum_attainable: "wf c \<Longrightarrow> 0 < sum (weight c) (nodes c) \<Longrightarrow>
      quorum c + validity c \<le> sum (weight c) (nodes c) + 1"
begin

lemma weight_union_inter:
  assumes "wf c" "A \<subseteq> nodes c" "B \<subseteq> nodes c"
  shows "sum (weight c) A + sum (weight c) B \<le> sum (weight c) (A \<inter> B) + sum (weight c) (nodes c)"
proof -
  have f: "finite A" "finite B" using assms nodes_finite finite_subset by blast+
  have "sum (weight c) A + sum (weight c) B = sum (weight c) (A \<union> B) + sum (weight c) (A \<inter> B)"
    using f by (rule sum.union_inter[symmetric])
  moreover have "sum (weight c) (A \<union> B) \<le> sum (weight c) (nodes c)"
    using assms nodes_finite by (intro sum_mono2) auto
  ultimately show ?thesis by linarith
qed

lemma quorums_share_validity:
  assumes "wf c" "A \<subseteq> nodes c" "B \<subseteq> nodes c"
    and "sum (weight c) A \<ge> quorum c" "sum (weight c) B \<ge> quorum c"
  shows "sum (weight c) (A \<inter> B) \<ge> validity c"
  using weight_union_inter[OF assms(1-3)] quorum_twice[OF assms(1)] assms(4,5) by linarith

lemma quorums_share_correct:
  assumes "wf c" "A \<subseteq> nodes c" "B \<subseteq> nodes c"
    and "sum (weight c) A \<ge> quorum c" "sum (weight c) B \<ge> quorum c"
    and faulty: "sum (weight c) (F \<inter> nodes c) < validity c"
  shows "\<exists>n. n \<in> A \<and> n \<in> B \<and> n \<notin> F"
proof (rule ccontr)
  assume "\<not> ?thesis"
  hence "A \<inter> B \<subseteq> F \<inter> nodes c" using assms(2) by blast
  hence "sum (weight c) (A \<inter> B) \<le> sum (weight c) (F \<inter> nodes c)"
    using nodes_finite[OF assms(1)] by (intro sum_mono2) auto
  with quorums_share_validity[OF assms(1-5)] faulty show False by linarith
qed

lemma quorum_meets_validity:
  assumes "wf c" "A \<subseteq> nodes c" "B \<subseteq> nodes c"
    and "sum (weight c) A \<ge> quorum c" "sum (weight c) B \<ge> validity c"
  shows "A \<inter> B \<noteq> {}"
  using weight_union_inter[OF assms(1-3)] quorum_validity[OF assms(1)] assms(4,5) by auto

lemma correct_nodes_form_quorum:
  assumes "wf c" "0 < sum (weight c) (nodes c)" "sum (weight c) (F \<inter> nodes c) < validity c"
  shows "sum (weight c) (nodes c - F) \<ge> quorum c"
proof -
  have "sum (weight c) (nodes c - F) = sum (weight c) (nodes c) - sum (weight c) (F \<inter> nodes c)"
    using nodes_finite[OF assms(1)] by (simp add: sum_diff_nat[symmetric] Int_commute Diff_Int sum_subtractf_nat Diff_Diff_Int)
  thus ?thesis using quorum_attainable[OF assms(1,2)] assms(3) by linarith
qed

lemma unique_choice:
  assumes "wf c" "A \<subseteq> nodes c" "B \<subseteq> nodes c"
    and "sum (weight c) A \<ge> quorum c" "sum (weight c) B \<ge> quorum c"
    and "sum (weight c) (F \<inter> nodes c) < validity c"
    and "\<And>n. n \<in> A \<Longrightarrow> n \<notin> F \<Longrightarrow> chose n x" "\<And>n. n \<in> B \<Longrightarrow> n \<notin> F \<Longrightarrow> chose n y"
    and "\<And>n x y. n \<notin> F \<Longrightarrow> chose n x \<Longrightarrow> chose n y \<Longrightarrow> x = y"
  shows "x = y"
  using quorums_share_correct[OF assms(1-6)] assms(7-9) by blast

end

lemma threshold_sums:
  assumes "committee_wf c" "power_fits c"
  shows "quorum_threshold c + validity_threshold c > total_power c"
    and "2 * quorum_threshold c \<ge> total_power c + validity_threshold c"
    and "0 < total_power c \<Longrightarrow> quorum_threshold c + validity_threshold c \<le> total_power c + 1"
  unfolding quorum_threshold_eq[OF assms] validity_threshold_eq[OF assms] by presburger+

interpretation cq: quorum_system members voting_power_by_id quorum_threshold validity_threshold
  "\<lambda>c. committee_wf c \<and> power_fits c"
  by unfold_locales
    (auto simp: total_power_def[symmetric] intro: threshold_sums(1,2) threshold_sums(3)[simplified])

end
