(* ===== verification/Worker_Cache.thy ===== *)
theory Worker_Cache
  imports Rust_Collections
begin

text \<open>
  The worker cache of an epoch (crates/types/src/worker/info.rs): for every authority key the index
  of its workers, with the look-ups used when headers are validated and batches are broadcast.
\<close>

record worker_info =
  w_name :: nat
  w_transactions :: string
  w_address :: string

type_synonym worker_index = "(worker_id, worker_info) btree_map"

record worker_cache =
  wc_epoch :: epoch
  wc_workers :: "(bls_pk, worker_index) btree_map"

datatype config_error = NotInCommittee bls_pk | NotInWorkerCache bls_pk | UnknownWorker worker_id

definition worker_index_insert :: "worker_id \<Rightarrow> worker_info \<Rightarrow> worker_index \<Rightarrow> worker_index" where
  "worker_index_insert i w ix = bt_insert i w ix"

definition first_worker :: "worker_index \<Rightarrow> (worker_id \<times> worker_info) option" where
  "first_worker ix = (case ix of [] \<Rightarrow> None | e # _ \<Rightarrow> Some e)"

definition cache_worker :: "worker_cache \<Rightarrow> bls_pk \<Rightarrow> worker_id \<Rightarrow> (config_error, worker_info) result" where
  "cache_worker wc to i =
     (case List.find (\<lambda>e. fst e = to) (wc_workers wc) of
        None \<Rightarrow> Inl (NotInWorkerCache to)
      | Some (_, ix) \<Rightarrow>
          (case List.find (\<lambda>e. fst e = i) ix of
             None \<Rightarrow> Inl (NotInWorkerCache to)
           | Some (_, w) \<Rightarrow> Inr w))"

definition our_workers :: "worker_cache \<Rightarrow> bls_pk \<Rightarrow> (config_error, worker_info list) result" where
  "our_workers wc myself =
     (case List.find (\<lambda>e. fst e = myself) (wc_workers wc) of
        None \<Rightarrow> Inl (NotInWorkerCache myself)
      | Some (_, ix) \<Rightarrow> Inr (bt_values ix))"

definition all_workers :: "(nat \<Rightarrow> nat) \<Rightarrow> worker_cache \<Rightarrow> (nat \<times> string) list" where
  "all_workers to_peer_id wc =
     concat (map (\<lambda>e. map (\<lambda>w. (to_peer_id (w_name w), w_address w)) (bt_values (snd e))) (wc_workers wc))"

definition others_workers_by_id :: "worker_cache \<Rightarrow> bls_pk \<Rightarrow> worker_id \<Rightarrow> (bls_pk \<times> worker_info) list" where
  "others_workers_by_id wc myself i =
     concat (map (\<lambda>e. map (\<lambda>v. (fst e, snd v)) (filter (\<lambda>v. fst v = i) (snd e)))
       (filter (\<lambda>e. fst e \<noteq> myself) (wc_workers wc)))"

definition others_workers :: "worker_cache \<Rightarrow> bls_pk \<Rightarrow> (bls_pk \<times> worker_info) list" where
  "others_workers wc myself =
     concat (map (\<lambda>e. map (\<lambda>v. (fst e, snd v)) (snd e))
       (filter (\<lambda>e. fst e \<noteq> myself) (wc_workers wc)))"

definition network_diff :: "worker_cache \<Rightarrow> bls_pk list \<Rightarrow> string set" where
  "network_diff wc keys =
     set (concat (map (\<lambda>e. map w_transactions (bt_values (snd e)) @ map w_address (bt_values (snd e)))
       (filter (\<lambda>e. fst e \<notin> set keys) (wc_workers wc))))"

section \<open>Look-ups\<close>

definition cache_wf :: "worker_cache \<Rightarrow> bool" where
  "cache_wf wc = (bt_sorted (wc_workers wc) \<and> (\<forall>e\<in>set (wc_workers wc). bt_sorted (snd e)))"

lemma find_fst_map_of: "List.find (\<lambda>e. fst e = k) m = map_option (\<lambda>v. (k, v)) (map_of m k)"
  by (induction m) auto

lemma cache_worker_ok_iff:
  "cache_worker wc to i = Inr w \<longleftrightarrow> (\<exists>ix. map_of (wc_workers wc) to = Some ix \<and> map_of ix i = Some w)"
  by (auto simp: cache_worker_def find_fst_map_of split: option.splits)

lemma others_workers_by_id_iff:
  assumes "cache_wf wc"
  shows "(k, w) \<in> set (others_workers_by_id wc myself i) \<longleftrightarrow> k \<noteq> myself \<and> cache_worker wc k i = Inr w"
proof -
  have "\<And>ix. (k, ix) \<in> set (wc_workers wc) \<longleftrightarrow> map_of (wc_workers wc) k = Some ix"
    using assms by (simp add: cache_wf_def bt_sorted_distinct)
  moreover have "\<And>ix. (k, ix) \<in> set (wc_workers wc) \<Longrightarrow> (i, w) \<in> set ix \<longleftrightarrow> map_of ix i = Some w"
    using assms by (force simp: cache_wf_def bt_sorted_distinct)
  ultimately show ?thesis
    by (auto simp: others_workers_by_id_def cache_worker_ok_iff image_iff)
qed

lemma others_workers_by_id_keys_distinct:
  assumes "cache_wf wc"
  shows "distinct (map fst (others_workers_by_id wc myself i))"
proof -
  have one: "bt_sorted ix \<Longrightarrow> length (filter (\<lambda>v. fst v = i) ix) \<le> 1" for ix :: worker_index
  proof (induction ix)
    case (Cons e ix)
    have "fst e = i \<Longrightarrow> filter (\<lambda>v. fst v = i) ix = []"
      using bt_sorted_distinct[OF Cons.prems] by (auto simp: filter_empty_conv image_iff)
    moreover have "bt_sorted ix" using Cons.prems by (simp add: bt_sorted_def)
    ultimately show ?case using Cons.IH by auto
  qed simp
  have "distinct (map fst (concat (map (\<lambda>e. map (\<lambda>v. (fst e, snd v)) (filter (\<lambda>v. fst v = i) (snd e)))
          (filter (\<lambda>e. fst e \<noteq> myself) m))))"
    if "distinct (map fst m)" "\<forall>e\<in>set m. bt_sorted (snd e)" for m :: "(bls_pk, worker_index) btree_map"
    using that
  proof (induction m)
    case (Cons e m)
    obtain vs where vs: "filter (\<lambda>v. fst v = i) (snd e) = vs" "length vs \<le> 1" using one[of "snd e"] Cons.prems by auto
    have "distinct (map (\<lambda>v. fst e) vs)" using vs(2) by (cases vs) auto
    thus ?case using Cons vs(1) by (auto simp: comp_def image_iff)
  qed simp
  thus ?thesis using assms by (simp add: others_workers_by_id_def cache_wf_def bt_sorted_distinct)
qed

end
