(* ===== verification/Consensus_Types.thy ===== *)
theory Consensus_Types
  imports Committee Worker_Cache
begin

text \<open>
  Headers, votes and certificates of the primary with their validation and verification
  (crates/types/src/primary/header.rs, vote.rs, certificate.rs) and the error types of
  crates/types/src/error.rs. Hashing and BLS signatures are the fields of a record \<^verbatim>\<open>crypto\<close> that the
  operations take as an argument; the signature bitmap of a certificate is the ascending list of
  the indices it holds.
\<close>

section \<open>Headers\<close>

type_synonym block_num_hash = "nat \<times> block_hash"

text \<open>
  The cell that caches the digest of a header is the field \<open>h_digest\<close>: the value that the method
  digest returns. A header that arrives from the network has an empty cell, which is filled with
  the hash on first use.
\<close>

record header =
  h_author :: authority_id
  h_round :: round
  h_epoch :: epoch
  h_created_at :: timestamp
  h_payload :: "(block_hash, worker_id \<times> timestamp) hash_map"
  h_parents :: "digest list"
  h_latest_execution_block :: block_num_hash
  h_digest :: digest

record crypto =
  hash_header :: "header \<Rightarrow> digest"
  aggregate_sigs :: "signature list \<Rightarrow> signature option"
  verify_aggregate :: "signature \<Rightarrow> digest \<Rightarrow> bls_pk list \<Rightarrow> bool"
  default_sig :: signature

datatype header_error =
    InvalidEpoch epoch epoch
  | InvalidHeaderDigest
  | UnknownAuthority authority_id
  | UnkownWorkerId
  | TooManyParents nat nat
  | UnknownNetworkKey nat
  | PeerNotAuthor
  | ClosedWatchChannel
  | UnknownExecutionResult block_num_hash
  | InvalidGenesisParent digest
  | HStorage
  | HTooOld digest round round
  | ParentMissingSignature
  | InvalidParentRound
  | InvalidParentTimestamp timestamp timestamp
  | DuplicateParents
  | SyncBatches string
  | InvalidTimestamp timestamp timestamp
  | AlreadyVoted digest round
  | AlreadyVotedForLaterRound round round
  | HTNSend string
  | PendingCertificateOneshot

datatype certificate_error =
    CSuspended
  | CStorage
  | CHeader header_error
  | Inquorate nat nat
  | CInvalidSignature
  | CTooOld digest round round
  | CTooNew digest round round
  | ResChannelClosed string
  | RecoverBlsAggregateSignatureBytes
  | CUnsigned
  | DebugSuspend string

datatype dag_error =
    DHeader header_error
  | DCertificate certificate_error
  | ClosedChannel string
  | InvalidBitmap
  | DInvalidSignature
  | InvalidRandomnessSignature
  | DStoreError
  | DInvalidHeaderDigest
  | InvalidSystemMessage
  | DuplicateSystemMessage
  | InvalidCertificateVersion
  | HeaderHasBadWorkerIds digest
  | HeaderHasInvalidParentRoundNumbers digest
  | HeaderHasInvalidParentTimestamp digest
  | HeaderHasDuplicateParentAuthorities digest
  | DUnknownAuthority authority_id
  | AuthorityReuse authority_id
  | UnexpectedVote digest
  | DAlreadyVoted digest digest round
  | AlreadyVotedNewerHeader digest round round
  | CouldNotFormCertificate digest
  | CertificateRequiresQuorum
  | ProposedHeaderMissingCertificates
  | HeaderRequiresQuorum digest
  | DTooManyParents nat nat
  | DTooOld digest round round
  | DTooNew digest round round
  | VoteTooOld digest round round
  | DInvalidEpoch epoch epoch
  | InvalidRound round round
  | DInvalidTimestamp timestamp timestamp
  | DInvalidGenesisParent digest
  | DNoCertificateFetched
  | DTooManyFetchedCertificatesReturned nat nat
  | NetworkError string
  | DSuspended
  | ShuttingDown
  | ChannelFull
  | Canceled
  | CertManager string

definition header_new ::
  "crypto \<Rightarrow> timestamp \<Rightarrow> authority_id \<Rightarrow> round \<Rightarrow> epoch \<Rightarrow> (block_hash, worker_id \<times> timestamp) hash_map
    \<Rightarrow> digest list \<Rightarrow> block_num_hash \<Rightarrow> header" where
  "header_new cr now a r e pl ps leb =
     (let h = \<lparr> h_author = a, h_round = r, h_epoch = e, h_created_at = now, h_payload = pl,
                h_parents = ps, h_latest_execution_block = leb, h_digest = 0 \<rparr>
      in h\<lparr> h_digest := hash_header cr h \<rparr>)"

definition validate_worker ::
  "committee \<Rightarrow> worker_cache \<Rightarrow> header \<Rightarrow> worker_id \<times> timestamp \<Rightarrow> unit \<Rightarrow> (header_error, unit) result" where
  "validate_worker c wc h p _ =
     (case committee_authority c (h_author h) of
        None \<Rightarrow> Inl (UnknownAuthority (h_author h))
      | Some a \<Rightarrow>
          (case cache_worker wc (protocol_key a) (fst p) of
             Inl _ \<Rightarrow> Inl UnkownWorkerId
           | Inr _ \<Rightarrow> Inr ()))"

definition header_validate :: "crypto \<Rightarrow> committee \<Rightarrow> worker_cache \<Rightarrow> header \<Rightarrow> (header_error, unit) result" where
  "header_validate cr c wc h =
     (if h_epoch h \<noteq> c_epoch c then Inl (InvalidEpoch (h_epoch h) (c_epoch c))
      else if hash_header cr h \<noteq> h_digest h then Inl InvalidHeaderDigest
      else if voting_power_by_id c (h_author h) = 0 then Inl (UnknownAuthority (h_author h))
      else try_fold (validate_worker c wc h) (map snd (h_payload h)) ())"

definition header_nonce :: "header \<Rightarrow> 64 word" where
  "header_nonce h = or (push_bit 32 (word_of_nat (h_epoch h))) (word_of_nat (h_round h))"

section \<open>Votes\<close>

record vote =
  v_header_digest :: digest
  v_round :: round
  v_epoch :: epoch
  v_origin :: authority_id
  v_author :: authority_id
  v_signature :: signature

definition vote_new :: "(digest \<Rightarrow> signature) \<Rightarrow> header \<Rightarrow> authority_id \<Rightarrow> vote" where
  "vote_new sign h a =
     \<lparr> v_header_digest = h_digest h, v_round = h_round h, v_epoch = h_epoch h,
       v_origin = h_author h, v_author = a, v_signature = sign (h_digest h) \<rparr>"

definition vote_digest :: "vote \<Rightarrow> digest" where
  "vote_digest v = v_header_digest v"

record vote_info =
  vi_epoch :: epoch
  vi_round :: round
  vi_vote_digest :: digest

definition vote_info_of :: "vote \<Rightarrow> vote_info" where
  "vote_info_of v = \<lparr> vi_epoch = v_epoch v, vi_round = v_round v, vi_vote_digest = vote_digest v \<rparr>"

section \<open>Certificates\<close>

datatype sig_state =
    Unsigned signature
  | Unverified signature
  | VerifiedDirectly signature
  | VerifiedIndirectly signature
  | Genesis

record certificate =
  c_header :: header
  c_state :: sig_state
  c_signed :: "nat list"
  c_created_at :: timestamp

abbreviation c_round :: "certificate \<Rightarrow> round" where
  "c_round x \<equiv> h_round (c_header x)"

abbreviation cert_epoch :: "certificate \<Rightarrow> epoch" where
  "cert_epoch x \<equiv> h_epoch (c_header x)"

abbreviation c_origin :: "certificate \<Rightarrow> authority_id" where
  "c_origin x \<equiv> h_author (c_header x)"

abbreviation c_parents :: "certificate \<Rightarrow> digest list" where
  "c_parents x \<equiv> h_parents (c_header x)"

definition cert_digest :: "certificate \<Rightarrow> digest" where
  "cert_digest x = h_digest (c_header x)"

definition cert_eq :: "certificate \<Rightarrow> certificate \<Rightarrow> bool" where
  "cert_eq x y = (h_digest (c_header x) = h_digest (c_header y) \<and> c_round x = c_round y \<and>
     cert_epoch x = cert_epoch y \<and> c_origin x = c_origin y)"

definition header_default :: "authority_id \<Rightarrow> header" where
  "header_default a =
     \<lparr> h_author = a, h_round = 0, h_epoch = 0, h_created_at = 0, h_payload = [], h_parents = [],
       h_latest_execution_block = (0, 0), h_digest = 0 \<rparr>"

definition genesis :: "crypto \<Rightarrow> committee \<Rightarrow> certificate list" where
  "genesis cr c =
     map (\<lambda>a. let h = (header_default (auth_id a))\<lparr> h_epoch := c_epoch c \<rparr> in
           \<lparr> c_header = h\<lparr> h_digest := hash_header cr h \<rparr>, c_state = Unsigned (default_sig cr),
             c_signed = [], c_created_at = 0 \<rparr>)
       (committee_authorities c)"

text \<open>
  The walk of \<open>new_internal\<close> over the authorities in identifier order: an authority whose vote is
  first in the remaining votes is taken, with its position and signature; repeated entries of the
  same vote are dropped. The result is what was taken and the votes that remain.
\<close>

fun select_votes ::
  "nat \<Rightarrow> authority list \<Rightarrow> (authority_id, signature) btree_map
    \<Rightarrow> (nat \<times> authority \<times> signature) list \<times> (authority_id, signature) btree_map" where
  "select_votes i [] votes = ([], votes)"
| "select_votes i (a # as) votes =
     (case votes of
        [] \<Rightarrow> select_votes (i + 1) as []
      | (k, s) # rest \<Rightarrow>
          if auth_id a = k then
            (let (taken, left) = select_votes (i + 1) as (dropWhile (\<lambda>e. e = (k, s)) rest)
             in ((i, a, s) # taken, left))
          else select_votes (i + 1) as votes)"

definition cert_new_internal ::
  "crypto \<Rightarrow> timestamp \<Rightarrow> committee \<Rightarrow> header \<Rightarrow> (authority_id, signature) btree_map \<Rightarrow> bool
    \<Rightarrow> (dag_error, certificate) result" where
  "cert_new_internal cr now c h votes check_stake =
     (let (taken, left) = select_votes 0 (committee_authorities c) votes;
          weight = u64_sum (map (\<lambda>(i, a, s). voting_power a) taken);
          sigs = map (\<lambda>(i, a, s). s) taken;
          bitmap = map fst taken
      in if \<not> sorted_wrt (<) bitmap then Inl InvalidBitmap
         else case left of
           e # _ \<Rightarrow> Inl (DUnknownAuthority (fst e))
         | [] \<Rightarrow>
             if \<not> (\<not> check_stake \<or> weight \<ge> quorum_threshold c) then Inl CertificateRequiresQuorum
             else (case (if sigs = [] then Some (default_sig cr) else aggregate_sigs cr sigs) of
                 None \<Rightarrow> Inl DInvalidSignature
               | Some sig \<Rightarrow>
                   Inr \<lparr> c_header = h,
                         c_state = (if \<not> check_stake then Unsigned sig else Unverified sig),
                         c_signed = bitmap, c_created_at = now \<rparr>))"

definition cert_new_unverified ::
  "crypto \<Rightarrow> timestamp \<Rightarrow> committee \<Rightarrow> header \<Rightarrow> (authority_id \<times> signature) list
    \<Rightarrow> (dag_error, certificate) result" where
  "cert_new_unverified cr now c h votes = cert_new_internal cr now c h (bt_collect votes) True"

fun select_indices :: "nat \<Rightarrow> authority list \<Rightarrow> nat list \<Rightarrow> authority list" where
  "select_indices i [] idx = []"
| "select_indices i (a # as) idx =
     (case idx of
        [] \<Rightarrow> select_indices (i + 1) as []
      | j # js \<Rightarrow> if j = i then a # select_indices (i + 1) as js else select_indices (i + 1) as (j # js))"

definition signed_by :: "committee \<Rightarrow> certificate \<Rightarrow> voting_power \<times> bls_pk list" where
  "signed_by c x =
     (let sel = select_indices 0 (committee_authorities c) (c_signed x)
      in (u64_sum (map voting_power sel), map protocol_key sel))"

definition aggregated_signature :: "certificate \<Rightarrow> signature option" where
  "aggregated_signature x =
     (case c_state x of
        VerifiedDirectly s \<Rightarrow> Some s | Unverified s \<Rightarrow> Some s | VerifiedIndirectly s \<Rightarrow> Some s
      | Unsigned s \<Rightarrow> Some s | Genesis \<Rightarrow> None)"

definition is_verified :: "certificate \<Rightarrow> bool" where
  "is_verified x =
     (case c_state x of VerifiedDirectly _ \<Rightarrow> True | VerifiedIndirectly _ \<Rightarrow> True | Genesis \<Rightarrow> True
      | _ \<Rightarrow> False)"

definition validate_received :: "certificate \<Rightarrow> (certificate_error, certificate) result" where
  "validate_received x =
     (case aggregated_signature x of
        None \<Rightarrow> Inl RecoverBlsAggregateSignatureBytes
      | Some s \<Rightarrow> Inr (x\<lparr> c_state := Unverified s \<rparr>))"

definition verify_signature :: "crypto \<Rightarrow> certificate \<Rightarrow> bls_pk list \<Rightarrow> (certificate_error, certificate) result" where
  "verify_signature cr x pks =
     (case c_state x of
        VerifiedIndirectly _ \<Rightarrow> Inr x
      | VerifiedDirectly _ \<Rightarrow> Inr x
      | Genesis \<Rightarrow> Inr x
      | Unsigned _ \<Rightarrow> Inl CUnsigned
      | Unverified s \<Rightarrow>
          if \<not> verify_aggregate cr s (cert_digest x) pks then Inl CInvalidSignature
          else Inr (x\<lparr> c_state := VerifiedDirectly s \<rparr>))"

definition cert_verify ::
  "crypto \<Rightarrow> committee \<Rightarrow> worker_cache \<Rightarrow> certificate \<Rightarrow> (certificate_error, certificate) result" where
  "cert_verify cr c wc x =
     (if cert_epoch x \<noteq> c_epoch c then Inl (CHeader (InvalidEpoch (cert_epoch x) (c_epoch c)))
      else if c_round x = 0 \<and> list_ex (\<lambda>g. cert_eq g x) (genesis cr c) then Inr x
      else case header_validate cr c wc (c_header x) of
        Inl e \<Rightarrow> Inl (CHeader e)
      | Inr _ \<Rightarrow>
          (let (weight, pks) = signed_by c x in
           if \<not> weight \<ge> quorum_threshold c then Inl (Inquorate weight (quorum_threshold c))
           else verify_signature cr x pks))"

definition verify_cert :: "crypto \<Rightarrow> committee \<Rightarrow> certificate \<Rightarrow> (certificate_error, certificate) result" where
  "verify_cert cr c x =
     (case validate_received x of
        Inl e \<Rightarrow> Inl e
      | Inr x' \<Rightarrow>
          (let (weight, pks) = signed_by c x' in
           if \<not> weight \<ge> quorum_threshold c then Inl (Inquorate weight (quorum_threshold c))
           else verify_signature cr x' pks))"

definition signer_ids :: "committee \<Rightarrow> certificate \<Rightarrow> authority_id set" where
  "signer_ids c x = auth_id ` set (select_indices 0 (committee_authorities c) (c_signed x))"

section \<open>Lemmas on headers\<close>

lemma cert_eq_refl [simp]: "cert_eq x x"
  by (simp add: cert_eq_def)

lemma cert_eq_digest: "cert_eq x y \<Longrightarrow> cert_digest x = cert_digest y"
  by (simp add: cert_eq_def cert_digest_def)

lemma header_validate_ok:
  assumes "header_validate cr c wc h = Inr ()"
  shows "h_epoch h = c_epoch c" "hash_header cr h = h_digest h" "h_author h \<in> members c"
    "voting_power_by_id c (h_author h) > 0"
proof -
  show "h_epoch h = c_epoch c" "hash_header cr h = h_digest h" "voting_power_by_id c (h_author h) > 0"
    using assms by (auto simp: header_validate_def split: if_splits)
  thus "h_author h \<in> members c" using power_non_member by fastforce
qed

lemma try_fold_unit_all:
  "try_fold f xs () = Inr () \<longleftrightarrow> (\<forall>x\<in>set xs. f x () = Inr ())"
  by (induction xs) (auto split: sum.splits)

lemma header_validate_workers:
  assumes "header_validate cr c wc h = Inr ()" "(d, w, t) \<in> set (h_payload h)"
  obtains a i where "committee_authority c (h_author h) = Some a" "cache_worker wc (protocol_key a) w = Inr i"
proof -
  have "validate_worker c wc h (w, t) () = Inr ()"
    using assms by (force simp: header_validate_def try_fold_unit_all split: if_splits)
  thus ?thesis using that by (auto simp: validate_worker_def split: option.splits sum.splits)
qed

lemma or_disjoint_nat: "r < 2 ^ n \<Longrightarrow> or (push_bit n e) r = e * 2 ^ n + (r :: nat)"
proof -
  assume "r < 2 ^ n"
  hence r: "take_bit n r = r" by (simp add: take_bit_nat_eq_self_iff)
  have "and (push_bit n e) (take_bit n r) = 0"
    by (rule bit_eqI) (auto simp: bit_and_iff bit_push_bit_iff bit_take_bit_iff)
  hence "push_bit n e + r = or (push_bit n e) r" unfolding r by (rule disjunctive_add_eq_or)
  thus ?thesis by (simp add: push_bit_eq_mult)
qed

lemma header_nonce_unat:
  assumes "h_epoch h < 2 ^ 32" "h_round h < 2 ^ 32"
  shows "unat (header_nonce h) = h_epoch h * 2 ^ 32 + h_round h"
proof -
  have "unat (push_bit 32 (word_of_nat (h_epoch h)) :: 64 word) = push_bit 32 (h_epoch h)"
    using assms(1) by (simp add: push_bit_eq_mult unat_word_ariths unat_of_nat take_bit_eq_mod)
  moreover have "unat (word_of_nat (h_round h) :: 64 word) = h_round h"
    using assms(2) by (simp add: unat_of_nat take_bit_eq_mod)
  ultimately show ?thesis
    using or_disjoint_nat[OF assms(2), of "h_epoch h"] by (simp add: header_nonce_def unsigned_or_eq)
qed

section \<open>Lemmas on certificates\<close>

lemma select_votes_none [simp]: "select_votes i as [] = ([], [])"
  by (induction as arbitrary: i) auto

lemma select_votes_hit:
  "auth_id a = k \<Longrightarrow> select_votes i (a # as) ((k, s) # rest) =
     (let r = select_votes (i + 1) as (dropWhile (\<lambda>e. e = (k, s)) rest) in ((i, a, s) # fst r, snd r))"
  by (simp add: Let_def split: prod.splits)

lemma select_votes_miss:
  "auth_id a \<noteq> k \<Longrightarrow> select_votes i (a # as) ((k, s) # rest) = select_votes (i + 1) as ((k, s) # rest)"
  by simp

lemmas select_votes_cases = select_votes_hit select_votes_miss Let_def

lemma select_votes_induct [case_names none empty hit miss]:
  assumes "\<And>i votes. P i [] votes" "\<And>i as. P i as []"
    and "\<And>i a as k s rest. auth_id a = k \<Longrightarrow> P (Suc i) as (dropWhile (\<lambda>e. e = (k, s)) rest) \<Longrightarrow> P i (a # as) ((k, s) # rest)"
    and "\<And>i a as k s rest. auth_id a \<noteq> k \<Longrightarrow> P (Suc i) as ((k, s) # rest) \<Longrightarrow> P i (a # as) ((k, s) # rest)"
  shows "P i as votes"
proof (induction as arbitrary: i votes)
  case (Cons a as i votes)
  show ?case
  proof (cases votes)
    case (Cons e rest)
    thus ?thesis using assms(3,4) Cons.IH by (cases e; cases "auth_id a = fst e") auto
  qed (simp add: assms(2))
qed (rule assms(1))

lemma select_votes_indices: "(j, a, s) \<in> set (fst (select_votes i as votes)) \<Longrightarrow> i \<le> j"
  by (induction i as votes rule: select_votes_induct) (auto simp: select_votes_cases simp del: select_votes.simps(2))

lemma select_votes_sorted: "sorted_wrt (<) (map fst (fst (select_votes i as votes)))"
  by (induction i as votes rule: select_votes_induct)
    (auto simp: select_votes_cases Suc_le_eq dest!: select_votes_indices simp del: select_votes.simps(2))

lemma select_indices_skip:
  "\<forall>j\<in>set idx. Suc i \<le> j \<Longrightarrow> select_indices i (a # as) idx = select_indices (Suc i) as idx"
  by (cases idx) auto

lemma select_indices_none [simp]: "select_indices i as [] = []"
  by (induction as arbitrary: i) auto

lemma select_indices_of_votes:
  "select_indices i as (map fst (fst (select_votes i as votes))) = map (\<lambda>(j, a, s). a) (fst (select_votes i as votes))"
proof (induction i as votes rule: select_votes_induct)
  case (miss i a as k s rest)
  have "select_indices i (a # as) (map fst (fst (select_votes (Suc i) as ((k, s) # rest))))
      = select_indices (Suc i) as (map fst (fst (select_votes (Suc i) as ((k, s) # rest))))"
    by (rule select_indices_skip) (auto dest: select_votes_indices)
  thus ?case using miss by (simp add: select_votes_miss)
qed (simp_all add: select_votes_cases del: select_votes.simps(2))

lemma keys_dropWhile:
  "insert k (fst ` set (dropWhile (\<lambda>e. e = (k, s)) rest)) = insert k (fst ` set rest)"
  by (induction rest) auto

lemma select_votes_keys:
  "fst ` set votes = (\<lambda>(j, a, s). auth_id a) ` set (fst (select_votes i as votes)) \<union> fst ` set (snd (select_votes i as votes))"
proof (induction i as votes rule: select_votes_induct)
  case (hit i a as k s rest)
  thus ?case using keys_dropWhile[of k s rest] by (simp add: select_votes_hit Let_def del: select_votes.simps(2))
qed (simp_all add: select_votes_miss del: select_votes.simps(2))

lemma select_indices_subset: "set (select_indices i as idx) \<subseteq> set as"
  by (induction i as idx rule: select_indices.induct) (auto split: list.splits if_splits)

lemma select_indices_distinct:
  "distinct (map f as) \<Longrightarrow> distinct (map f (select_indices i as idx))"
proof (induction i as idx rule: select_indices.induct)
  case (2 i a as idx)
  have "f a \<notin> f ` set (select_indices j as js)" for j js
    using 2(4) select_indices_subset[of j as js] by auto
  thus ?case using 2 by (auto split: list.splits)
qed simp

subsection \<open>The weight of the signers\<close>

lemma committee_authorities_ids:
  "committee_wf c \<Longrightarrow> distinct (map auth_id (committee_authorities c))"
  "committee_wf c \<Longrightarrow> set (committee_authorities c) = set (bt_values (authorities c))"
proof -
  assume w: "committee_wf c"
  have "map_of (authorities_by_id c) i = Some a \<Longrightarrow> auth_id a = i" for i a
    using committee_authority_iff[OF w] by (simp add: committee_authority_def)
  hence ids: "auth_id (snd e) = fst e" if "e \<in> set (authorities_by_id c)" for e
    using that by_id_sorted[OF w] by (metis bt_sorted_distinct map_of_is_SomeI prod.collapse)
  hence "map auth_id (committee_authorities c) = map fst (authorities_by_id c)"
    by (simp add: committee_authorities_def bt_values_def)
  thus "distinct (map auth_id (committee_authorities c))"
    using by_id_sorted[OF w] by (simp add: bt_sorted_distinct)
  have "a \<in> set (committee_authorities c) \<longleftrightarrow> (\<exists>i. map_of (authorities_by_id c) i = Some a)" for a
    using by_id_sorted[OF w] by (force simp: committee_authorities_def bt_values_def bt_sorted_distinct)
  thus "set (committee_authorities c) = set (bt_values (authorities c))"
    using committee_authority_iff[OF w] by (auto simp: committee_authority_def)
qed

lemma sum_selected:
  assumes "committee_wf c" "power_fits c" "distinct (map auth_id sel)" "set sel \<subseteq> set (committee_authorities c)"
  shows "u64_sum (map voting_power sel) = sum (voting_power_by_id c) (auth_id ` set sel)"
proof -
  have m: "map voting_power sel = map (voting_power_by_id c) (map auth_id sel)"
    using assms(4) committee_authorities_ids(2)[OF assms(1)] power_of_authority[OF assms(1)] by auto
  have s: "sum_list (map voting_power sel) = sum (voting_power_by_id c) (auth_id ` set sel)"
    unfolding m using sum_list_distinct_conv_sum_set[OF assms(3), of "voting_power_by_id c"] by simp
  have "auth_id ` set sel \<subseteq> members c"
    using assms(4) committee_authorities_ids(2)[OF assms(1)] members_eq[OF assms(1)] by auto
  hence "sum (voting_power_by_id c) (auth_id ` set sel) \<le> total_power c"
    unfolding total_power_def by (intro sum_mono2) auto
  moreover have "2 * total_power c < u64_max"
    using assms(2) total_power_sum_list[OF assms(1)] by (simp add: power_fits_def)
  ultimately show ?thesis using s by (simp add: u64_sum_exact)
qed

lemma signer_ids_members: "committee_wf c \<Longrightarrow> signer_ids c x \<subseteq> members c"
  using select_indices_subset[of 0 "committee_authorities c" "c_signed x"]
  by (auto simp: signer_ids_def members_eq committee_authorities_ids(2))

lemma signed_by_weight:
  assumes "committee_wf c" "power_fits c"
  shows "fst (signed_by c x) = sum (voting_power_by_id c) (signer_ids c x)"
  unfolding signed_by_def Let_def signer_ids_def fst_conv
  by (rule sum_selected[OF assms select_indices_distinct[OF committee_authorities_ids(1)[OF assms(1)]]
        select_indices_subset])

lemma cert_new_internal_signers:
  assumes "cert_new_internal cr now c h votes cs = Inr x"
  shows "c_header x = h" "signer_ids c x = fst ` set votes" "cs \<Longrightarrow> fst (signed_by c x) \<ge> quorum_threshold c"
proof -
  obtain taken left where tl: "select_votes 0 (committee_authorities c) votes = (taken, left)" by force
  have x: "left = []" "c_header x = h" "c_signed x = map fst taken"
    and q: "cs \<Longrightarrow> u64_sum (map (\<lambda>(i, a, s). voting_power a) taken) \<ge> quorum_threshold c"
    using assms by (auto simp: cert_new_internal_def tl Let_def split: if_splits list.splits option.splits)
  have sel: "select_indices 0 (committee_authorities c) (c_signed x) = map (\<lambda>(j, a, s). a) taken"
    using select_indices_of_votes[of 0 "committee_authorities c" votes] x(3) tl by simp
  show "c_header x = h" by (rule x(2))
  show "signer_ids c x = fst ` set votes"
    using select_votes_keys[of votes 0 "committee_authorities c"] tl x(1)
    by (simp add: signer_ids_def sel image_image case_prod_beta)
  have "fst (signed_by c x) = u64_sum (map (\<lambda>(i, a, s). voting_power a) taken)"
    by (simp add: signed_by_def sel Let_def comp_def split_def)
  thus "cs \<Longrightarrow> fst (signed_by c x) \<ge> quorum_threshold c" using q by simp
qed

lemma verify_signature_ok:
  "verify_signature cr x pks = Inr y \<Longrightarrow> c_header y = c_header x \<and> c_signed y = c_signed x \<and> is_verified y"
  by (auto simp: verify_signature_def is_verified_def split: sig_state.splits if_splits)

lemma verify_cert_ok:
  assumes "verify_cert cr c x = Inr y"
  obtains s where "aggregated_signature x = Some s" "y = x\<lparr> c_state := VerifiedDirectly s \<rparr>"
    "fst (signed_by c x) \<ge> quorum_threshold c" "verify_aggregate cr s (cert_digest x) (snd (signed_by c x))"
proof -
  obtain s where s: "aggregated_signature x = Some s"
    using assms by (auto simp: verify_cert_def validate_received_def split: option.splits)
  have "signed_by c (x\<lparr> c_state := Unverified s \<rparr>) = signed_by c x"
    and "cert_digest (x\<lparr> c_state := Unverified s \<rparr>) = cert_digest x"
    by (simp_all add: signed_by_def cert_digest_def)
  hence "y = x\<lparr> c_state := VerifiedDirectly s \<rparr>" "fst (signed_by c x) \<ge> quorum_threshold c"
    "verify_aggregate cr s (cert_digest x) (snd (signed_by c x))"
    using assms s by (auto simp: verify_cert_def validate_received_def verify_signature_def split: prod.splits if_splits)
  thus ?thesis using that s by blast
qed

end
