(* ===== verification/Sub_Dag.thy ===== *)
theory Sub_Dag
  imports Consensus_Types
begin

text \<open>
  Reputation scores (crates/types/src/primary/reputation.rs), committed sub dags and the consensus
  output (output.rs), and the header of the consensus chain (block.rs).
\<close>

section \<open>Reputation scores\<close>

record reputation_scores =
  scores_per_authority :: "(authority_id, nat) hash_map"
  final_of_schedule :: bool

definition scores_default :: reputation_scores where
  "scores_default = \<lparr> scores_per_authority = [], final_of_schedule = False \<rparr>"

definition scores_new :: "committee \<Rightarrow> reputation_scores" where
  "scores_new c =
     scores_default\<lparr> scores_per_authority :=
       fold (\<lambda>a. AList.update (auth_id a) 0) (committee_authorities c) [] \<rparr>"

definition add_score :: "authority_id \<Rightarrow> nat \<Rightarrow> reputation_scores \<Rightarrow> reputation_scores" where
  "add_score a score rs =
     (case map_of (scores_per_authority rs) a of
        Some v \<Rightarrow> rs\<lparr> scores_per_authority := AList.update a (u64_add v score) (scores_per_authority rs) \<rparr>
      | None \<Rightarrow> rs\<lparr> scores_per_authority := AList.update a score (scores_per_authority rs) \<rparr>)"

definition total_authorities :: "reputation_scores \<Rightarrow> nat" where
  "total_authorities rs = length (scores_per_authority rs)"

definition all_zero :: "reputation_scores \<Rightarrow> bool" where
  "all_zero rs = (\<not> list_ex (\<lambda>e. snd e > 0) (scores_per_authority rs))"

text \<open>
  The comparator of the sort: higher scores first, and equal scores by identifier, descending. A
  stable merge sort with a total order is insertion in that order.
\<close>

definition score_before :: "authority_id \<times> nat \<Rightarrow> authority_id \<times> nat \<Rightarrow> bool" where
  "score_before a1 a2 = (snd a2 < snd a1 \<or> snd a2 = snd a1 \<and> fst a2 \<le> fst a1)"

fun score_insert :: "authority_id \<times> nat \<Rightarrow> (authority_id \<times> nat) list \<Rightarrow> (authority_id \<times> nat) list" where
  "score_insert e [] = [e]"
| "score_insert e (x # xs) = (if score_before e x then e # x # xs else x # score_insert e xs)"

definition authorities_by_score_desc :: "reputation_scores \<Rightarrow> (authority_id \<times> nat) list" where
  "authorities_by_score_desc rs = foldr score_insert (scores_per_authority rs) []"

section \<open>Committed sub dags\<close>

record sub_dag =
  sd_certificates :: "certificate list"
  sd_leader :: certificate
  sd_reputation_score :: reputation_scores
  sd_commit_timestamp :: timestamp

definition sub_dag_new ::
  "certificate list \<Rightarrow> certificate \<Rightarrow> reputation_scores \<Rightarrow> sub_dag option \<Rightarrow> sub_dag" where
  "sub_dag_new certs leader rs prev =
     (let prev_ts = (case prev of None \<Rightarrow> 0 | Some s \<Rightarrow> sd_commit_timestamp s)
      in \<lparr> sd_certificates = certs, sd_leader = leader, sd_reputation_score = rs,
           sd_commit_timestamp = max prev_ts (h_created_at (c_header leader)) \<rparr>)"

definition num_primary_blocks :: "sub_dag \<Rightarrow> nat" where
  "num_primary_blocks s = sum_list (map (\<lambda>x. length (h_payload (c_header x))) (sd_certificates s))"

definition is_last :: "sub_dag \<Rightarrow> certificate \<Rightarrow> bool" where
  "is_last s out = (sd_certificates s \<noteq> [] \<and> cert_eq (last (sd_certificates s)) out)"

definition commit_timestamp :: "sub_dag \<Rightarrow> timestamp" where
  "commit_timestamp s =
     (if sd_commit_timestamp s = 0 then h_created_at (c_header (sd_leader s)) else sd_commit_timestamp s)"

text \<open>
  Verification of a sub dag from a peer: the leader directly, every certificate the leader lists as
  a parent (or that was already verified) indirectly, every other one directly.
\<close>

fun verify_sub_dag_certs ::
  "crypto \<Rightarrow> committee \<Rightarrow> digest set \<Rightarrow> certificate list \<Rightarrow> (certificate_error, certificate list) result" where
  "verify_sub_dag_certs cr c verified [] = Inr []"
| "verify_sub_dag_certs cr c verified (x # xs) =
     (if cert_digest x \<in> verified then
        (case aggregated_signature x of
           None \<Rightarrow> Inl RecoverBlsAggregateSignatureBytes
         | Some s \<Rightarrow>
             (case verify_sub_dag_certs cr c verified xs of
                Inl e \<Rightarrow> Inl e
              | Inr ys \<Rightarrow> Inr (x\<lparr> c_state := VerifiedIndirectly s \<rparr> # ys)))
      else
        (case verify_cert cr c x of
           Inl e \<Rightarrow> Inl e
         | Inr y \<Rightarrow>
             (case verify_sub_dag_certs cr c (insert (cert_digest y) verified) xs of
                Inl e \<Rightarrow> Inl e
              | Inr ys \<Rightarrow> Inr (y # ys))))"

definition verify_certificates :: "crypto \<Rightarrow> committee \<Rightarrow> sub_dag \<Rightarrow> (certificate_error, sub_dag) result" where
  "verify_certificates cr c s =
     (case verify_cert cr c (sd_leader s) of
        Inl e \<Rightarrow> Inl e
      | Inr l \<Rightarrow>
          (case verify_sub_dag_certs cr c (set (c_parents l)) (sd_certificates s) of
             Inl e \<Rightarrow> Inl e
           | Inr cs \<Rightarrow> Inr (s\<lparr> sd_certificates := cs, sd_leader := l \<rparr>)))"

section \<open>The consensus chain\<close>

record consensus_header =
  ch_parent_hash :: block_hash
  ch_sub_dag :: sub_dag
  ch_number :: nat
  ch_extra :: nat

text \<open>
  The digest of a consensus header hashes the parent hash, the digest of the sub dag and the number;
  the digest of a sub dag hashes the digests of its certificates and of its leader and the commit
  timestamp. The hash functions over these parts are the fields of \<^verbatim>\<open>chain_hash\<close>.
\<close>

record chain_hash =
  hash_sub_dag :: "digest list \<Rightarrow> digest \<Rightarrow> timestamp \<Rightarrow> digest"
  hash_block :: "block_hash \<Rightarrow> digest \<Rightarrow> nat \<Rightarrow> block_hash"

definition sub_dag_digest :: "chain_hash \<Rightarrow> sub_dag \<Rightarrow> digest" where
  "sub_dag_digest ha s =
     hash_sub_dag ha (map cert_digest (sd_certificates s)) (cert_digest (sd_leader s)) (sd_commit_timestamp s)"

definition digest_from_parts :: "chain_hash \<Rightarrow> block_hash \<Rightarrow> sub_dag \<Rightarrow> nat \<Rightarrow> block_hash" where
  "digest_from_parts ha parent s number = hash_block ha parent (sub_dag_digest ha s) number"

definition consensus_header_digest :: "chain_hash \<Rightarrow> consensus_header \<Rightarrow> block_hash" where
  "consensus_header_digest ha h = digest_from_parts ha (ch_parent_hash h) (ch_sub_dag h) (ch_number h)"

definition ch_verify_certificates ::
  "crypto \<Rightarrow> committee \<Rightarrow> consensus_header \<Rightarrow> (certificate_error, consensus_header) result" where
  "ch_verify_certificates cr c h =
     (case verify_certificates cr c (ch_sub_dag h) of
        Inl e \<Rightarrow> Inl e
      | Inr s \<Rightarrow> Inr (h\<lparr> ch_sub_dag := s \<rparr>))"

definition certificate_default :: "crypto \<Rightarrow> authority_id \<Rightarrow> certificate" where
  "certificate_default cr a =
     \<lparr> c_header = (header_default a)\<lparr> h_digest := hash_header cr (header_default a) \<rparr>,
       c_state = Unsigned (default_sig cr), c_signed = [], c_created_at = 0 \<rparr>"

definition consensus_header_default :: "crypto \<Rightarrow> authority_id \<Rightarrow> consensus_header" where
  "consensus_header_default cr a =
     \<lparr> ch_parent_hash = 0, ch_sub_dag = sub_dag_new [] (certificate_default cr a) scores_default None,
       ch_number = 0, ch_extra = 0 \<rparr>"

section \<open>Lemmas on scores\<close>

lemma score_before_total: "score_before a b \<or> score_before b a"
  by (auto simp: score_before_def)

lemma score_before_trans: "score_before a b \<Longrightarrow> score_before b c \<Longrightarrow> score_before a c"
  by (auto simp: score_before_def)

lemma mset_score_insert [simp]: "mset (score_insert e xs) = add_mset e (mset xs)"
  by (induction xs) auto

lemma sorted_score_insert: "sorted_wrt score_before xs \<Longrightarrow> sorted_wrt score_before (score_insert e xs)"
proof (induction xs)
  case (Cons x xs)
  have "set (score_insert e xs) = insert e (set xs)" by (metis mset_score_insert set_mset_add_mset_insert set_mset_mset)
  thus ?case using Cons score_before_total[of e x] score_before_trans[of e x] by auto
qed simp

lemma by_score_sorted: "sorted_wrt score_before (authorities_by_score_desc rs)"
proof -
  have "sorted_wrt score_before (foldr score_insert xs [])" for xs
    by (induction xs) (auto simp: sorted_score_insert)
  thus ?thesis by (simp add: authorities_by_score_desc_def)
qed

lemma by_score_mset: "mset (authorities_by_score_desc rs) = mset (scores_per_authority rs)"
proof -
  have "mset (foldr score_insert xs []) = mset xs" for xs by (induction xs) auto
  thus ?thesis by (simp add: authorities_by_score_desc_def)
qed

lemma scores_new_keys:
  assumes "committee_wf c"
  shows "dom (map_of (scores_per_authority (scores_new c))) = members c"
    "distinct (map fst (scores_per_authority (scores_new c)))"
proof -
  have f: "fold (\<lambda>a. AList.update (auth_id a) 0) as m = fold (\<lambda>(k, v). AList.update k v) (map (\<lambda>a. (auth_id a, 0)) as) m"
    for as :: "authority list" and m :: "(authority_id, nat) hash_map"
    by (induction as arbitrary: m) auto
  let ?es = "map (\<lambda>a. (auth_id a, 0)) (committee_authorities c)"
  have s: "scores_per_authority (scores_new c) = fold (\<lambda>(k, v). AList.update k v) ?es []"
    by (simp add: scores_new_def f)
  have "distinct (map fst ?es)" using committee_authorities_ids(1)[OF assms] by (simp add: comp_def)
  hence "map_of (scores_per_authority (scores_new c)) = map_of ?es"
    unfolding s by (rule hm.get_put_list_distinct)
  thus "dom (map_of (scores_per_authority (scores_new c))) = members c"
    by (simp add: dom_map_of_conv_image_fst image_image committee_authorities_ids(2)[OF assms] members_eq[OF assms])
  show "distinct (map fst (scores_per_authority (scores_new c)))"
    unfolding s using hm.wf_put_list[of "[]" ?es] by simp
qed

lemma add_score_keys:
  "dom (map_of (scores_per_authority (add_score a n rs))) = insert a (dom (map_of (scores_per_authority rs)))"
  "distinct (map fst (scores_per_authority rs)) \<Longrightarrow> distinct (map fst (scores_per_authority (add_score a n rs)))"
  by (auto simp: add_score_def map_simps distinct_update split: option.splits)

lemma total_authorities_keys:
  "distinct (map fst (scores_per_authority rs)) \<Longrightarrow>
     total_authorities rs = card (dom (map_of (scores_per_authority rs)))"
  using hm.length_entries[of "scores_per_authority rs"] by (simp add: total_authorities_def)

section \<open>Lemmas on sub dags\<close>

lemma sub_dag_new_timestamp:
  "sd_commit_timestamp (sub_dag_new cs l rs prev) \<ge> h_created_at (c_header l)"
  "prev = Some p \<Longrightarrow> sd_commit_timestamp (sub_dag_new cs l rs prev) \<ge> sd_commit_timestamp p"
  by (auto simp: sub_dag_new_def Let_def)

lemma verify_cert_same:
  assumes "verify_cert cr c x = Inr y"
  shows "c_header y = c_header x \<and> is_verified y"
proof -
  obtain s where "y = x\<lparr> c_state := VerifiedDirectly s \<rparr>" using assms by (rule verify_cert_ok)
  thus ?thesis by (simp add: is_verified_def)
qed

lemma verify_sub_dag_certs_same:
  assumes "verify_sub_dag_certs cr c ok xs = Inr ys"
  shows "map c_header ys = map c_header xs \<and> (\<forall>y\<in>set ys. is_verified y)"
  using assms
proof (induction xs arbitrary: ok ys)
  case (Cons x xs)
  show ?case
  proof (cases "cert_digest x \<in> ok")
    case True
    then obtain s zs where "verify_sub_dag_certs cr c ok xs = Inr zs" "ys = x\<lparr> c_state := VerifiedIndirectly s \<rparr> # zs"
      using Cons.prems by (auto split: option.splits sum.splits)
    thus ?thesis using Cons.IH[of ok zs] by (simp add: is_verified_def)
  next
    case False
    then obtain y zs where "verify_cert cr c x = Inr y" "ys = y # zs"
      "verify_sub_dag_certs cr c (insert (cert_digest y) ok) xs = Inr zs"
      using Cons.prems by (auto split: sum.splits)
    thus ?thesis using Cons.IH verify_cert_same by simp
  qed
qed simp

lemma verify_sub_dag_certs_each:
  assumes "verify_sub_dag_certs cr c ok xs = Inr ys" "x \<in> set xs" "cert_digest x \<notin> ok"
  shows "\<exists>x'\<in>set xs. cert_digest x' = cert_digest x \<and> is_ok (verify_cert cr c x')"
  using assms
proof (induction xs arbitrary: ok ys)
  case (Cons z xs)
  show ?case
  proof (cases "cert_digest z \<in> ok")
    case True
    then obtain zs where "verify_sub_dag_certs cr c ok xs = Inr zs"
      using Cons.prems(1) by (auto split: option.splits sum.splits)
    moreover have "x \<in> set xs" using Cons.prems True by auto
    ultimately show ?thesis using Cons.IH Cons.prems(3) by (meson list.set_intros(2))
  next
    case False
    then obtain y zs where y: "verify_cert cr c z = Inr y"
      "verify_sub_dag_certs cr c (insert (cert_digest y) ok) xs = Inr zs"
      using Cons.prems(1) by (auto split: sum.splits)
    have d: "cert_digest y = cert_digest z" using verify_cert_same[OF y(1)] by (simp add: cert_digest_def)
    show ?thesis
    proof (cases "cert_digest x = cert_digest z")
      case True
      thus ?thesis using y(1) by (intro bexI[of _ z]) simp_all
    next
      case ne: False
      hence "x \<in> set xs" "cert_digest x \<notin> insert (cert_digest y) ok" using Cons.prems d by auto
      thus ?thesis using Cons.IH[OF y(2)] by (meson list.set_intros(2))
    qed
  qed
qed simp

lemma verify_certificates_ok:
  assumes "verify_certificates cr c s = Inr t"
  shows "sub_dag_digest ha t = sub_dag_digest ha s" "is_ok (verify_cert cr c (sd_leader s))"
    "\<forall>x\<in>set (sd_certificates t). is_verified x"
    "x \<in> set (sd_certificates s) \<Longrightarrow> cert_digest x \<in> set (c_parents (sd_leader s)) \<or>
       (\<exists>x'\<in>set (sd_certificates s). cert_digest x' = cert_digest x \<and> is_ok (verify_cert cr c x'))"
proof -
  obtain l cs where l: "verify_cert cr c (sd_leader s) = Inr l"
    and cs: "verify_sub_dag_certs cr c (set (c_parents l)) (sd_certificates s) = Inr cs"
    and t: "t = s\<lparr> sd_certificates := cs, sd_leader := l \<rparr>"
    using assms by (auto simp: verify_certificates_def split: sum.splits)
  have h: "c_header l = c_header (sd_leader s)" using verify_cert_same[OF l] by simp
  note ok = verify_sub_dag_certs_same[OF cs]
  have m: "map cert_digest xs = map h_digest (map c_header xs)" for xs by (simp add: cert_digest_def)
  have "map cert_digest cs = map cert_digest (sd_certificates s)" unfolding m using ok by simp
  thus "sub_dag_digest ha t = sub_dag_digest ha s"
    using h by (simp add: sub_dag_digest_def t cert_digest_def)
  show "is_ok (verify_cert cr c (sd_leader s))" "\<forall>x\<in>set (sd_certificates t). is_verified x"
    using l ok t by simp_all
  show "x \<in> set (sd_certificates s) \<Longrightarrow> cert_digest x \<in> set (c_parents (sd_leader s)) \<or>
       (\<exists>x'\<in>set (sd_certificates s). cert_digest x' = cert_digest x \<and> is_ok (verify_cert cr c x'))"
    using verify_sub_dag_certs_each[OF cs, of x] unfolding h by blast
qed

end
