(* ===== verification/Dag_State.thy ===== *)
theory Dag_State
  imports Sub_Dag
begin

text \<open>
  The state of consensus (crates/consensus/primary/src/consensus/state.rs): the in-memory DAG of
  certificates by round and origin, the last committed round of every authority, the committed and
  garbage collection rounds, and the operations that insert a certificate, commit one, and rebuild
  the state from the stores. The errors and outcomes are those of consensus/mod.rs.
\<close>

section \<open>Rounds\<close>

record consensus_round =
  committed_round :: round
  gc_round :: round

definition calc_gc_round :: "round \<Rightarrow> round \<Rightarrow> round" where
  "calc_gc_round commit_round gc_depth = commit_round - gc_depth"

definition round_new_with_gc_depth :: "round \<Rightarrow> round \<Rightarrow> consensus_round" where
  "round_new_with_gc_depth committed depth =
     \<lparr> committed_round = committed, gc_round = calc_gc_round committed depth \<rparr>"

definition round_update :: "consensus_round \<Rightarrow> round \<Rightarrow> round \<Rightarrow> consensus_round" where
  "round_update cr new_committed depth =
     (let last = max (committed_round cr) new_committed
      in \<lparr> committed_round = last, gc_round = calc_gc_round last depth \<rparr>)"

section \<open>The state\<close>

type_synonym round_table = "(authority_id, digest \<times> certificate) hash_map"
type_synonym dag = "(round, round_table) btree_map"

record cstate =
  last_round :: consensus_round
  gc_depth :: round
  last_committed :: "(authority_id, round) hash_map"
  last_committed_sub_dag :: "sub_dag option"
  dag_of :: dag

datatype consensus_error =
    StoreError
  | CertificateEquivocation certificate certificate
  | ShuttingDownC
  | MissingParent digest certificate
  | MissingParentRound certificate

datatype outcome =
    CertificateBelowCommitRound
  | NoLeaderElectedForOddRound
  | LeaderBelowCommitRound
  | LeaderNotFound
  | NotEnoughSupportForLeader
  | Commit
  | ScheduleChanged

definition cstate_new :: "round \<Rightarrow> cstate" where
  "cstate_new depth =
     \<lparr> last_round = \<lparr> committed_round = 0, gc_round = 0 \<rparr>, gc_depth = depth, last_committed = [],
       last_committed_sub_dag = None, dag_of = [] \<rparr>"

fun first_missing :: "digest set \<Rightarrow> digest list \<Rightarrow> digest option" where
  "first_missing known [] = None"
| "first_missing known (p # ps) = (if p \<in> known then first_missing known ps else Some p)"

definition check_parents :: "certificate \<Rightarrow> dag \<Rightarrow> round \<Rightarrow> (consensus_error, unit) result" where
  "check_parents x d gc =
     (if c_round x \<le> gc + 1 then Inr ()
      else case map_of d (u32_sub (c_round x) 1) of
        Some tbl \<Rightarrow>
          (case first_missing (set (map (\<lambda>e. fst (snd e)) tbl)) (c_parents x) of
             Some p \<Rightarrow> Inl (MissingParent p x)
           | None \<Rightarrow> Inr ())
      | None \<Rightarrow> Inl (MissingParentRound x))"

text \<open>
  The entry of the round is created when absent, the certificate replaces whatever its origin had
  there, and only then is a different earlier certificate reported: the DAG is returned with the
  result.
\<close>

definition round_entry :: "dag \<Rightarrow> round \<Rightarrow> round_table" where
  "round_entry d r = (case map_of d r of None \<Rightarrow> [] | Some tbl \<Rightarrow> tbl)"

definition dag_put :: "certificate \<Rightarrow> dag \<Rightarrow> dag" where
  "dag_put x d =
     bt_insert (c_round x) (AList.update (c_origin x) (cert_digest x, x) (round_entry d (c_round x))) d"

definition committed_of :: "(authority_id, round) hash_map \<Rightarrow> authority_id \<Rightarrow> round" where
  "committed_of lc a = (case map_of lc a of None \<Rightarrow> 0 | Some r \<Rightarrow> r)"

definition try_insert_in_dag ::
  "dag \<Rightarrow> (authority_id, round) hash_map \<Rightarrow> round \<Rightarrow> certificate \<Rightarrow> bool \<Rightarrow> dag \<times> (consensus_error, bool) result" where
  "try_insert_in_dag d lc gc x check =
     (if c_round x \<le> gc then (d, Inr False)
      else case (if check then check_parents x d gc else Inr ()) of
        Inl e \<Rightarrow> (d, Inl e)
      | Inr _ \<Rightarrow>
          (case map_of (round_entry d (c_round x)) (c_origin x) of
             Some (_, old) \<Rightarrow>
               if cert_digest old \<noteq> cert_digest x then (dag_put x d, Inl (CertificateEquivocation x old))
               else (dag_put x d, Inr (committed_of lc (c_origin x) < c_round x))
           | None \<Rightarrow> (dag_put x d, Inr (committed_of lc (c_origin x) < c_round x))))"

definition try_insert :: "cstate \<Rightarrow> certificate \<Rightarrow> cstate \<times> (consensus_error, bool) result" where
  "try_insert st x =
     (let (d, res) = try_insert_in_dag (dag_of st) (last_committed st) (gc_round (last_round st)) x True
      in (st\<lparr> dag_of := d \<rparr>, res))"

definition state_update :: "certificate \<Rightarrow> cstate \<Rightarrow> cstate" where
  "state_update x st =
     (let lc = (case map_of (last_committed st) (c_origin x) of
                  Some r \<Rightarrow> AList.update (c_origin x) (max r (c_round x)) (last_committed st)
                | None \<Rightarrow> AList.update (c_origin x) (c_round x) (last_committed st));
          lr = round_update (last_round st) (c_round x) (gc_depth st)
      in st\<lparr> last_committed := lc, last_round := lr,
             dag_of := bt_retain (\<lambda>r _. r > gc_round lr) (dag_of st) \<rparr>)"

text \<open>
  The certificates that the store returns after the given round are the argument of the recovery:
  an error inside it is the panic of the caller.
\<close>

fun construct_dag ::
  "(authority_id, round) hash_map \<Rightarrow> round \<Rightarrow> certificate list \<Rightarrow> dag \<Rightarrow> (consensus_error, dag) result" where
  "construct_dag lc gc [] d = Inr d"
| "construct_dag lc gc (x # xs) d =
     (case try_insert_in_dag d lc gc x False of
        (d', Inl e) \<Rightarrow> Inl e
      | (d', Inr _) \<Rightarrow> construct_dag lc gc xs d')"

definition construct_dag_from_cert_store ::
  "(round \<Rightarrow> certificate list) \<Rightarrow> (authority_id, round) hash_map \<Rightarrow> round \<Rightarrow> (consensus_error, dag) result" where
  "construct_dag_from_cert_store after_round lc gc = construct_dag lc gc (after_round (gc + 1)) []"

definition new_from_store ::
  "round \<Rightarrow> round \<Rightarrow> (authority_id, round) hash_map \<Rightarrow> sub_dag option \<Rightarrow> (round \<Rightarrow> certificate list) \<Rightarrow> cstate option" where
  "new_from_store last_committed_round depth recovered latest after_round =
     (let lr = round_new_with_gc_depth last_committed_round depth
      in case construct_dag_from_cert_store after_round recovered (gc_round lr) of
           Inl e \<Rightarrow> None
         | Inr d \<Rightarrow> Some \<lparr> last_round = lr, gc_depth = depth, last_committed = recovered,
                          last_committed_sub_dag = latest, dag_of = d \<rparr>)"

section \<open>Well-formed DAGs\<close>

definition in_dag :: "dag \<Rightarrow> certificate \<Rightarrow> bool" where
  "in_dag d x = (\<exists>tbl. map_of d (c_round x) = Some tbl \<and> map_of tbl (c_origin x) = Some (cert_digest x, x))"

definition table_wf :: "round \<Rightarrow> round_table \<Rightarrow> bool" where
  "table_wf r tbl = (distinct (map fst tbl) \<and>
     (\<forall>(a, g, x)\<in>set tbl. c_origin x = a \<and> c_round x = r \<and> cert_digest x = g))"

definition dag_wf :: "dag \<Rightarrow> bool" where
  "dag_wf d = (bt_sorted d \<and> (\<forall>(r, tbl)\<in>set d. table_wf r tbl))"

lemma dag_wf_get: "dag_wf d \<Longrightarrow> map_of d r = Some tbl \<Longrightarrow> table_wf r tbl"
  by (auto simp: dag_wf_def dest!: map_of_SomeD)

lemma dag_wf_Nil [simp]: "dag_wf []"
  by (simp add: dag_wf_def bt_sorted_Nil)

lemma table_wf_Nil [simp]: "table_wf r []"
  by (simp add: table_wf_def)

lemma round_entry_wf: "dag_wf d \<Longrightarrow> table_wf r (round_entry d r)"
  by (auto simp: round_entry_def split: option.splits dest: dag_wf_get)

lemma table_wf_update:
  assumes "table_wf (c_round x) tbl"
  shows "table_wf (c_round x) (AList.update (c_origin x) (cert_digest x, x) tbl)"
proof -
  have "distinct (map fst tbl)" using assms by (simp add: table_wf_def)
  hence "set (AList.update (c_origin x) (cert_digest x, x) tbl)
      = insert (c_origin x, cert_digest x, x) {e \<in> set tbl. fst e \<noteq> c_origin x}"
    using hm.values_put[of tbl "c_origin x" "(cert_digest x, x)"] by simp
  thus ?thesis using assms by (auto simp: table_wf_def distinct_update)
qed

lemma dag_wf_put:
  assumes "dag_wf d"
  shows "dag_wf (dag_put x d)"
proof -
  let ?t = "AList.update (c_origin x) (cert_digest x, x) (round_entry d (c_round x))"
  have s: "bt_sorted d" using assms by (simp add: dag_wf_def)
  have "set (bt_insert (c_round x) ?t d) = insert (c_round x, ?t) {e \<in> set d. fst e \<noteq> c_round x}"
    using bt.values_put[OF s, of "c_round x" ?t] by simp
  thus ?thesis using assms table_wf_update[OF round_entry_wf[OF assms]]
    by (auto simp: dag_wf_def dag_put_def bt_sorted_insert)
qed

lemma dag_wf_retain: "dag_wf d \<Longrightarrow> dag_wf (bt_retain p d)"
  by (auto simp: dag_wf_def bt_sorted_retain) (auto simp: bt_retain_def)

lemma table_wf_get: "table_wf r tbl \<Longrightarrow> map_of tbl a = Some (g, x) \<Longrightarrow> c_origin x = a \<and> c_round x = r \<and> cert_digest x = g"
  by (auto simp: table_wf_def dest!: map_of_SomeD)

lemma table_wf_mem:
  "table_wf r tbl \<Longrightarrow> (a, g, x) \<in> set tbl \<Longrightarrow>
     c_origin x = a \<and> c_round x = r \<and> cert_digest x = g \<and> map_of tbl a = Some (g, x)"
  by (auto simp: table_wf_def)

lemma in_dag_iff_mem:
  assumes "dag_wf d" "map_of d r = Some tbl"
  shows "(a, g, x) \<in> set tbl \<longleftrightarrow> in_dag d x \<and> c_round x = r \<and> c_origin x = a \<and> cert_digest x = g"
  using table_wf_mem[OF dag_wf_get[OF assms]] assms(2) by (auto simp: in_dag_def dest: map_of_SomeD)

lemma in_dag_retain:
  "dag_wf d \<Longrightarrow> in_dag (bt_retain (\<lambda>r _. P r) d) x \<longleftrightarrow> in_dag d x \<and> P (c_round x)"
  by (auto simp: in_dag_def dag_wf_def map_simps split: option.splits)

lemma in_dag_put:
  "in_dag (dag_put x d) y \<longleftrightarrow> y = x \<or> in_dag d y \<and> \<not> (c_round y = c_round x \<and> c_origin y = c_origin x)"
  by (auto simp: in_dag_def dag_put_def map_simps round_entry_def split: option.splits)

lemma in_dag_unique: "in_dag d x \<Longrightarrow> in_dag d y \<Longrightarrow> c_round x = c_round y \<Longrightarrow> c_origin x = c_origin y \<Longrightarrow> x = y"
  by (auto simp: in_dag_def)

lemma in_dag_Nil [simp]: "\<not> in_dag [] x"
  by (simp add: in_dag_def)

lemma first_missing_None: "first_missing known ps = None \<longleftrightarrow> set ps \<subseteq> known"
  by (induction ps) auto

lemma first_missing_Some: "first_missing known ps = Some p \<Longrightarrow> p \<in> set ps \<and> p \<notin> known"
  by (induction ps) (auto split: if_splits)

lemma table_digests:
  assumes "dag_wf d" "map_of d r = Some tbl"
  shows "set (map (\<lambda>e. fst (snd e)) tbl) = {cert_digest x |x. in_dag d x \<and> c_round x = r}"
proof -
  have m: "g \<in> set (map (\<lambda>e. fst (snd e)) tbl) \<longleftrightarrow> (\<exists>a x. (a, g, x) \<in> set tbl)" for g by force
  show ?thesis by (rule set_eqI) (simp only: m in_dag_iff_mem[OF assms] mem_Collect_eq, blast)
qed

lemma check_parents_ok:
  assumes "dag_wf d" "check_parents x d gc = Inr ()" "gc + 1 < c_round x" "p \<in> set (c_parents x)"
  shows "\<exists>y. in_dag d y \<and> cert_digest y = p \<and> c_round y + 1 = c_round x"
proof -
  obtain tbl where t: "map_of d (c_round x - 1) = Some tbl"
    and "first_missing (set (map (\<lambda>e. fst (snd e)) tbl)) (c_parents x) = None"
    using assms(2,3) by (auto simp: check_parents_def u64_simps split: option.splits if_splits)
  hence "p \<in> set (map (\<lambda>e. fst (snd e)) tbl)" using assms(4) first_missing_None by blast
  then obtain y where "in_dag d y" "cert_digest y = p" "c_round y = c_round x - 1"
    using table_digests[OF assms(1) t] by auto
  thus ?thesis using assms(3) by auto
qed

section \<open>Insertion\<close>

lemma try_insert_in_dag_wf:
  "dag_wf d \<Longrightarrow> try_insert_in_dag d lc gc x chk = (d', r) \<Longrightarrow> dag_wf d'"
  by (auto simp: try_insert_in_dag_def dag_wf_put split: if_splits sum.splits option.splits)

lemma try_insert_in_dag_ok:
  assumes "try_insert_in_dag d lc gc x chk = (d', Inr b)"
  shows "(c_round x \<le> gc \<and> d' = d \<and> \<not> b) \<or>
     (gc < c_round x \<and> d' = dag_put x d \<and> (b \<longleftrightarrow> committed_of lc (c_origin x) < c_round x) \<and>
      (chk \<longrightarrow> check_parents x d gc = Inr ()) \<and>
      (\<forall>g old. map_of (round_entry d (c_round x)) (c_origin x) = Some (g, old) \<longrightarrow> cert_digest old = cert_digest x))"
  using assms by (auto simp: try_insert_in_dag_def split: if_splits sum.splits option.splits)

lemma construct_dag_wf: "dag_wf d \<Longrightarrow> construct_dag lc gc xs d = Inr d' \<Longrightarrow> dag_wf d'"
proof (induction xs arbitrary: d)
  case (Cons x xs)
  obtain d1 b where d1: "try_insert_in_dag d lc gc x False = (d1, Inr b)" "construct_dag lc gc xs d1 = Inr d'"
    using Cons.prems(2) by (auto split: prod.splits sum.splits)
  thus ?case using Cons.IH try_insert_in_dag_wf[OF Cons.prems(1) d1(1)] by blast
qed simp

lemma construct_dag_rounds:
  assumes "construct_dag lc gc xs d = Inr d'" "\<And>y. in_dag d y \<Longrightarrow> gc < c_round y \<and> y \<in> S" "set xs \<subseteq> S" "in_dag d' y"
  shows "gc < c_round y \<and> y \<in> S"
  using assms
proof (induction xs arbitrary: d)
  case (Cons x xs)
  obtain d1 b where d1: "try_insert_in_dag d lc gc x False = (d1, Inr b)" "construct_dag lc gc xs d1 = Inr d'"
    using Cons.prems(1) by (auto split: prod.splits sum.splits)
  have "\<And>y. in_dag d1 y \<Longrightarrow> gc < c_round y \<and> y \<in> S"
    using try_insert_in_dag_ok[OF d1(1)] Cons.prems(2,3) by (auto simp: in_dag_put)
  thus ?case using Cons.IH[OF d1(2)] Cons.prems(3,4) by simp
qed simp

section \<open>Committing\<close>

lemma committed_of_update:
  "committed_of (last_committed (state_update x st)) a =
     (if a = c_origin x then max (committed_of (last_committed st) a) (c_round x) else committed_of (last_committed st) a)"
  by (auto simp: state_update_def Let_def committed_of_def map_simps split: option.splits)

lemma state_update_fields [simp]:
  "gc_depth (state_update x st) = gc_depth st"
  "last_committed_sub_dag (state_update x st) = last_committed_sub_dag st"
  "committed_round (last_round (state_update x st)) = max (committed_round (last_round st)) (c_round x)"
  "gc_round (last_round (state_update x st)) = max (committed_round (last_round st)) (c_round x) - gc_depth st"
  by (simp_all add: state_update_def Let_def round_update_def calc_gc_round_def)

lemma state_update_dag:
  "dag_wf (dag_of st) \<Longrightarrow> dag_wf (dag_of (state_update x st))"
  "dag_wf (dag_of st) \<Longrightarrow> in_dag (dag_of (state_update x st)) y \<longleftrightarrow>
     in_dag (dag_of st) y \<and> gc_round (last_round (state_update x st)) < c_round y"
  by (simp_all add: state_update_def Let_def dag_wf_retain in_dag_retain)

text \<open>The invariant of the state between two certificates.\<close>

definition cstate_wf :: "cstate \<Rightarrow> bool" where
  "cstate_wf st =
     (dag_wf (dag_of st) \<and>
      gc_round (last_round st) = calc_gc_round (committed_round (last_round st)) (gc_depth st) \<and>
      (\<forall>x. in_dag (dag_of st) x \<longrightarrow> gc_round (last_round st) < c_round x) \<and>
      (\<forall>a. committed_of (last_committed st) a \<le> committed_round (last_round st)))"

lemma cstate_wf_new: "cstate_wf (cstate_new depth)"
  by (simp add: cstate_wf_def cstate_new_def calc_gc_round_def committed_of_def)

lemma cstate_wf_update: "cstate_wf st \<Longrightarrow> cstate_wf (state_update x st)"
  by (auto simp: cstate_wf_def state_update_dag committed_of_update calc_gc_round_def max_def
      intro: le_trans)

lemma try_insert_fields:
  "try_insert st x = (st', r) \<Longrightarrow> last_round st' = last_round st \<and> gc_depth st' = gc_depth st \<and>
     last_committed st' = last_committed st \<and> last_committed_sub_dag st' = last_committed_sub_dag st"
  by (auto simp: try_insert_def split: prod.splits)

lemma cstate_wf_try_insert:
  assumes "cstate_wf st" "try_insert st x = (st', r)"
  shows "cstate_wf st'"
proof -
  obtain d where d: "try_insert_in_dag (dag_of st) (last_committed st) (gc_round (last_round st)) x True = (d, r)"
    "st' = st\<lparr> dag_of := d \<rparr>" using assms(2) by (auto simp: try_insert_def split: prod.splits)
  have "d = dag_of st \<or> d = dag_put x (dag_of st) \<and> gc_round (last_round st) < c_round x"
    using d(1) by (auto simp: try_insert_in_dag_def split: if_splits sum.splits option.splits)
  thus ?thesis using assms(1) d by (auto simp: cstate_wf_def dag_wf_put in_dag_put)
qed

lemma cstate_wf_new_from_store:
  assumes "new_from_store r depth lc latest after = Some st" "\<And>a. committed_of lc a \<le> r"
  shows "cstate_wf st"
proof -
  let ?gc = "gc_round (round_new_with_gc_depth r depth)"
  obtain d where d: "construct_dag lc ?gc (after (?gc + 1)) [] = Inr d"
    and st: "st = \<lparr> last_round = round_new_with_gc_depth r depth, gc_depth = depth, last_committed = lc,
                    last_committed_sub_dag = latest, dag_of = d \<rparr>"
    using assms(1) by (auto simp: new_from_store_def construct_dag_from_cert_store_def Let_def split: sum.splits)
  have "in_dag d y \<Longrightarrow> ?gc < c_round y" for y
    using construct_dag_rounds[OF d, of UNIV] by simp
  thus ?thesis using construct_dag_wf[OF _ d] assms(2) st
    by (simp add: cstate_wf_def round_new_with_gc_depth_def)
qed

end
