(* ===== verification/Leader_Schedule.thy ===== *)
theory Leader_Schedule
  imports Dag_State
begin

text \<open>
  The leader schedule (crates/consensus/primary/src/consensus/leader_schedule.rs): the swap table
  built from final reputation scores, the election of the leader of an even round, and the look-up
  of its certificate. The seeded random choices of the rand crate are the fields of \<^verbatim>\<open>rng\<close>.
\<close>

record rng =
  rng_weighted :: "nat \<Rightarrow> (authority \<times> voting_power) list \<Rightarrow> authority option"
  rng_choose :: "nat \<Rightarrow> authority list \<Rightarrow> authority option"

record swap_table =
  t_round :: round
  good_nodes :: "authority list"
  bad_nodes :: "(authority_id, authority) hash_map"

definition swap_table_default :: swap_table where
  "swap_table_default = \<lparr> t_round = 0, good_nodes = [], bad_nodes = [] \<rparr>"

fun take_nodes :: "committee \<Rightarrow> nat \<Rightarrow> nat \<Rightarrow> (authority_id \<times> nat) list \<Rightarrow> authority list" where
  "take_nodes c limit vp [] = []"
| "take_nodes c limit vp ((a, score) # as) =
     (let vp' = u64_add vp (voting_power_by_id c a) in
      if vp' > limit then []
      else case committee_authority c a of
          Some x \<Rightarrow> x # take_nodes c limit vp' as
        | None \<Rightarrow> take_nodes c limit vp' as)"

definition retrieve_first_nodes :: "committee \<Rightarrow> (authority_id \<times> nat) list \<Rightarrow> nat \<Rightarrow> authority list" where
  "retrieve_first_nodes c as threshold =
     take_nodes c (u64_mul threshold (total_voting_power c) div 100) 0 as"

text \<open>\<^const>\<open>None\<close> is a failed assertion.\<close>

definition swap_table_new :: "committee \<Rightarrow> round \<Rightarrow> reputation_scores \<Rightarrow> nat \<Rightarrow> swap_table option" where
  "swap_table_new c r rs threshold =
     (if \<not> threshold \<le> 33 \<or> \<not> final_of_schedule rs then None
      else Some
        \<lparr> t_round = r,
          good_nodes = retrieve_first_nodes c (authorities_by_score_desc rs) threshold,
          bad_nodes = fold (\<lambda>a. AList.update (auth_id a) a)
            (retrieve_first_nodes c (rev (authorities_by_score_desc rs)) threshold) [] \<rparr>)"

text \<open>The swap: the outer option is the panic on an empty list of good nodes.\<close>

definition swap :: "rng \<Rightarrow> swap_table \<Rightarrow> authority_id \<Rightarrow> round \<Rightarrow> authority option option" where
  "swap g t leader leader_round =
     (if map_of (bad_nodes t) leader \<noteq> None then
        (case rng_choose g leader_round (good_nodes t) of
           None \<Rightarrow> None
         | Some x \<Rightarrow> Some (Some x))
      else Some None)"

record schedule =
  ls_committee :: committee
  ls_table :: swap_table

definition schedule_from_store :: "committee \<Rightarrow> sub_dag option \<Rightarrow> nat \<Rightarrow> schedule option" where
  "schedule_from_store c latest_final threshold =
     (case latest_final of
        None \<Rightarrow> Some \<lparr> ls_committee = c, ls_table = swap_table_default \<rparr>
      | Some s \<Rightarrow>
          (case swap_table_new c (c_round (sd_leader s)) (sd_reputation_score s) threshold of
             None \<Rightarrow> None
           | Some t \<Rightarrow> Some \<lparr> ls_committee = c, ls_table = t \<rparr>))"

definition reload_from_store :: "schedule \<Rightarrow> sub_dag option \<Rightarrow> nat \<Rightarrow> schedule option" where
  "reload_from_store ls latest_final threshold =
     (case latest_final of
        None \<Rightarrow> Some (ls\<lparr> ls_table := swap_table_default \<rparr>)
      | Some s \<Rightarrow>
          (case swap_table_new (ls_committee ls) (c_round (sd_leader s)) (sd_reputation_score s) threshold of
             None \<Rightarrow> None
           | Some t \<Rightarrow> Some (ls\<lparr> ls_table := t \<rparr>)))"

definition update_leader_swap_table :: "swap_table \<Rightarrow> schedule \<Rightarrow> schedule" where
  "update_leader_swap_table t ls = ls\<lparr> ls_table := t \<rparr>"

definition schedule_leader :: "rng \<Rightarrow> schedule \<Rightarrow> round \<Rightarrow> authority option" where
  "schedule_leader g ls r =
     (if r mod 2 \<noteq> 0 then None
      else case committee_leader (rng_weighted g) (ls_committee ls) r of
        None \<Rightarrow> None
      | Some l \<Rightarrow>
          (case swap g (ls_table ls) (auth_id l) r of
             None \<Rightarrow> None
           | Some None \<Rightarrow> Some l
           | Some (Some x) \<Rightarrow> Some x))"

definition leader_certificate :: "rng \<Rightarrow> schedule \<Rightarrow> round \<Rightarrow> dag \<Rightarrow> (authority \<times> certificate option) option" where
  "leader_certificate g ls r d =
     (case schedule_leader g ls r of
        None \<Rightarrow> None
      | Some l \<Rightarrow>
          (case map_of d r of
             None \<Rightarrow> Some (l, None)
           | Some tbl \<Rightarrow>
               (case map_of tbl (auth_id l) of
                  None \<Rightarrow> Some (l, None)
                | Some (_, x) \<Rightarrow> Some (l, Some x))))"

definition num_of_bad_nodes :: "schedule \<Rightarrow> nat" where
  "num_of_bad_nodes ls = length (bad_nodes (ls_table ls))"

text \<open>
  What the rand crate documents: a weighted choice is an element of the list with a positive
  weight and exists when there is one; a plain choice is an element and exists for a non-empty
  list.
\<close>

definition rng_spec :: "rng \<Rightarrow> bool" where
  "rng_spec g =
     ((\<forall>seed xs a. rng_weighted g seed xs = Some a \<longrightarrow> (\<exists>w. (a, w) \<in> set xs \<and> 0 < w)) \<and>
      (\<forall>seed xs. (\<exists>(a, w)\<in>set xs. 0 < w) \<longrightarrow> rng_weighted g seed xs \<noteq> None) \<and>
      (\<forall>seed xs a. rng_choose g seed xs = Some a \<longrightarrow> a \<in> set xs) \<and>
      (\<forall>seed xs. xs \<noteq> [] \<longrightarrow> rng_choose g seed xs \<noteq> None))"

definition first_rng :: rng where
  "first_rng =
     \<lparr> rng_weighted = (\<lambda>_ xs. case filter (\<lambda>e. 0 < snd e) xs of [] \<Rightarrow> None | e # _ \<Rightarrow> Some (fst e)),
       rng_choose = (\<lambda>_ xs. case xs of [] \<Rightarrow> None | x # _ \<Rightarrow> Some x) \<rparr>"

lemma first_rng_spec: "rng_spec first_rng"
proof -
  have "\<exists>w. (a, w) \<in> set xs \<and> 0 < w" if r: "rng_weighted first_rng s xs = Some a" for s xs a
  proof -
    obtain e es where "filter (\<lambda>e. 0 < snd e) xs = e # es" "fst e = a"
      using r by (cases "filter (\<lambda>e. 0 < snd e) xs") (auto simp: first_rng_def)
    hence "e \<in> {x \<in> set xs. 0 < snd x}" "fst e = a" unfolding set_filter[symmetric] by simp_all
    thus ?thesis by (cases e) auto
  qed
  thus ?thesis
    by (auto simp: rng_spec_def first_rng_def filter_empty_conv split: list.splits)
qed

section \<open>The stake of the swapped nodes\<close>

lemma take_nodes_prefix:
  assumes "vp + sum_list (map (\<lambda>e. voting_power_by_id c (fst e)) as) < u64_max" "vp \<le> limit"
  obtains m where "take_nodes c limit vp as = List.map_filter (\<lambda>e. committee_authority c (fst e)) (take m as)"
    "vp + sum_list (map (\<lambda>e. voting_power_by_id c (fst e)) (take m as)) \<le> limit"
  using assms
proof (induction c limit vp as arbitrary: thesis rule: take_nodes.induct)
  case (2 c limit vp a score as)
  let ?vp = "vp + voting_power_by_id c a"
  have u: "u64_add vp (voting_power_by_id c a) = ?vp" using 2(4) by (intro u64_add_exact) simp
  show ?case
  proof (cases "?vp > limit")
    case True
    thus ?thesis using 2(3)[of 0] 2(5) u by (simp add: map_filter_simps)
  next
    case False
    obtain m where "take_nodes c limit ?vp as = List.map_filter (\<lambda>e. committee_authority c (fst e)) (take m as)"
      "?vp + sum_list (map (\<lambda>e. voting_power_by_id c (fst e)) (take m as)) \<le> limit"
      using False u 2(1,2)[of "?vp"] 2(4)
      by (cases "committee_authority c a") (simp_all add: add.assoc, metis+)
    thus ?thesis using 2(3)[of "Suc m"] u False
      by (simp add: map_filter_simps split: option.splits)
  qed
qed (simp add: map_filter_simps)

lemma retrieve_first_nodes_prefix:
  assumes "committee_wf c" "33 * total_power c < u64_max" "threshold \<le> 33"
    and "sum_list (map (\<lambda>e. voting_power_by_id c (fst e)) as) = total_power c"
  obtains m where "retrieve_first_nodes c as threshold = List.map_filter (\<lambda>e. committee_authority c (fst e)) (take m as)"
    "100 * sum_list (map (\<lambda>e. voting_power_by_id c (fst e)) (take m as)) \<le> 33 * total_power c"
proof -
  let ?t = "total_power c"
  have "threshold * ?t \<le> 33 * ?t" using assms(3) by (rule mult_le_mono1)
  moreover have "total_voting_power c = ?t"
    using assms(2) u64_sum_exact total_power_sum_list[OF assms(1)] by (simp add: total_voting_power_def)
  moreover from calculation(1) have "threshold * ?t < u64_max" using assms(2) by linarith
  ultimately have limit: "u64_mul threshold (total_voting_power c) div 100 = threshold * ?t div 100"
    by (simp only: u64_mul_exact)
  obtain m where m: "take_nodes c (threshold * ?t div 100) 0 as = List.map_filter (\<lambda>e. committee_authority c (fst e)) (take m as)"
    "0 + sum_list (map (\<lambda>e. voting_power_by_id c (fst e)) (take m as)) \<le> threshold * ?t div 100"
    using assms(2,4) by (elim take_nodes_prefix[rotated 2]) simp_all
  have "100 * (threshold * ?t div 100) \<le> 33 * ?t"
    using \<open>threshold * ?t \<le> 33 * ?t\<close> by (rule order_trans[OF times_div_less_eq_dividend])
  hence "100 * sum_list (map (\<lambda>e. voting_power_by_id c (fst e)) (take m as)) \<le> 33 * ?t"
    using m(2) by simp
  thus ?thesis using that m(1) limit by (simp add: retrieve_first_nodes_def)
qed

lemma scores_total:
  assumes "distinct (map fst xs)" "fst ` set xs = members c"
  shows "sum_list (map (\<lambda>e. voting_power_by_id c (fst e)) xs) = total_power c"
proof -
  have "sum_list (map (\<lambda>e. voting_power_by_id c (fst e)) xs) = sum_list (map (voting_power_by_id c) (map fst xs))"
    by (simp add: comp_def)
  also have "\<dots> = sum (voting_power_by_id c) (set (map fst xs))"
    using assms(1) by (rule sum_list_distinct_conv_sum_set)
  finally show ?thesis using assms(2) by (simp add: total_power_def)
qed

lemma prefix_suffix_disjoint:
  assumes "distinct (map fst L)" "e \<in> set (take m L)" "e \<in> set (take m' (rev L))"
  shows "sum_list (map w L) \<le> sum_list (map w (take m L)) + (sum_list (map w (take m' (rev L))) :: nat)"
proof -
  let ?k = "length L - m'"
  have d: "distinct L" using assms(1) by (simp add: distinct_map)
  have r: "take m' (rev L) = rev (drop ?k L)" by (rule take_rev)
  have "\<not> m \<le> ?k" using set_take_disj_set_drop_if_distinct[OF d, of m ?k] assms(2,3) r by auto
  hence "drop ?k L = take (m - ?k) (drop ?k L) @ drop m L" by (metis append_take_drop_id drop_drop le_add_diff_inverse2 nat_le_linear)
  hence "sum_list (map w (drop m L)) \<le> sum_list (map w (drop ?k L))" by (metis le_add2 map_append sum_list_append)
  moreover have "sum_list (map w L) = sum_list (map w (take m L)) + sum_list (map w (drop m L))"
    by (metis append_take_drop_id map_append sum_list_append)
  ultimately show ?thesis unfolding r by (simp add: rev_map[symmetric])
qed

definition scores_cover :: "committee \<Rightarrow> reputation_scores \<Rightarrow> bool" where
  "scores_cover c rs = (distinct (map fst (scores_per_authority rs)) \<and> fst ` set (scores_per_authority rs) = members c)"

lemma by_score_cover:
  assumes "scores_cover c rs"
  shows "distinct (map fst (authorities_by_score_desc rs))" "fst ` set (authorities_by_score_desc rs) = members c"
proof -
  have m: "mset (map fst (authorities_by_score_desc rs)) = mset (map fst (scores_per_authority rs))"
    by (simp add: by_score_mset)
  show "distinct (map fst (authorities_by_score_desc rs))"
    using assms mset_eq_imp_distinct_iff[OF m] by (simp add: scores_cover_def)
  have "set (authorities_by_score_desc rs) = set (scores_per_authority rs)"
    using by_score_mset by (rule mset_eq_setD)
  thus "fst ` set (authorities_by_score_desc rs) = members c" using assms by (simp add: scores_cover_def)
qed

lemma set_map_filter_take:
  "a \<in> set (List.map_filter f xs) \<Longrightarrow> \<exists>e\<in>set xs. f e = Some a"
  by (induction xs) (auto simp: map_filter_simps split: option.splits)

lemma swap_table_nodes:
  assumes "committee_wf c" "33 * total_power c < u64_max" "scores_cover c rs" "swap_table_new c r rs threshold = Some t"
  shows "\<exists>m m'.
    (\<forall>a\<in>set (good_nodes t). \<exists>e\<in>set (take m (authorities_by_score_desc rs)). committee_authority c (fst e) = Some a) \<and>
    (\<forall>i. map_of (bad_nodes t) i \<noteq> None \<longrightarrow> i \<in> fst ` set (take m' (rev (authorities_by_score_desc rs)))) \<and>
    100 * sum_list (map (\<lambda>e. voting_power_by_id c (fst e)) (take m (authorities_by_score_desc rs))) \<le> 33 * total_power c \<and>
    100 * sum_list (map (\<lambda>e. voting_power_by_id c (fst e)) (take m' (rev (authorities_by_score_desc rs)))) \<le> 33 * total_power c"
proof -
  let ?L = "authorities_by_score_desc rs" and ?w = "\<lambda>e. voting_power_by_id c (fst e)"
  have thr: "threshold \<le> 33" and t: "good_nodes t = retrieve_first_nodes c ?L threshold"
    "bad_nodes t = fold (\<lambda>a. AList.update (auth_id a) a) (retrieve_first_nodes c (rev ?L) threshold) []"
    using assms(4) by (auto simp: swap_table_new_def split: if_splits)
  have sum: "sum_list (map ?w ?L) = total_power c" "sum_list (map ?w (rev ?L)) = total_power c"
    using scores_total[OF by_score_cover[OF assms(3)]] by (simp_all add: rev_map[symmetric])
  obtain m where m: "retrieve_first_nodes c ?L threshold = List.map_filter (\<lambda>e. committee_authority c (fst e)) (take m ?L)"
    "100 * sum_list (map ?w (take m ?L)) \<le> 33 * total_power c"
    using assms(1,2) thr sum(1) by (rule retrieve_first_nodes_prefix)
  obtain m' where m': "retrieve_first_nodes c (rev ?L) threshold = List.map_filter (\<lambda>e. committee_authority c (fst e)) (take m' (rev ?L))"
    "100 * sum_list (map ?w (take m' (rev ?L))) \<le> 33 * total_power c"
    using assms(1,2) thr sum(2) by (rule retrieve_first_nodes_prefix)
  have bad: "i \<in> fst ` set (take m' (rev ?L))" if "map_of (bad_nodes t) i \<noteq> None" for i
  proof -
    have "i \<in> dom (map_of (bad_nodes t))" using that by auto
    then obtain a where "a \<in> set (retrieve_first_nodes c (rev ?L) threshold)" "i = auth_id a"
      unfolding t(2) dom_fold_update by auto
    moreover from this obtain e where "e \<in> set (take m' (rev ?L))" "committee_authority c (fst e) = Some a"
      using set_map_filter_take m'(1) by metis
    ultimately show ?thesis using committee_authority_iff[OF assms(1)] by blast
  qed
  have good: "\<exists>e\<in>set (take m ?L). committee_authority c (fst e) = Some a" if "a \<in> set (good_nodes t)" for a
    using that set_map_filter_take t(1) m(1) by metis
  show ?thesis using good bad m(2) m'(2) by blast
qed

lemma good_not_bad:
  assumes "committee_wf c" "33 * total_power c < u64_max" "0 < total_power c" "scores_cover c rs"
    and "swap_table_new c r rs threshold = Some t" "a \<in> set (good_nodes t)"
  shows "map_of (bad_nodes t) (auth_id a) = None" "a \<in> set (bt_values (authorities c))"
proof -
  let ?L = "authorities_by_score_desc rs" and ?w = "\<lambda>e. voting_power_by_id c (fst e)"
  obtain m m' where
    good: "\<forall>a\<in>set (good_nodes t). \<exists>e\<in>set (take m ?L). committee_authority c (fst e) = Some a"
    and bad: "\<forall>i. map_of (bad_nodes t) i \<noteq> None \<longrightarrow> i \<in> fst ` set (take m' (rev ?L))"
    and le: "100 * sum_list (map ?w (take m ?L)) \<le> 33 * total_power c"
      "100 * sum_list (map ?w (take m' (rev ?L))) \<le> 33 * total_power c"
    using swap_table_nodes[OF assms(1,2,4,5)] by blast
  obtain e where e: "e \<in> set (take m ?L)" "committee_authority c (fst e) = Some a" using good assms(6) by blast
  have a: "a \<in> set (bt_values (authorities c))" "auth_id a = fst e"
    using committee_authority_iff[OF assms(1)] e(2) by blast+
  show "a \<in> set (bt_values (authorities c))" by (rule a(1))
  show "map_of (bad_nodes t) (auth_id a) = None"
  proof (rule ccontr)
    assume "map_of (bad_nodes t) (auth_id a) \<noteq> None"
    then obtain e' where e': "e' \<in> set (take m' (rev ?L))" "fst e' = fst e" using bad a(2) by fastforce
    have "e' \<in> set ?L" "e \<in> set ?L" using e'(1) e(1) by (auto dest: in_set_takeD)
    hence "e' = e" using by_score_cover(1)[OF assms(4)] e'(2) by (metis distinct_map inj_on_eq_iff)
    hence "sum_list (map ?w ?L) \<le> sum_list (map ?w (take m ?L)) + sum_list (map ?w (take m' (rev ?L)))"
      using prefix_suffix_disjoint[OF by_score_cover(1)[OF assms(4)] e(1)] e'(1) by blast
    thus False using scores_total[OF by_score_cover[OF assms(4)]] le assms(3) by linarith
  qed
qed

lemma bad_nodes_stake:
  assumes "committee_wf c" "33 * total_power c < u64_max" "0 < total_power c" "scores_cover c rs"
    and "swap_table_new c r rs threshold = Some t"
  shows "sum (voting_power_by_id c) {i. map_of (bad_nodes t) i \<noteq> None} < validity_threshold c"
proof -
  let ?L = "authorities_by_score_desc rs" and ?w = "\<lambda>e. voting_power_by_id c (fst e)"
  obtain m' where
    bad: "\<forall>i. map_of (bad_nodes t) i \<noteq> None \<longrightarrow> i \<in> fst ` set (take m' (rev ?L))"
    and le: "100 * sum_list (map ?w (take m' (rev ?L))) \<le> 33 * total_power c"
    using swap_table_nodes[OF assms(1,2,4,5)] by blast
  have "distinct (map fst (take m' (rev ?L)))"
    using by_score_cover(1)[OF assms(4)] by (simp add: take_map[symmetric] rev_map[symmetric] distinct_take)
  hence "sum_list (map ?w (take m' (rev ?L))) = sum (voting_power_by_id c) (fst ` set (take m' (rev ?L)))"
    using sum_list_distinct_conv_sum_set[of "map fst (take m' (rev ?L))" "voting_power_by_id c"] by (simp add: comp_def)
  moreover have "sum (voting_power_by_id c) {i. map_of (bad_nodes t) i \<noteq> None}
      \<le> sum (voting_power_by_id c) (fst ` set (take m' (rev ?L)))"
    using bad by (intro sum_mono2) auto
  moreover have "power_fits c" using assms(2) total_power_sum_list[OF assms(1)] by (simp add: power_fits_def)
  hence "3 * validity_threshold c \<ge> total_power c"
    using validity_threshold_eq[OF assms(1)] assms(3) by auto
  ultimately show ?thesis using le assms(3) by linarith
qed

end
