(* ===== verification/Bullshark.thy ===== *)
theory Bullshark
  imports Leader_Schedule
begin

text \<open>
  The Bullshark commit rule (crates/consensus/primary/src/consensus/bullshark.rs) and the flattening
  of a sub dag (utils.rs). Every operation returns \<^const>\<open>None\<close> where the code panics; errors of the
  state are values. The depth first search of \<open>order_dag\<close> is a recursive function with a proved
  measure; the loop that retries a leader after a schedule change carries fuel, and the theory
  Bullshark_Safety shows that the fuel given is enough.
\<close>

record bullshark =
  bs_committee :: committee
  bs_max_inserted :: round
  bs_subdags_per_schedule :: nat
  bs_schedule :: schedule
  bs_threshold :: nat

section \<open>Flattening a sub dag\<close>

definition dag_lookup :: "dag \<Rightarrow> round \<Rightarrow> digest \<Rightarrow> certificate option" where
  "dag_lookup d r p =
     (case map_of d r of
        None \<Rightarrow> None
      | Some tbl \<Rightarrow> map_option snd (List.find (\<lambda>e. fst e = p) (map snd tbl)))"

definition already_committed :: "cstate \<Rightarrow> certificate \<Rightarrow> bool" where
  "already_committed st x =
     (case map_of (last_committed st) (c_origin x) of None \<Rightarrow> False | Some r \<Rightarrow> c_round x \<le> r)"

text \<open>The stack is a list whose head is the top; the set holds the digests already pushed.\<close>

definition visit_parent ::
  "cstate \<Rightarrow> certificate \<Rightarrow> digest \<Rightarrow> certificate list \<times> digest set \<Rightarrow> certificate list \<times> digest set" where
  "visit_parent st x p s =
     (case dag_lookup (dag_of st) (u32_sub (c_round x) 1) p of
        Some y \<Rightarrow>
          if p \<in> snd s \<or> already_committed st y then s
          else (y # fst s, insert p (snd s))
      | None \<Rightarrow> s)"

definition dag_digests :: "dag \<Rightarrow> digest set" where
  "dag_digests d = set (concat (map (\<lambda>e. map (\<lambda>f. fst (snd f)) (snd e)) d))"

definition visit_parents ::
  "cstate \<Rightarrow> certificate \<Rightarrow> certificate list \<times> digest set \<Rightarrow> certificate list \<times> digest set" where
  "visit_parents st x s = fold (visit_parent st x) (c_parents x) s"

lemma dag_lookup_digest:
  assumes "dag_lookup d r p = Some y"
  shows "p \<in> dag_digests d"
proof -
  obtain tbl e where tbl: "map_of d r = Some tbl" "List.find (\<lambda>e. fst e = p) (map snd tbl) = Some e"
    using assms by (auto simp: dag_lookup_def split: option.splits)
  hence "(r, tbl) \<in> set d" "e \<in> snd ` set tbl" "fst e = p"
    using find_Some_iff_mem[OF tbl(2)] by (auto dest: map_of_SomeD)
  thus ?thesis unfolding dag_digests_def by force
qed

lemma finite_dag_digests [simp]: "finite (dag_digests d)"
  by (simp add: dag_digests_def)

definition search_size :: "dag \<Rightarrow> certificate list \<times> digest set \<Rightarrow> nat" where
  "search_size d s = 2 * card (dag_digests d - snd s) + length (fst s)"

lemma visit_parent_size: "search_size (dag_of st) (visit_parent st x p s) \<le> search_size (dag_of st) s"
proof (cases "dag_lookup (dag_of st) (u32_sub (c_round x) 1) p")
  case (Some y)
  let ?D = "dag_digests (dag_of st)"
  have "p \<notin> snd s \<Longrightarrow> card (?D - insert p (snd s)) < card (?D - snd s)"
    using dag_lookup_digest[OF Some] by (intro psubset_card_mono) auto
  thus ?thesis using Some by (auto simp: visit_parent_def search_size_def)
qed (simp add: visit_parent_def)

lemma visit_parents_size: "search_size (dag_of st) (visit_parents st x s) \<le> search_size (dag_of st) s"
proof -
  have "search_size (dag_of st) (fold (visit_parent st x) ps s) \<le> search_size (dag_of st) s" for ps
  proof (induction ps arbitrary: s)
    case (Cons p ps)
    show ?case using Cons.IH[of "visit_parent st x p s"] visit_parent_size[of st x p s] by simp
  qed simp
  thus ?thesis by (simp add: visit_parents_def)
qed

function order_loop :: "cstate \<Rightarrow> round \<Rightarrow> certificate list \<Rightarrow> digest set \<Rightarrow> certificate list" where
  "order_loop st gc [] seen = []"
| "order_loop st gc (x # buf) seen =
     x # (if c_round x = gc + 1 then order_loop st gc buf seen
          else order_loop st gc (fst (visit_parents st x (buf, seen))) (snd (visit_parents st x (buf, seen))))"
  by pat_completeness auto
termination
proof (relation "measure (\<lambda>(st, gc, buf, seen). search_size (dag_of st) (buf, seen))", goal_cases)
  case (3 st gc x buf seen)
  have "search_size (dag_of st) (visit_parents st x (buf, seen)) < search_size (dag_of st) (x # buf, seen)"
    using visit_parents_size[of st x "(buf, seen)"] by (simp add: search_size_def)
  thus ?case by simp
qed (simp_all add: search_size_def)

definition order_dag :: "certificate \<Rightarrow> cstate \<Rightarrow> certificate list option" where
  "order_dag leader st =
     (if \<not> c_round leader > 0 then None
      else Some (sort_key c_round (order_loop st (c_round leader - gc_depth st) [leader] {})))"

section \<open>The commit rule\<close>

definition resolve_reputation_score ::
  "bullshark \<Rightarrow> cstate \<Rightarrow> certificate list \<Rightarrow> nat \<Rightarrow> reputation_scores option" where
  "resolve_reputation_score b st committed index =
     (let n = bs_subdags_per_schedule b in
      if n = 0 then None
      else
        let base = (if (index div 2) mod n = 0 then scores_new (bs_committee b)
                    else case last_committed_sub_dag st of
                        Some l \<Rightarrow> sd_reputation_score l
                      | None \<Rightarrow> scores_new (bs_committee b));
            scored = (case last_committed_sub_dag st of
                        None \<Rightarrow> base
                      | Some l \<Rightarrow>
                          fold (\<lambda>x rs. if cert_digest (sd_leader l) \<in> set (c_parents x)
                                      then add_score (c_origin x) 1 rs else rs) committed base);
            final = scored\<lparr> final_of_schedule := ((index div 2) + 1) mod n = 0 \<rparr>
        in if total_authorities final = committee_size (bs_committee b) then Some final else None)"

definition update_leader_schedule :: "bullshark \<Rightarrow> round \<Rightarrow> reputation_scores \<Rightarrow> (bullshark \<times> bool) option" where
  "update_leader_schedule b leader_round rs =
     (if final_of_schedule rs then
        (case swap_table_new (bs_committee b) leader_round rs (bs_threshold b) of
           None \<Rightarrow> None
         | Some t \<Rightarrow> Some (b\<lparr> bs_schedule := update_leader_swap_table t (bs_schedule b) \<rparr>, True))
      else Some (b, False))"

definition linked_step :: "dag \<Rightarrow> round \<Rightarrow> certificate list \<Rightarrow> certificate list" where
  "linked_step d r parents =
     (case map_of d r of
        Some tbl \<Rightarrow> map (\<lambda>e. snd (snd e))
          (filter (\<lambda>e. list_ex (\<lambda>x. fst (snd e) \<in> set (c_parents x)) parents) tbl)
      | None \<Rightarrow> [])"

definition linked :: "certificate \<Rightarrow> certificate \<Rightarrow> dag \<Rightarrow> bool" where
  "linked leader prev d =
     list_ex (\<lambda>x. cert_eq x prev) (fold (linked_step d) (rev [c_round prev ..< c_round leader]) [leader])"

text \<open>The rounds from \<open>hi\<close> down to \<open>lo\<close>, both included, in steps of two.\<close>

definition rounds_down :: "round \<Rightarrow> round \<Rightarrow> round list" where
  "rounds_down lo hi = (if lo \<le> hi then map (\<lambda>k. hi - 2 * k) [0 ..< (hi - lo) div 2 + 1] else [])"

fun order_leaders_loop ::
  "rng \<Rightarrow> bullshark \<Rightarrow> dag \<Rightarrow> round list \<Rightarrow> certificate \<Rightarrow> certificate list \<Rightarrow> certificate list option" where
  "order_leaders_loop g b d [] leader to_commit = Some to_commit"
| "order_leaders_loop g b d (r # rs) leader to_commit =
     (case leader_certificate g (bs_schedule b) r d of
        None \<Rightarrow> None
      | Some (_, None) \<Rightarrow> order_leaders_loop g b d rs leader to_commit
      | Some (_, Some prev) \<Rightarrow>
          if linked leader prev d then order_leaders_loop g b d rs prev (prev # to_commit)
          else order_leaders_loop g b d rs leader to_commit)"

definition order_leaders :: "rng \<Rightarrow> bullshark \<Rightarrow> cstate \<Rightarrow> certificate \<Rightarrow> certificate list option" where
  "order_leaders g b st leader =
     (if c_round leader mod 2 \<noteq> 0 then None
      else case order_leaders_loop g b (dag_of st)
                  (rounds_down (committed_round (last_round st) + 2) (u32_sub (c_round leader) 2)) leader [leader] of
        None \<Rightarrow> None
      | Some ls \<Rightarrow>
          if list_all (\<lambda>x. committee_authority (bs_committee b) (c_origin x) \<noteq> None) ls then Some ls else None)"

fun commit_leaders ::
  "bullshark \<Rightarrow> cstate \<Rightarrow> certificate list \<Rightarrow> sub_dag list \<Rightarrow> (bullshark \<times> cstate \<times> outcome \<times> sub_dag list) option" where
  "commit_leaders b st [] acc = Some (b, st, Commit, acc)"
| "commit_leaders b st (leader # ls) acc =
     (case order_dag leader st of
        None \<Rightarrow> None
      | Some seq \<Rightarrow>
          (let st1 = fold state_update seq st in
           case resolve_reputation_score b st1 seq (unat (header_nonce (c_header leader))) of
             None \<Rightarrow> None
           | Some rs \<Rightarrow>
               (let sd = sub_dag_new seq leader rs (last_committed_sub_dag st1);
                    st2 = st1\<lparr> last_committed_sub_dag := Some sd \<rparr>
                in case update_leader_schedule b (c_round leader) rs of
                     None \<Rightarrow> None
                   | Some (b', changed) \<Rightarrow>
                       if changed \<and> ls \<noteq> [] then Some (b', st2, ScheduleChanged, acc @ [sd])
                       else commit_leaders b' st2 ls (acc @ [sd]))))"

definition leader_support :: "committee \<Rightarrow> certificate \<Rightarrow> round_table \<Rightarrow> voting_power" where
  "leader_support c leader tbl =
     u64_sum (map (\<lambda>e. voting_power_by_id c (c_origin (snd (snd e))))
       (filter (\<lambda>e. cert_digest leader \<in> set (c_parents (snd (snd e)))) tbl))"

definition commit_leader ::
  "rng \<Rightarrow> bullshark \<Rightarrow> cstate \<Rightarrow> round \<Rightarrow> (bullshark \<times> cstate \<times> outcome \<times> sub_dag list) option" where
  "commit_leader g b st leader_round =
     (case leader_certificate g (bs_schedule b) leader_round (dag_of st) of
        None \<Rightarrow> None
      | Some (_, None) \<Rightarrow> Some (b, st, LeaderNotFound, [])
      | Some (_, Some leader) \<Rightarrow>
          (case map_of (dag_of st) (leader_round + 1) of
             None \<Rightarrow> None
           | Some tbl \<Rightarrow>
               if leader_support (bs_committee b) leader tbl < validity_threshold (bs_committee b)
               then Some (b, st, NotEnoughSupportForLeader, [])
               else case order_leaders g b st leader of
                   None \<Rightarrow> None
                 | Some ls \<Rightarrow> commit_leaders b st ls []))"

definition report_leader_on_time :: "rng \<Rightarrow> bullshark \<Rightarrow> round \<Rightarrow> bullshark option" where
  "report_leader_on_time g b r =
     (let b' = b\<lparr> bs_max_inserted := max (bs_max_inserted b) r \<rparr> in
      if r > bs_max_inserted b \<and> r mod 2 = 0 \<and> r > 2 then
        (case schedule_leader g (bs_schedule b) (r - 2) of None \<Rightarrow> None | Some _ \<Rightarrow> Some b')
      else Some b')"

fun commit_loop ::
  "nat \<Rightarrow> rng \<Rightarrow> bullshark \<Rightarrow> cstate \<Rightarrow> round \<Rightarrow> sub_dag list
    \<Rightarrow> (bullshark \<times> cstate \<times> outcome \<times> sub_dag list) option" where
  "commit_loop 0 g b st leader_round acc = None"
| "commit_loop (Suc fuel) g b st leader_round acc =
     (case commit_leader g b st leader_round of
        None \<Rightarrow> None
      | Some (b', st', outcome, committed) \<Rightarrow>
          if outcome \<noteq> ScheduleChanged then Some (b', st', outcome, acc @ committed)
          else commit_loop fuel g b' st' leader_round (acc @ committed))"

definition process_certificate ::
  "rng \<Rightarrow> bullshark \<Rightarrow> cstate \<Rightarrow> certificate
    \<Rightarrow> (bullshark \<times> cstate \<times> (consensus_error, outcome \<times> sub_dag list) result) option" where
  "process_certificate g b st x =
     (case try_insert st x of
        (st1, Inl e) \<Rightarrow> Some (b, st1, Inl e)
      | (st1, Inr inserted) \<Rightarrow>
          if \<not> inserted then Some (b, st1, Inr (CertificateBelowCommitRound, []))
          else case report_leader_on_time g b (c_round x) of
            None \<Rightarrow> None
          | Some b1 \<Rightarrow>
              (let r = u32_sub (c_round x) 1 in
               if r mod 2 \<noteq> 0 \<or> r < 2 then Some (b1, st1, Inr (NoLeaderElectedForOddRound, []))
               else if r \<le> committed_round (last_round st1) then Some (b1, st1, Inr (LeaderBelowCommitRound, []))
               else case commit_loop (Suc r) g b1 st1 r [] of
                   None \<Rightarrow> None
                 | Some (b2, st2, outcome, committed) \<Rightarrow>
                     if committed = [] then Some (b2, st2, Inr (outcome, committed))
                     else Some (b2, st2, Inr (Commit, committed))))"

end
