(* ===== verification/Bullshark_Order.thy ===== *)
theory Bullshark_Order
  imports Bullshark
begin

text \<open>
  Correctness of the flattening of a sub dag: the depth first search of \<open>order_dag\<close> returns exactly
  the uncommitted causal history of the leader above the garbage collection round, each certificate
  once, in ascending rounds. The reference is the inductive predicate \<open>history\<close>.
\<close>

text \<open>Two certificates with the same digest have the same header: collision freedom of the hash.\<close>

definition collision_free :: "certificate set \<Rightarrow> bool" where
  "collision_free S = (\<forall>x\<in>S. \<forall>y\<in>S. cert_digest x = cert_digest y \<longrightarrow> c_header x = c_header y)"

inductive history :: "cstate \<Rightarrow> round \<Rightarrow> certificate \<Rightarrow> certificate \<Rightarrow> bool"
  for st gc leader where
  root: "history st gc leader leader"
| parent: "history st gc leader x \<Longrightarrow> c_round x \<noteq> gc + 1 \<Longrightarrow> cert_digest y \<in> set (c_parents x) \<Longrightarrow>
    in_dag (dag_of st) y \<Longrightarrow> c_round y + 1 = c_round x \<Longrightarrow>
    committed_of (last_committed st) (c_origin y) < c_round y \<Longrightarrow> history st gc leader y"

inductive_cases history_cases: "history st gc leader x"

lemma collision_free_subset: "collision_free S \<Longrightarrow> T \<subseteq> S \<Longrightarrow> collision_free T"
  by (auto simp: collision_free_def)

section \<open>Look-ups\<close>

lemma dag_lookup_in_dag:
  assumes "dag_wf d" "dag_lookup d r p = Some y"
  shows "in_dag d y \<and> c_round y = r \<and> cert_digest y = p"
proof -
  obtain tbl e where tbl: "map_of d r = Some tbl" "List.find (\<lambda>e. fst e = p) (map snd tbl) = Some e" "snd e = y"
    using assms(2) by (auto simp: dag_lookup_def split: option.splits)
  hence "e \<in> snd ` set tbl" "fst e = p" using find_Some_iff_mem[OF tbl(2)] by auto
  then obtain a where "(a, p, y) \<in> set tbl" using tbl(3) by force
  thus ?thesis using in_dag_iff_mem[OF assms(1) tbl(1)] by blast
qed

lemma dag_lookup_complete:
  assumes "dag_wf d" "collision_free {x. in_dag d x}" "in_dag d y"
  shows "dag_lookup d (c_round y) (cert_digest y) = Some y"
proof -
  obtain tbl where tbl: "map_of d (c_round y) = Some tbl" "(c_origin y, cert_digest y, y) \<in> set tbl"
    using assms(3) by (auto simp: in_dag_def dest: map_of_SomeD)
  hence "List.find (\<lambda>e. fst e = cert_digest y) (map snd tbl) \<noteq> None"
    unfolding find_None_iff by (auto intro!: bexI[of _ "(c_origin y, cert_digest y, y)"])
  then obtain x where x: "dag_lookup d (c_round y) (cert_digest y) = Some x"
    using tbl(1) by (auto simp: dag_lookup_def)
  hence "in_dag d x" "c_round x = c_round y" "cert_digest x = cert_digest y"
    using dag_lookup_in_dag[OF assms(1)] by blast+
  moreover from this have "c_header x = c_header y"
    using assms(2,3) unfolding collision_free_def by blast
  ultimately show ?thesis using x in_dag_unique[of d x y] assms(3) by simp
qed

lemma already_committed_iff:
  "0 < c_round x \<Longrightarrow> already_committed st x \<longleftrightarrow> c_round x \<le> committed_of (last_committed st) (c_origin x)"
  by (auto simp: already_committed_def committed_of_def split: option.splits)

section \<open>One node of the search\<close>

text \<open>The certificates pushed for a node: the uncommitted parents that were not seen before.\<close>

definition edge :: "cstate \<Rightarrow> certificate \<Rightarrow> certificate \<Rightarrow> bool" where
  "edge st x y = (cert_digest y \<in> set (c_parents x) \<and> in_dag (dag_of st) y \<and> c_round y + 1 = c_round x \<and>
     committed_of (last_committed st) (c_origin y) < c_round y)"

definition search_ok :: "cstate \<Rightarrow> bool" where
  "search_ok st = (dag_wf (dag_of st) \<and> collision_free {x. in_dag (dag_of st) x} \<and>
     (\<forall>x. in_dag (dag_of st) x \<longrightarrow> 0 < c_round x))"

definition pushes :: "cstate \<Rightarrow> certificate \<Rightarrow> digest list \<Rightarrow> digest set \<Rightarrow> certificate list \<Rightarrow> bool" where
  "pushes st x ps seen new =
     (distinct (map cert_digest new) \<and> cert_digest ` set new \<inter> seen = {} \<and> (\<forall>y\<in>set new. edge st x y) \<and>
      (\<forall>y. edge st x y \<and> cert_digest y \<in> set ps \<longrightarrow> cert_digest y \<in> seen \<union> cert_digest ` set new))"

lemma edge_in_dag: "edge st x y \<Longrightarrow> in_dag (dag_of st) y"
  by (simp add: edge_def)

lemma edge_pos: "search_ok st \<Longrightarrow> edge st x y \<Longrightarrow> 0 < c_round y"
  by (simp add: search_ok_def edge_def)

lemma edge_same_digest:
  assumes "search_ok st" "in_dag (dag_of st) y" "in_dag (dag_of st) z" "cert_digest y = cert_digest z"
  shows "y = z"
proof -
  have "c_header y = c_header z" using assms unfolding search_ok_def collision_free_def by blast
  thus ?thesis using in_dag_unique[OF assms(2,3)] by simp
qed

lemma edge_lookup:
  assumes "search_ok st" "edge st x y"
  shows "dag_lookup (dag_of st) (u32_sub (c_round x) 1) (cert_digest y) = Some y \<and> \<not> already_committed st y"
proof -
  have r: "u32_sub (c_round x) 1 = c_round y" using assms(2) by (auto simp: edge_def u32_sub_def)
  have "dag_lookup (dag_of st) (c_round y) (cert_digest y) = Some y"
    using assms by (intro dag_lookup_complete) (simp_all add: edge_def search_ok_def)
  moreover have "\<not> already_committed st y"
    unfolding already_committed_iff[OF edge_pos[OF assms]] using assms(2) by (simp add: edge_def)
  ultimately show ?thesis unfolding r by simp
qed

lemma lookup_edge:
  assumes "search_ok st" "0 < c_round x" "p \<in> set (c_parents x)"
    and "dag_lookup (dag_of st) (u32_sub (c_round x) 1) p = Some y" "\<not> already_committed st y"
  shows "edge st x y" "cert_digest y = p"
proof -
  have y: "in_dag (dag_of st) y" "c_round y + 1 = c_round x" "cert_digest y = p" "0 < c_round y"
    using dag_lookup_in_dag[OF _ assms(4)] assms(1,2) by (auto simp: u64_simps search_ok_def)
  thus "edge st x y" "cert_digest y = p" using already_committed_iff[OF y(4), of st] assms(3,5) by (auto simp: edge_def)
qed

lemma visit_fold_split:
  assumes "search_ok st" "0 < c_round x" "set ps \<subseteq> set (c_parents x)"
  shows "\<exists>new. fold (visit_parent st x) ps (buf, seen) = (new @ buf, seen \<union> cert_digest ` set new) \<and> pushes st x ps seen new"
  using assms(3)
proof (induction ps arbitrary: buf seen)
  case Nil
  show ?case by (intro exI[of _ "[]"]) (simp add: pushes_def)
next
  case (Cons p ps)
  show ?case
  proof (cases "\<exists>y. dag_lookup (dag_of st) (u32_sub (c_round x) 1) p = Some y \<and> p \<notin> seen \<and> \<not> already_committed st y")
    case True
    then obtain y where y: "dag_lookup (dag_of st) (u32_sub (c_round x) 1) p = Some y" "p \<notin> seen" "\<not> already_committed st y"
      by blast
    have e: "edge st x y" "cert_digest y = p" using lookup_edge[OF assms(1,2) _ y(1,3)] Cons.prems by auto
    obtain new where "fold (visit_parent st x) ps (y # buf, insert p seen) = (new @ y # buf, insert p seen \<union> cert_digest ` set new)"
      and "pushes st x ps (insert p seen) new" using Cons.IH[of "y # buf" "insert p seen"] Cons.prems by auto
    moreover have "visit_parent st x p (buf, seen) = (y # buf, insert p seen)" using y by (simp add: visit_parent_def)
    ultimately have "fold (visit_parent st x) (p # ps) (buf, seen) = ((new @ [y]) @ buf, seen \<union> cert_digest ` set (new @ [y]))"
      and "pushes st x (p # ps) seen (new @ [y])" using e y(2) by (simp_all add: pushes_def) blast
    thus ?thesis by blast
  next
    case False
    hence step: "visit_parent st x p (buf, seen) = (buf, seen)" by (auto simp: visit_parent_def split: option.splits)
    obtain new where "fold (visit_parent st x) ps (buf, seen) = (new @ buf, seen \<union> cert_digest ` set new)"
      and "pushes st x ps seen new" using Cons.IH[of buf seen] Cons.prems by auto
    moreover have "edge st x y \<Longrightarrow> cert_digest y = p \<Longrightarrow> p \<in> seen" for y using edge_lookup[OF assms(1)] False by blast
    ultimately show ?thesis using step by (intro exI[of _ new]) (auto simp: pushes_def)
  qed
qed

section \<open>The whole search\<close>

lemma visit_parents_split:
  assumes "search_ok st" "0 < c_round x"
  shows "\<exists>new. visit_parents st x (buf, seen) = (new @ buf, seen \<union> cert_digest ` set new) \<and> pushes st x (c_parents x) seen new"
  unfolding visit_parents_def using visit_fold_split[OF assms order_refl] .

lemma pushes_new: "pushes st x (c_parents x) seen new \<Longrightarrow> y \<in> set new \<Longrightarrow> edge st x y"
  by (simp add: pushes_def)

lemma pushes_all:
  assumes "pushes st x (c_parents x) seen new" "edge st x y" "search_ok st"
  shows "cert_digest y \<in> seen \<or> y \<in> set new"
proof (cases "cert_digest y \<in> seen")
  case False
  hence "cert_digest y \<in> cert_digest ` set new" using assms(1,2) by (auto simp: pushes_def edge_def)
  then obtain z where "z \<in> set new" "cert_digest y = cert_digest z" by auto
  thus ?thesis using edge_same_digest[OF assms(3)] edge_in_dag assms(2) pushes_new[OF assms(1)] by blast
qed simp

lemma pushes_pos:
  "pushes st x (c_parents x) seen new \<Longrightarrow> search_ok st \<Longrightarrow> \<forall>y\<in>set buf. 0 < c_round y \<Longrightarrow> \<forall>y\<in>set (new @ buf). 0 < c_round y"
  using pushes_new edge_pos by (metis Un_iff set_append)

lemma order_loop_buffer: "search_ok st \<Longrightarrow> \<forall>y\<in>set buf. 0 < c_round y \<Longrightarrow> set buf \<subseteq> set (order_loop st gc buf seen)"
proof (induction st gc buf seen rule: order_loop.induct)
  case (2 st gc x buf seen)
  obtain new where n: "visit_parents st x (buf, seen) = (new @ buf, seen \<union> cert_digest ` set new)"
    "pushes st x (c_parents x) seen new" using visit_parents_split[OF 2(3)] 2(4) by (meson list.set_intros(1))
  have "\<forall>y\<in>set (new @ buf). 0 < c_round y" using pushes_pos[OF n(2) 2(3), of buf] 2(4) by simp
  thus ?case using 2(1,2,3,4) n(1) by auto
qed simp

lemma order_loop_sound:
  assumes "search_ok st" "\<forall>y\<in>set buf. 0 < c_round y \<and> history st gc leader y" "z \<in> set (order_loop st gc buf seen)"
  shows "history st gc leader z"
  using assms
proof (induction st gc buf seen rule: order_loop.induct)
  case (2 st gc x buf seen)
  obtain new where n: "visit_parents st x (buf, seen) = (new @ buf, seen \<union> cert_digest ` set new)"
    "pushes st x (c_parents x) seen new" using visit_parents_split[OF 2(3)] 2(4) by (meson list.set_intros(1))
  have "c_round x \<noteq> gc + 1 \<Longrightarrow> y \<in> set new \<Longrightarrow> 0 < c_round y \<and> history st gc leader y" for y
    using pushes_new[OF n(2), of y] edge_pos[OF 2(3), of x y] 2(4) by (auto simp: edge_def intro: history.parent)
  hence "c_round x \<noteq> gc + 1 \<Longrightarrow> \<forall>y\<in>set (new @ buf). 0 < c_round y \<and> history st gc leader y" using 2(4) by auto
  thus ?case using 2 n(1) by (auto split: if_splits)
qed simp

lemma order_loop_closed:
  assumes "search_ok st" "\<forall>y\<in>set buf. 0 < c_round y"
    and "z \<in> set (order_loop st gc buf seen)" "c_round z \<noteq> gc + 1" "edge st z y"
  shows "cert_digest y \<in> seen \<or> y \<in> set (order_loop st gc buf seen)"
  using assms
proof (induction st gc buf seen rule: order_loop.induct)
  case (2 st gc x buf seen)
  obtain new where n: "visit_parents st x (buf, seen) = (new @ buf, seen \<union> cert_digest ` set new)"
    "pushes st x (c_parents x) seen new" using visit_parents_split[OF 2(3)] 2(4) by (meson list.set_intros(1))
  show ?case
  proof (cases "c_round x = gc + 1")
    case True
    thus ?thesis using 2(1)[OF True] 2(3-7) by auto
  next
    case False
    let ?rest = "order_loop st gc (new @ buf) (seen \<union> cert_digest ` set new)"
    have pos: "\<forall>y\<in>set (new @ buf). 0 < c_round y" using pushes_pos[OF n(2) 2(3), of buf] 2(4) by simp
    have res: "order_loop st gc (x # buf) seen = x # ?rest" using False n(1) by simp
    have buf: "set (new @ buf) \<subseteq> set ?rest" by (rule order_loop_buffer[OF 2(3) pos])
    show ?thesis
    proof (cases "z = x")
      case True
      thus ?thesis using pushes_all[OF n(2) _ 2(3), of y] 2(7) buf res by auto
    next
      case zx: False
      hence "z \<in> set ?rest" using 2(5) res by simp
      hence "cert_digest y \<in> seen \<union> cert_digest ` set new \<or> y \<in> set ?rest"
        using 2(2)[OF False] 2(3,6,7) pos n(1) by auto
      moreover have "z' \<in> set new \<Longrightarrow> cert_digest y = cert_digest z' \<Longrightarrow> y \<in> set new" for z'
        using edge_same_digest[OF 2(3)] edge_in_dag[OF 2(7)] edge_in_dag[OF pushes_new[OF n(2)]] by blast
      ultimately show ?thesis using buf res by auto
    qed
  qed
qed simp

lemma seen_sets_step:
  assumes "e \<in> insert l S" "N \<inter> insert l S = {}" "e \<notin> B" "R \<inter> insert l (S \<union> N) \<subseteq> N \<union> B"
  shows "e \<notin> R" "insert e R \<inter> insert l S \<subseteq> insert e B"
  using assms by blast+

lemma order_loop_distinct:
  assumes "search_ok st" "in_dag (dag_of st) leader" "cert_digest leader \<notin> seen"
    and "distinct (map cert_digest buf)" "cert_digest ` set buf \<subseteq> insert (cert_digest leader) seen"
    and "\<forall>y\<in>set buf. 0 < c_round y \<and> c_round y \<le> c_round leader"
  shows "distinct (map cert_digest (order_loop st gc buf seen)) \<and>
    cert_digest ` set (order_loop st gc buf seen) \<inter> insert (cert_digest leader) seen \<subseteq> cert_digest ` set buf"
  using assms
proof (induction st gc buf seen rule: order_loop.induct)
  case (2 st gc x buf seen)
  show ?case
  proof (cases "c_round x = gc + 1")
    case True
    thus ?thesis using 2(1)[OF True] 2(3-8) by auto
  next
    case False
    obtain new where n: "visit_parents st x (buf, seen) = (new @ buf, seen \<union> cert_digest ` set new)"
      "pushes st x (c_parents x) seen new" using visit_parents_split[OF 2(3)] 2(8) by (meson list.set_intros(1))
    have d: "distinct (map cert_digest new)" "cert_digest ` set new \<inter> seen = {}" using n(2) by (auto simp: pushes_def)
    have below: "y \<in> set new \<Longrightarrow> 0 < c_round y \<and> c_round y < c_round leader" for y
      using pushes_new[OF n(2), of y] edge_pos[OF 2(3), of x y] 2(8) by (auto simp: edge_def)
    have "cert_digest leader \<notin> cert_digest ` set new"
    proof
      assume "cert_digest leader \<in> cert_digest ` set new"
      then obtain y where "y \<in> set new" "cert_digest y = cert_digest leader" by auto
      thus False using below edge_same_digest[OF 2(3) _ 2(4)] edge_in_dag[OF pushes_new[OF n(2)]] by blast
    qed
    hence fresh: "cert_digest leader \<notin> seen \<union> cert_digest ` set new"
      "cert_digest ` set new \<inter> insert (cert_digest leader) seen = {}" using 2(5) d(2) by auto
    let ?rest = "order_loop st gc (new @ buf) (seen \<union> cert_digest ` set new)"
    have res: "order_loop st gc (x # buf) seen = x # ?rest" using False n(1) by simp
    have b: "cert_digest ` set buf \<subseteq> insert (cert_digest leader) seen"
      and x: "cert_digest x \<in> insert (cert_digest leader) seen" using 2(7) by simp_all
    have "cert_digest ` set new \<inter> cert_digest ` set buf = {}"
      using Int_mono[OF order_refl b, of "cert_digest ` set new"] fresh(2) by simp
    hence pre1: "distinct (map cert_digest (new @ buf))" using 2(6) d(1) by simp
    have pre2: "cert_digest ` set (new @ buf) \<subseteq> insert (cert_digest leader) (seen \<union> cert_digest ` set new)"
      using 2(7) by auto
    have pre3: "\<forall>y\<in>set (new @ buf). 0 < c_round y \<and> c_round y \<le> c_round leader"
      using 2(8) below by (auto simp: less_imp_le)
    note ih0 = 2(2)[OF False 2(3,4), unfolded n(1) fst_conv snd_conv, OF fresh(1) pre1 pre2 pre3]
    have ih: "distinct (map cert_digest ?rest)"
      "cert_digest ` set ?rest \<inter> insert (cert_digest leader) (seen \<union> cert_digest ` set new) \<subseteq> cert_digest ` set (new @ buf)"
      using ih0 by blast+
    have "cert_digest x \<notin> cert_digest ` set buf" using 2(6) by simp
    note sets = seen_sets_step[OF x fresh(2) this ih(2)[unfolded set_append image_Un]]
    have "distinct (map cert_digest (x # ?rest))" using ih(1) sets(1) by simp
    moreover have "cert_digest ` set (x # ?rest) \<inter> insert (cert_digest leader) seen \<subseteq> cert_digest ` set (x # buf)"
      using sets(2) by (simp only: list.set image_insert)
    ultimately show ?thesis unfolding res by (rule conjI)
  qed
qed simp

section \<open>The flattened sub dag\<close>

lemma history_in_dag: "history st gc leader x \<Longrightarrow> in_dag (dag_of st) leader \<Longrightarrow> in_dag (dag_of st) x"
  by (induction rule: history.induct) auto

lemma history_round: "history st gc leader x \<Longrightarrow> c_round x \<le> c_round leader"
  by (induction rule: history.induct) auto

lemma history_uncommitted:
  "history st gc leader x \<Longrightarrow> x = leader \<or> committed_of (last_committed st) (c_origin x) < c_round x"
  by (erule history_cases) auto

lemma history_above_gc: "history st gc leader x \<Longrightarrow> gc < c_round leader \<Longrightarrow> gc < c_round x"
  by (induction rule: history.induct) auto

lemma order_dag_Some:
  "order_dag leader st = Some seq \<Longrightarrow> seq = sort_key c_round (order_loop st (c_round leader - gc_depth st) [leader] {})"
  by (simp add: order_dag_def split: if_splits del: order_loop.simps)

lemma order_dag_history:
  assumes "search_ok st" "in_dag (dag_of st) leader" "order_dag leader st = Some seq"
  shows "set seq = {x. history st (c_round leader - gc_depth st) leader x}"
proof -
  let ?gc = "c_round leader - gc_depth st" and ?res = "order_loop st (c_round leader - gc_depth st) [leader] {}"
  have pos: "\<forall>y\<in>set [leader]. 0 < c_round y" using assms(1,2) by (simp add: search_ok_def)
  have s: "set seq = set ?res" unfolding order_dag_Some[OF assms(3)] by (rule set_sort)
  have "history st ?gc leader z \<Longrightarrow> z \<in> set ?res" for z
  proof (induction rule: history.induct)
    case root
    show ?case using order_loop_buffer[OF assms(1) pos] by auto
  next
    case (parent x y)
    have "edge st x y" using parent.hyps by (simp add: edge_def)
    thus ?case using order_loop_closed[OF assms(1) pos parent.IH] parent.hyps(2) by blast
  qed
  moreover have "z \<in> set ?res \<Longrightarrow> history st ?gc leader z" for z
    using order_loop_sound[OF assms(1), of "[leader]" ?gc leader z] pos history.root by auto
  ultimately show ?thesis unfolding s by blast
qed

lemma order_dag_sorted: "order_dag leader st = Some seq \<Longrightarrow> sorted (map c_round seq)"
  using sorted_sort_key by (metis order_dag_Some)

lemma order_dag_distinct:
  assumes "search_ok st" "in_dag (dag_of st) leader" "order_dag leader st = Some seq"
  shows "distinct (map cert_digest seq)"
proof -
  let ?res = "order_loop st (c_round leader - gc_depth st) [leader] {}"
  have "distinct (map cert_digest ?res)"
    using order_loop_distinct[OF assms(1,2), of "{}" "[leader]"] assms(1,2)
    by (simp add: search_ok_def del: order_loop.simps)
  moreover have "mset (map cert_digest seq) = mset (map cert_digest ?res)"
    unfolding order_dag_Some[OF assms(3)] by (simp del: order_loop.simps)
  ultimately show ?thesis using mset_eq_imp_distinct_iff by blast
qed

text \<open>The rounds of one origin in a sequence of certificates.\<close>

definition origin_rounds :: "authority_id \<Rightarrow> certificate list \<Rightarrow> round list" where
  "origin_rounds a xs = map c_round (filter (\<lambda>x. c_origin x = a) xs)"

lemma order_dag_origin_rounds:
  assumes "search_ok st" "in_dag (dag_of st) leader" "order_dag leader st = Some seq"
  shows "sorted_wrt (<) (origin_rounds a seq)"
proof -
  have "sorted (origin_rounds a seq)"
    using order_dag_sorted[OF assms(3)] unfolding origin_rounds_def by (rule sorted_filter)
  moreover have "distinct (origin_rounds a seq)"
  proof -
    have "in_dag (dag_of st) x" if "x \<in> set seq" for x
      using that order_dag_history[OF assms] history_in_dag[OF _ assms(2)] by blast
    hence "inj_on c_round (set (filter (\<lambda>x. c_origin x = a) seq))"
      by (intro inj_onI in_dag_unique[of "dag_of st"]) auto
    moreover have "distinct seq" using order_dag_distinct[OF assms] by (simp add: distinct_map)
    ultimately show ?thesis by (simp add: origin_rounds_def distinct_map)
  qed
  ultimately show ?thesis by (simp add: strict_sorted_iff)
qed

end
