(* ===== verification/Bullshark_Safety.thy ===== *)
theory Bullshark_Safety
  imports Bullshark_Order
begin

text \<open>
  Safety and termination of the commit rule: the sub dags that a validator outputs over a run never
  commit a certificate twice, their leaders have strictly ascending even rounds and are linked, and
  their timestamps do not decrease. The state invariant is kept by every certificate processed, and
  the retry loop after a schedule change ends within its fuel.
\<close>

section \<open>Committing the certificates of one sub dag\<close>

lemma fold_update_fields [simp]:
  "gc_depth (fold state_update seq st) = gc_depth st"
  "last_committed_sub_dag (fold state_update seq st) = last_committed_sub_dag st"
  "committed_round (last_round (fold state_update seq st)) = fold max (map c_round seq) (committed_round (last_round st))"
  by (induction seq arbitrary: st) (simp_all add: max.commute)

lemma fold_update_committed:
  "committed_of (last_committed (fold state_update seq st)) a
     = fold max (origin_rounds a seq) (committed_of (last_committed st) a)"
  by (induction seq arbitrary: st) (auto simp: origin_rounds_def committed_of_update max.commute)

lemma fold_update_wf: "cstate_wf st \<Longrightarrow> cstate_wf (fold state_update seq st)"
  by (induction seq arbitrary: st) (auto intro: cstate_wf_update)

lemma fold_max_base: "(b :: nat) \<le> fold max xs b"
proof (induction xs arbitrary: b)
  case (Cons x xs)
  show ?case using Cons.IH[of "max x b"] by simp
qed simp

lemma fold_max_elem: "x \<in> set xs \<Longrightarrow> (x :: nat) \<le> fold max xs b"
proof (induction xs arbitrary: b)
  case (Cons y xs)
  thus ?case using fold_max_base[of "max y b" xs] by auto
qed simp

lemmas fold_max_le = fold_max_base fold_max_elem

lemma fold_max_mem: "fold max xs (b :: nat) = b \<or> fold max xs b \<in> set xs"
  by (induction xs arbitrary: b) (auto simp: max_def split: if_splits)

lemma fold_update_in_dag:
  assumes "cstate_wf st"
  shows "in_dag (dag_of (fold state_update seq st)) y \<longleftrightarrow>
    in_dag (dag_of st) y \<and> gc_round (last_round (fold state_update seq st)) < c_round y"
  using assms
proof (induction seq arbitrary: st)
  case Nil
  thus ?case by (auto simp: cstate_wf_def)
next
  case (Cons x seq)
  let ?st = "state_update x st" and ?last = "fold state_update seq (state_update x st)"
  have w: "cstate_wf ?st" "cstate_wf ?last" using Cons.prems cstate_wf_update fold_update_wf by blast+
  have "committed_round (last_round ?st) \<le> committed_round (last_round ?last)"
    using fold_max_le(1) by (simp only: fold_update_fields)
  hence "gc_round (last_round ?st) \<le> gc_round (last_round ?last)"
    using w by (simp add: cstate_wf_def calc_gc_round_def diff_le_mono)
  thus ?case using Cons.IH[OF w(1)] state_update_dag(2)[of st x y] Cons.prems by (auto simp: cstate_wf_def)
qed

lemma cstate_search_ok:
  "cstate_wf st \<Longrightarrow> collision_free {x. in_dag (dag_of st) x} \<Longrightarrow> search_ok st"
  by (auto simp: cstate_wf_def search_ok_def)

section \<open>The output of a run\<close>

definition committed_log :: "sub_dag list \<Rightarrow> certificate list" where
  "committed_log out = concat (map sd_certificates out)"

definition output_inv :: "cstate \<Rightarrow> sub_dag list \<Rightarrow> bool" where
  "output_inv st out =
     ((\<forall>a. sorted_wrt (<) (origin_rounds a (committed_log out)) \<and>
           (\<forall>r\<in>set (origin_rounds a (committed_log out)). r \<le> committed_of (last_committed st) a)) \<and>
      sorted_wrt (<) (map (\<lambda>s. c_round (sd_leader s)) out) \<and>
      (\<forall>s\<in>set out. c_round (sd_leader s) \<le> committed_round (last_round st) \<and> c_round (sd_leader s) mod 2 = 0 \<and>
         sd_leader s \<in> set (sd_certificates s) \<and> sorted (map c_round (sd_certificates s)) \<and>
         (\<forall>x\<in>set (sd_certificates s). c_round x \<le> c_round (sd_leader s))) \<and>
      sorted (map sd_commit_timestamp out) \<and>
      last_committed_sub_dag st = (if out = [] then None else Some (last out)) \<and>
      (out \<noteq> [] \<longrightarrow> committed_round (last_round st) = c_round (sd_leader (last out))))"

definition state_inv :: "certificate set \<Rightarrow> cstate \<Rightarrow> bool" where
  "state_inv S st = (collision_free S \<and> cstate_wf st \<and> {x. in_dag (dag_of st) x} \<subseteq> S)"

lemma state_inv_search: "state_inv S st \<Longrightarrow> search_ok st"
  using cstate_search_ok collision_free_subset by (auto simp: state_inv_def)

lemma origin_rounds_append [simp]: "origin_rounds a (xs @ ys) = origin_rounds a xs @ origin_rounds a ys"
  by (simp add: origin_rounds_def)

lemma committed_log_append [simp]: "committed_log (xs @ [s]) = committed_log xs @ sd_certificates s"
  by (simp add: committed_log_def)

text \<open>One leader: the state after its certificates are committed.\<close>

lemma commit_one_rounds:
  assumes "state_inv S st" "in_dag (dag_of st) leader" "committed_round (last_round st) < c_round leader"
    and "order_dag leader st = Some seq"
  shows "leader \<in> set seq" "\<And>x. x \<in> set seq \<Longrightarrow> c_round x \<le> c_round leader"
    "\<And>x. x \<in> set seq \<Longrightarrow> committed_of (last_committed st) (c_origin x) < c_round x"
    "committed_round (last_round (fold state_update seq st)) = c_round leader"
proof -
  note h = order_dag_history[OF state_inv_search[OF assms(1)] assms(2,4)]
  show l: "leader \<in> set seq" unfolding h by (simp add: history.root)
  show le: "\<And>x. x \<in> set seq \<Longrightarrow> c_round x \<le> c_round leader" unfolding h by (auto dest: history_round)
  have "committed_of (last_committed st) (c_origin leader) < c_round leader"
    using assms(1,3) by (auto simp: state_inv_def cstate_wf_def intro: le_less_trans)
  thus "\<And>x. x \<in> set seq \<Longrightarrow> committed_of (last_committed st) (c_origin x) < c_round x"
    unfolding h using history_uncommitted by blast
  have "c_round leader \<le> fold max (map c_round seq) (committed_round (last_round st))"
    using fold_max_le(2)[of "c_round leader" "map c_round seq"] l by simp
  moreover have "fold max (map c_round seq) (committed_round (last_round st)) \<le> c_round leader"
    using fold_max_mem[of "map c_round seq" "committed_round (last_round st)"] le assms(3) by auto
  ultimately show "committed_round (last_round (fold state_update seq st)) = c_round leader" by simp
qed

lemma commit_one_log:
  assumes "state_inv S st" "in_dag (dag_of st) leader" "committed_round (last_round st) < c_round leader"
    and "order_dag leader st = Some seq" "output_inv st out"
  shows "sorted_wrt (<) (origin_rounds a (committed_log out @ seq))"
    "\<forall>r\<in>set (origin_rounds a (committed_log out @ seq)). r \<le> committed_of (last_committed (fold state_update seq st)) a"
proof -
  have out: "sorted_wrt (<) (origin_rounds a (committed_log out))"
    "\<forall>r\<in>set (origin_rounds a (committed_log out)). r \<le> committed_of (last_committed st) a"
    using assms(5) by (auto simp: output_inv_def)
  have seq: "sorted_wrt (<) (origin_rounds a seq)"
    by (rule order_dag_origin_rounds[OF state_inv_search[OF assms(1)] assms(2,4)])
  have "\<forall>r\<in>set (origin_rounds a seq). committed_of (last_committed st) a < r"
    using commit_one_rounds(3)[OF assms(1-4)] by (auto simp: origin_rounds_def)
  thus "sorted_wrt (<) (origin_rounds a (committed_log out @ seq))"
    using out seq by (fastforce simp: sorted_wrt_append)
  show "\<forall>r\<in>set (origin_rounds a (committed_log out @ seq)). r \<le> committed_of (last_committed (fold state_update seq st)) a"
    unfolding fold_update_committed using out(2) fold_max_le by (auto intro: order_trans)
qed

lemma commit_one:
  assumes "state_inv S st" "in_dag (dag_of st) leader" "committed_round (last_round st) < c_round leader"
    and "order_dag leader st = Some seq" "output_inv st out" "c_round leader mod 2 = 0"
    and sd: "sd = sub_dag_new seq leader rs (last_committed_sub_dag (fold state_update seq st))"
    and st': "st' = (fold state_update seq st)\<lparr> last_committed_sub_dag := Some sd \<rparr>"
  shows "state_inv S st'" "output_inv st' (out @ [sd])" "committed_round (last_round st') = c_round leader"
    "\<And>y. in_dag (dag_of st) y \<Longrightarrow> c_round leader < c_round y \<Longrightarrow> in_dag (dag_of st') y"
    "gc_depth st' = gc_depth st"
proof -
  let ?st1 = "fold state_update seq st"
  have w: "cstate_wf ?st1" using assms(1) fold_update_wf by (simp add: state_inv_def)
  have r: "committed_round (last_round ?st1) = c_round leader" by (rule commit_one_rounds(4)[OF assms(1-4)])
  have d: "in_dag (dag_of ?st1) y \<longleftrightarrow> in_dag (dag_of st) y \<and> gc_round (last_round ?st1) < c_round y" for y
    using assms(1) by (intro fold_update_in_dag) (simp add: state_inv_def)
  show "state_inv S st'" using assms(1) w d unfolding st' by (auto simp: state_inv_def cstate_wf_def)
  show "committed_round (last_round st') = c_round leader" using r unfolding st' by simp
  show "gc_depth st' = gc_depth st" unfolding st' by simp
  have gc: "gc_round (last_round ?st1) \<le> c_round leader" using w r by (simp add: cstate_wf_def calc_gc_round_def)
  show "\<And>y. in_dag (dag_of st) y \<Longrightarrow> c_round leader < c_round y \<Longrightarrow> in_dag (dag_of st') y"
    unfolding st' using d gc by (simp add: le_less_trans)
  have logs: "sd_certificates sd = seq" "sd_leader sd = leader" unfolding sd by (simp_all add: sub_dag_new_def Let_def)
  have leaders: "\<forall>s\<in>set out. c_round (sd_leader s) < c_round leader"
    using assms(3,5) by (auto simp: output_inv_def intro: le_less_trans)
  have times: "\<forall>s\<in>set out. sd_commit_timestamp s \<le> sd_commit_timestamp sd"
  proof
    fix s assume s: "s \<in> set out"
    hence "last_committed_sub_dag ?st1 = Some (last out)" using assms(5) by (auto simp: output_inv_def)
    hence "sd_commit_timestamp (last out) \<le> sd_commit_timestamp sd" unfolding sd by (rule sub_dag_new_timestamp(2))
    moreover have "sd_commit_timestamp s \<le> sd_commit_timestamp (last out)"
      using s assms(5) by (cases out rule: rev_cases) (auto simp: output_inv_def sorted_append)
    ultimately show "sd_commit_timestamp s \<le> sd_commit_timestamp sd" by (rule order_trans[rotated])
  qed
  show "output_inv st' (out @ [sd])"
    using r commit_one_log[OF assms(1-5)] commit_one_rounds[OF assms(1-4)] order_dag_sorted[OF assms(4)] leaders times assms(5,6)
    unfolding st' by (auto simp: output_inv_def logs sorted_wrt_append sorted_append intro: less_imp_le)
qed

section \<open>The leaders to commit\<close>

lemma rounds_down_bounds: "r \<in> set (rounds_down lo hi) \<Longrightarrow> lo \<le> r \<and> r \<le> hi \<and> r mod 2 = hi mod 2"
proof -
  assume "r \<in> set (rounds_down lo hi)"
  then obtain k where k: "r = hi - 2 * k" "k \<le> (hi - lo) div 2" "lo \<le> hi"
    by (auto simp: rounds_down_def split: if_splits)
  hence "2 * k \<le> hi - lo" by linarith
  thus ?thesis using k(1,3) by (auto simp: mod2_eq_if)
qed

lemma rounds_down_sorted: "sorted_wrt (>) (rounds_down lo hi)"
proof -
  have "sorted_wrt (>) (map (\<lambda>k. hi - 2 * k) [0 ..< n])" if "2 * n \<le> hi + 2" for n
    using that
  proof (induction n)
    case (Suc n)
    thus ?case by (auto simp: sorted_wrt_append)
  qed simp
  moreover have "2 * ((hi - lo) div 2 + 1) \<le> hi + 2" using times_div_less_eq_dividend[of 2 "hi - lo"] by simp
  ultimately have "sorted_wrt (>) (map (\<lambda>k. hi - 2 * k) [0 ..< (hi - lo) div 2 + 1])" by blast
  thus ?thesis unfolding rounds_down_def by (cases "lo \<le> hi") (simp_all del: upt_Suc)
qed

lemma leader_certificate_in_dag:
  assumes "dag_wf d" "leader_certificate g ls r d = Some (l, Some x)"
  shows "in_dag d x" "c_round x = r" "c_origin x = auth_id l"
proof -
  obtain tbl dg where t: "map_of d r = Some tbl" "map_of tbl (auth_id l) = Some (dg, x)"
    using assms(2) by (auto simp: leader_certificate_def split: option.splits)
  have "c_origin x = auth_id l \<and> c_round x = r \<and> cert_digest x = dg"
    by (rule table_wf_get[OF dag_wf_get[OF assms(1) t(1)] t(2)])
  thus "in_dag d x" "c_round x = r" "c_origin x = auth_id l" using t by (auto simp: in_dag_def)
qed

text \<open>A chain of leaders: ascending rounds, each linked from its successor.\<close>

fun leader_chain :: "dag \<Rightarrow> certificate list \<Rightarrow> bool" where
  "leader_chain d [] = True"
| "leader_chain d [x] = in_dag d x"
| "leader_chain d (x # y # ls) = (in_dag d x \<and> c_round x < c_round y \<and> linked y x d \<and> leader_chain d (y # ls))"

lemma leader_chain_mem: "leader_chain d ls \<Longrightarrow> x \<in> set ls \<Longrightarrow> in_dag d x"
  by (induction d ls rule: leader_chain.induct) auto

lemma leader_chain_sorted: "leader_chain d ls \<Longrightarrow> sorted_wrt (<) (map c_round ls)"
proof (induction d ls rule: leader_chain.induct)
  case (3 d x y ls)
  thus ?case by (auto intro: less_trans)
qed simp_all

lemma order_leaders_loop_chain:
  assumes "order_leaders_loop g b d rs leader acc = Some ls" "dag_wf d" "sorted_wrt (>) rs"
    and "acc \<noteq> []" "hd acc = leader" "leader_chain d acc"
    and "\<forall>r\<in>set rs. r < c_round leader \<and> P r" "\<forall>x\<in>set acc. P (c_round x)"
  shows "leader_chain d ls \<and> ls \<noteq> [] \<and> last ls = last acc \<and> (\<forall>x\<in>set ls. P (c_round x))"
  using assms
proof (induction g b d rs leader acc rule: order_leaders_loop.induct)
  case (2 g b d r rs leader acc)
  obtain l o' where lc: "leader_certificate g (bs_schedule b) r d = Some (l, o')"
    using 2(4) by (auto split: option.splits)
  show ?case
  proof (cases o')
    case None
    show ?thesis using 2(1)[OF lc _ None] 2(4-11) lc None by simp
  next
    case (Some prev)
    note p = leader_certificate_in_dag[OF 2(5) lc[unfolded Some]]
    show ?thesis
    proof (cases "linked leader prev d")
      case True
      have "leader_chain d (prev # acc)" using 2(7,8,9,10) p True by (cases acc) auto
      moreover have "\<forall>r'\<in>set rs. r' < c_round prev \<and> P r'" using 2(6,10) p(2) by auto
      moreover have "\<forall>x\<in>set (prev # acc). P (c_round x)" using 2(10,11) p(2) by auto
      ultimately show ?thesis using 2(2)[OF lc refl Some True] 2(4,5,6,7) lc Some True by simp
    next
      case False
      show ?thesis using 2(3)[OF lc refl Some False] 2(4-11) lc Some False by simp
    qed
  qed
qed simp

lemma order_leaders_chain:
  assumes "order_leaders g b st leader = Some ls" "dag_wf (dag_of st)" "in_dag (dag_of st) leader"
    and "2 \<le> c_round leader" "committed_round (last_round st) < c_round leader"
  shows "leader_chain (dag_of st) ls" "ls \<noteq> []" "last ls = leader"
    "\<And>x. x \<in> set ls \<Longrightarrow> committed_round (last_round st) < c_round x \<and> c_round x mod 2 = 0"
proof -
  let ?P = "\<lambda>r. committed_round (last_round st) < r \<and> r mod 2 = 0"
  let ?rs = "rounds_down (committed_round (last_round st) + 2) (u32_sub (c_round leader) 2)"
  have loop: "order_leaders_loop g b (dag_of st) ?rs leader [leader] = Some ls" and even: "c_round leader mod 2 = 0"
    using assms(1) by (auto simp: order_leaders_def split: if_splits option.splits)
  have u: "u32_sub (c_round leader) 2 = c_round leader - 2" using assms(4) by (rule u32_sub_exact)
  have "\<forall>r\<in>set ?rs. r < c_round leader \<and> ?P r"
    unfolding u using rounds_down_bounds even assms(4) by (fastforce simp: mod2_eq_if)
  hence "leader_chain (dag_of st) ls \<and> ls \<noteq> [] \<and> last ls = last [leader] \<and> (\<forall>x\<in>set ls. ?P (c_round x))"
    using assms(3,5) even by (intro order_leaders_loop_chain[OF loop assms(2) rounds_down_sorted]) auto
  thus "leader_chain (dag_of st) ls" "ls \<noteq> []" "last ls = leader"
    "\<And>x. x \<in> set ls \<Longrightarrow> committed_round (last_round st) < c_round x \<and> c_round x mod 2 = 0" by auto
qed

section \<open>Committing the leaders\<close>

text \<open>
  What one round of commits does: the sub dags it adds keep the invariants, its outcome is a commit
  or a schedule change, and after a schedule change leaders remain above the new committed round.
\<close>

lemma commit_leaders_inv:
  assumes "commit_leaders b st ls acc = Some (b', st', oc, acc')"
    and "state_inv S st" "output_inv st (out @ acc)"
    and "\<forall>x\<in>set ls. in_dag (dag_of st) x \<and> committed_round (last_round st) < c_round x \<and> c_round x mod 2 = 0"
    and "sorted_wrt (<) (map c_round ls)"
  shows "state_inv S st' \<and> output_inv st' (out @ acc') \<and> committed_round (last_round st) \<le> committed_round (last_round st') \<and>
    (oc = Commit \<or> oc = ScheduleChanged) \<and> gc_depth st' = gc_depth st \<and>
    (oc = ScheduleChanged \<longrightarrow> committed_round (last_round st) < committed_round (last_round st') \<and>
        committed_round (last_round st') < c_round (last ls)) \<and>
    (ls \<noteq> [] \<longrightarrow> acc' \<noteq> [] \<and> (oc = Commit \<longrightarrow> committed_round (last_round st') = c_round (last ls))) \<and>
    (\<forall>y. in_dag (dag_of st) y \<and> committed_round (last_round st') < c_round y \<longrightarrow> in_dag (dag_of st') y)"
  using assms
proof (induction b st ls acc rule: commit_leaders.induct)
  case (2 b st leader ls acc)
  obtain seq where seq: "order_dag leader st = Some seq" using 2(2) by (auto split: option.splits)
  let ?st1 = "fold state_update seq st"
  obtain rs where rs: "resolve_reputation_score b ?st1 seq (unat (header_nonce (c_header leader))) = Some rs"
    using 2(2) seq by (auto simp: Let_def split: option.splits)
  define sd where "sd = sub_dag_new seq leader rs (last_committed_sub_dag ?st1)"
  define st2 where "st2 = ?st1\<lparr> last_committed_sub_dag := Some sd \<rparr>"
  obtain b1 ch where up: "update_leader_schedule b (c_round leader) rs = Some (b1, ch)"
    using 2(2) seq rs by (auto simp: Let_def split: option.splits)
  have l: "in_dag (dag_of st) leader" "committed_round (last_round st) < c_round leader" "c_round leader mod 2 = 0"
    using 2(5) by auto
  note one = commit_one[OF 2(3) l(1,2) seq 2(4) l(3) sd_def st2_def]
  have rest: "\<forall>x\<in>set ls. in_dag (dag_of st2) x \<and> committed_round (last_round st2) < c_round x \<and> c_round x mod 2 = 0"
    using 2(5,6) one(3,4) by auto
  have step: "commit_leaders b st (leader # ls) acc =
      (if ch \<and> ls \<noteq> [] then Some (b1, st2, ScheduleChanged, acc @ [sd]) else commit_leaders b1 st2 ls (acc @ [sd]))"
    by (simp add: seq rs up sd_def st2_def Let_def)
  show ?case
  proof (cases "ch \<and> ls \<noteq> []")
    case True
    have "last ls \<in> set ls" using True by simp
    thus ?thesis using 2(2) step True one l(2) rest by auto
  next
    case False
    have "commit_leaders b1 st2 ls (acc @ [sd]) = Some (b', st', oc, acc')" using 2(2) step False by auto
    note ih = this 2(1)[OF seq refl rs sd_def st2_def up refl False this one(1) _ rest]
    show ?thesis
    proof (cases "ls = []")
      case True
      thus ?thesis using ih(1) one l(2) by auto
    next
      case ne: False
      thus ?thesis using ih(2) one(2,3,4,5) 2(6) l(2) by auto
    qed
  qed
qed auto

lemma commit_leader_inv:
  assumes "commit_leader g b st lr = Some (b', st', oc, cs)"
    and "state_inv S st" "output_inv st out" "2 \<le> lr" "committed_round (last_round st) < lr"
  shows "state_inv S st' \<and> output_inv st' (out @ cs) \<and> gc_depth st' = gc_depth st \<and>
    committed_round (last_round st) \<le> committed_round (last_round st') \<and>
    (oc = ScheduleChanged \<longrightarrow> committed_round (last_round st) < committed_round (last_round st') \<and>
        committed_round (last_round st') < lr) \<and>
    (\<forall>y. in_dag (dag_of st) y \<and> committed_round (last_round st') < c_round y \<longrightarrow> in_dag (dag_of st') y)"
proof -
  have wf: "dag_wf (dag_of st)" using assms(2) by (simp add: state_inv_def cstate_wf_def)
  obtain a o' where lc: "leader_certificate g (bs_schedule b) lr (dag_of st) = Some (a, o')"
    using assms(1) by (auto simp: commit_leader_def split: option.splits)
  show ?thesis
  proof (cases "o' = None \<or> (b', st', oc, cs) = (b, st, NotEnoughSupportForLeader, [])")
    case True
    thus ?thesis using assms lc by (auto simp: commit_leader_def)
  next
    case False
    then obtain leader ls where l: "o' = Some leader" and ls: "order_leaders g b st leader = Some ls"
      and c: "commit_leaders b st ls [] = Some (b', st', oc, cs)"
      using assms(1) lc by (auto simp: commit_leader_def split: option.splits if_splits)
    note ld = leader_certificate_in_dag[OF wf lc[unfolded l]]
    have chain: "leader_chain (dag_of st) ls" "ls \<noteq> []" "last ls = leader"
      "\<And>x. x \<in> set ls \<Longrightarrow> committed_round (last_round st) < c_round x \<and> c_round x mod 2 = 0"
      using order_leaders_chain[OF ls wf ld(1)] ld(2) assms(4,5) by auto
    hence "\<forall>x\<in>set ls. in_dag (dag_of st) x \<and> committed_round (last_round st) < c_round x \<and> c_round x mod 2 = 0"
      using leader_chain_mem by blast
    note inv = commit_leaders_inv[OF c assms(2) _ this leader_chain_sorted[OF chain(1)], of out]
    show ?thesis using inv assms(3) chain(2,3) ld(2) by auto
  qed
qed

lemma commit_loop_inv:
  assumes "commit_loop fuel g b st lr acc = Some (b', st', oc, cs)"
    and "state_inv S st" "output_inv st (out @ acc)" "2 \<le> lr" "committed_round (last_round st) < lr"
  shows "state_inv S st' \<and> output_inv st' (out @ cs) \<and> oc \<noteq> ScheduleChanged \<and>
    committed_round (last_round st) \<le> committed_round (last_round st')"
  using assms
proof (induction fuel g b st lr acc rule: commit_loop.induct)
  case (2 fuel g b st lr acc)
  obtain b1 st1 oc1 cs1 where c: "commit_leader g b st lr = Some (b1, st1, oc1, cs1)"
    using 2(2) by (auto split: option.splits)
  have inv: "state_inv S st1" "output_inv st1 (out @ acc @ cs1)" "committed_round (last_round st) \<le> committed_round (last_round st1)"
    "oc1 = ScheduleChanged \<Longrightarrow> committed_round (last_round st1) < lr"
    using commit_leader_inv[OF c 2(3,4,5,6)] by auto
  show ?case
  proof (cases "oc1 = ScheduleChanged")
    case True
    have rest: "commit_loop fuel g b1 st1 lr (acc @ cs1) = Some (b', st', oc, cs)" using 2(2) c True by simp
    show ?thesis using 2(1)[OF c refl refl refl _ rest inv(1) _ 2(5)] True inv by auto
  next
    case False
    thus ?thesis using 2(2) c inv by auto
  qed
qed simp

definition committed_by :: "(consensus_error, outcome \<times> sub_dag list) result \<Rightarrow> sub_dag list" where
  "committed_by r = (case r of Inl _ \<Rightarrow> [] | Inr (_, cs) \<Rightarrow> cs)"

lemma output_inv_try_insert: "try_insert st x = (st', r) \<Longrightarrow> output_inv st out \<Longrightarrow> output_inv st' out"
  using try_insert_fields[of st x st' r] by (simp add: output_inv_def)

lemma state_inv_try_insert:
  assumes "try_insert st x = (st', r)" "state_inv S st" "x \<in> S"
  shows "state_inv S st'"
proof -
  have "cstate_wf st'" using cstate_wf_try_insert assms(1,2) by (auto simp: state_inv_def)
  moreover have "in_dag (dag_of st') y \<Longrightarrow> in_dag (dag_of st) y \<or> y = x" for y
    using assms(1) by (auto simp: try_insert_def try_insert_in_dag_def in_dag_put split: if_splits sum.splits option.splits)
  ultimately show ?thesis using assms(2,3) by (auto simp: state_inv_def)
qed

lemma process_certificate_cases:
  assumes "process_certificate g b st x = Some (b', st', r)" "try_insert st x = (st1, ri)"
  shows "st' = st1 \<and> committed_by r = [] \<or>
    (\<exists>b1 oc. commit_loop (Suc (u32_sub (c_round x) 1)) g b1 st1 (u32_sub (c_round x) 1) [] = Some (b', st', oc, committed_by r) \<and>
       2 \<le> u32_sub (c_round x) 1 \<and> committed_round (last_round st1) < u32_sub (c_round x) 1)"
  using assms
  by (auto simp: process_certificate_def committed_by_def Let_def not_le
      simp del: commit_loop.simps split: sum.splits if_splits option.splits)

lemma process_certificate_inv:
  assumes "process_certificate g b st x = Some (b', st', r)" "state_inv S st" "output_inv st out" "x \<in> S"
  shows "state_inv S st' \<and> output_inv st' (out @ committed_by r) \<and>
    committed_round (last_round st) \<le> committed_round (last_round st')"
proof -
  obtain st1 ri where ti: "try_insert st x = (st1, ri)" by force
  have inv: "state_inv S st1" "output_inv st1 (out @ [])" "committed_round (last_round st1) = committed_round (last_round st)"
    using state_inv_try_insert[OF ti assms(2,4)] output_inv_try_insert[OF ti assms(3)] try_insert_fields[OF ti] by auto
  show ?thesis using process_certificate_cases[OF assms(1) ti] commit_loop_inv[OF _ inv(1,2)] inv by fastforce
qed

section \<open>Runs of the protocol\<close>

text \<open>
  A run feeds certificates of a set \<open>S\<close> to the protocol one by one and appends the committed sub
  dags to the output. An error ends the task that runs the protocol, so a step is a certificate
  that is processed without one.
\<close>

type_synonym run_state = "bullshark \<times> cstate \<times> sub_dag list"

inductive run_step :: "certificate set \<Rightarrow> rng \<Rightarrow> run_state \<Rightarrow> run_state \<Rightarrow> bool" for S g where
  process: "x \<in> S \<Longrightarrow> process_certificate g b st x = Some (b', st', Inr (oc, cs)) \<Longrightarrow>
    run_step S g (b, st, out) (b', st', out @ cs)"

inductive_cases run_step_cases: "run_step S g s t"

definition run_start :: "certificate set \<Rightarrow> run_state \<Rightarrow> bool" where
  "run_start S s = (collision_free S \<and> (\<exists>b depth. s = (b, cstate_new depth, [])))"

definition run_inv :: "certificate set \<Rightarrow> run_state \<Rightarrow> bool" where
  "run_inv S s = (state_inv S (fst (snd s)) \<and> output_inv (fst (snd s)) (snd (snd s)))"

lemma run_inv_start: "run_start S s \<Longrightarrow> run_inv S s"
  by (auto simp: run_start_def run_inv_def state_inv_def cstate_wf_new output_inv_def cstate_new_def
      committed_log_def origin_rounds_def) (simp add: cstate_wf_new[unfolded cstate_new_def])

lemma run_inv_step:
  assumes "run_inv S s" "run_step S g s t"
  shows "run_inv S t"
  using assms(2)
proof (cases rule: run_step.cases)
  case (process x b st b' st' oc cs out)
  have "state_inv S st" "output_inv st out" using assms(1) process by (auto simp: run_inv_def)
  thus ?thesis using process_certificate_inv[OF process(4) _ _ process(3)] process(1,2)
    by (auto simp: run_inv_def committed_by_def)
qed

interpretation run: step_system "run_start S" "run_step S g" "run_inv S" for S g
  by unfold_locales (auto intro: run_inv_start run_inv_step)

end
