(* ===== verification/Bullshark_Liveness.thy ===== *)
theory Bullshark_Liveness
  imports Bullshark_Safety
begin

text \<open>
  The commit rule never panics and always returns: under the conditions a running node meets, no
  assertion of the protocol fails, no look-up it expects to succeed is missing, and the loop over
  schedule changes ends within the fuel that \<open>process_certificate\<close> gives it.
\<close>

text \<open>
  The protocol as the node configures it: a well-formed committee in which every authority has
  voting power, a positive schedule length, and the default stake threshold of zero for bad nodes.
\<close>

definition protocol_ok :: "bullshark \<Rightarrow> bool" where
  "protocol_ok b =
     (committee_wf (bs_committee b) \<and> power_fits (bs_committee b) \<and>
      (\<forall>i\<in>members (bs_committee b). 0 < voting_power_by_id (bs_committee b) i) \<and>
      0 < bs_subdags_per_schedule b \<and> bs_threshold b = 0 \<and>
      ls_committee (bs_schedule b) = bs_committee b \<and> bad_nodes (ls_table (bs_schedule b)) = [])"

definition scores_ok :: "committee \<Rightarrow> cstate \<Rightarrow> bool" where
  "scores_ok c st = (\<forall>l. last_committed_sub_dag st = Some l \<longrightarrow> scores_cover c (sd_reputation_score l))"

section \<open>Scores\<close>

lemma scores_cover_new: "committee_wf c \<Longrightarrow> scores_cover c (scores_new c)"
  using scores_new_keys[of c] by (simp add: scores_cover_def dom_map_of_conv_image_fst)

lemma scores_cover_add: "scores_cover c rs \<Longrightarrow> a \<in> members c \<Longrightarrow> scores_cover c (add_score a n rs)"
  using add_score_keys(1)[of a n rs] add_score_keys(2)[of rs a n]
  by (auto simp: scores_cover_def dom_map_of_conv_image_fst)

lemma scores_cover_final [simp]: "scores_cover c (rs\<lparr> final_of_schedule := f \<rparr>) = scores_cover c rs"
  by (simp add: scores_cover_def)

lemma scores_cover_total:
  assumes "committee_wf c" "scores_cover c rs"
  shows "total_authorities rs = committee_size c"
proof -
  have "total_authorities rs = card (members c)"
    using assms(2) total_authorities_keys[of rs] by (simp add: scores_cover_def dom_map_of_conv_image_fst)
  also have "\<dots> = length (authorities_by_id c)"
    using distinct_card[OF bt_sorted_distinct[OF by_id_sorted[OF assms(1)]]] by (simp add: members_def bt_keys_def)
  also have "\<dots> = committee_size c" using assms(1) unfolding committee_wf_def committee_size_def by blast
  finally show ?thesis .
qed

lemma resolve_reputation_score_total:
  assumes "protocol_ok b" "scores_ok (bs_committee b) st" "\<forall>x\<in>set seq. c_origin x \<in> members (bs_committee b)"
  obtains rs where "resolve_reputation_score b st seq n = Some rs" "scores_cover (bs_committee b) rs"
proof -
  let ?c = "bs_committee b"
  have wf: "committee_wf ?c" using assms(1) by (simp add: protocol_ok_def)
  have fold: "scores_cover ?c rs \<Longrightarrow> scores_cover ?c (fold (\<lambda>x rs. if d \<in> set (c_parents x) then add_score (c_origin x) 1 rs else rs) xs rs)"
    if "\<forall>x\<in>set xs. c_origin x \<in> members ?c" for d xs rs
    using that by (induction xs arbitrary: rs) (auto simp: scores_cover_add)
  define base where "base = (if (n div 2) mod bs_subdags_per_schedule b = 0 then scores_new ?c
    else case last_committed_sub_dag st of Some l \<Rightarrow> sd_reputation_score l | None \<Rightarrow> scores_new ?c)"
  define scored where "scored = (case last_committed_sub_dag st of None \<Rightarrow> base
    | Some l \<Rightarrow> fold (\<lambda>x rs. if cert_digest (sd_leader l) \<in> set (c_parents x) then add_score (c_origin x) 1 rs else rs) seq base)"
  have "scores_cover ?c base"
    unfolding base_def using scores_cover_new[OF wf] assms(2) by (auto simp: scores_ok_def split: option.splits)
  hence cover: "scores_cover ?c scored"
    unfolding scored_def using fold[OF assms(3)] by (cases "last_committed_sub_dag st") simp_all
  let ?final = "scored\<lparr> final_of_schedule := ((n div 2) + 1) mod bs_subdags_per_schedule b = 0 \<rparr>"
  have "resolve_reputation_score b st seq n = Some ?final"
    unfolding resolve_reputation_score_def Let_def base_def[symmetric] scored_def[symmetric]
    using assms(1) scores_cover_total[OF wf, of ?final] cover by (simp add: protocol_ok_def)
  thus ?thesis using that cover by simp
qed

section \<open>The schedule\<close>

lemma retrieve_none:
  assumes "protocol_ok b" "\<forall>e\<in>set as. fst e \<in> members (bs_committee b)"
  shows "retrieve_first_nodes (bs_committee b) as 0 = []"
proof (cases as)
  case (Cons e es)
  let ?c = "bs_committee b"
  have m: "fst e \<in> members ?c" and wf: "committee_wf ?c" "power_fits ?c" using assms Cons by (auto simp: protocol_ok_def)
  have "voting_power_by_id ?c (fst e) \<le> total_power ?c"
    unfolding total_power_def using m by (intro member_le_sum) auto
  moreover have "2 * total_power ?c < u64_max"
    using wf total_power_sum_list[OF wf(1)] by (simp add: power_fits_def)
  ultimately have "u64_add 0 (voting_power_by_id ?c (fst e)) = voting_power_by_id ?c (fst e)" by (intro u64_add_exact[of 0, simplified]) simp
  moreover have "0 < voting_power_by_id ?c (fst e)" using assms(1) m by (simp add: protocol_ok_def)
  ultimately show ?thesis using Cons
    by (cases e) (simp add: retrieve_first_nodes_def u64_mul_def)
qed (simp add: retrieve_first_nodes_def)

lemma update_leader_schedule_total:
  assumes "protocol_ok b" "scores_cover (bs_committee b) rs"
  obtains b' ch where "update_leader_schedule b r rs = Some (b', ch)" "protocol_ok b'" "bs_committee b' = bs_committee b"
proof (cases "final_of_schedule rs")
  case True
  let ?c = "bs_committee b" and ?L = "authorities_by_score_desc rs"
  have "\<forall>e\<in>set (rev ?L). fst e \<in> members ?c" "\<forall>e\<in>set ?L. fst e \<in> members ?c"
    using by_score_cover(2)[OF assms(2)] by auto
  hence "retrieve_first_nodes ?c (rev ?L) 0 = []" "retrieve_first_nodes ?c ?L 0 = []"
    using retrieve_none[OF assms(1)] by blast+
  hence "swap_table_new ?c r rs (bs_threshold b) = Some \<lparr> t_round = r, good_nodes = [], bad_nodes = [] \<rparr>"
    using assms(1) True by (simp add: swap_table_new_def protocol_ok_def)
  thus ?thesis using that[of "b\<lparr> bs_schedule := update_leader_swap_table \<lparr> t_round = r, good_nodes = [], bad_nodes = [] \<rparr> (bs_schedule b) \<rparr>" True]
      True assms(1) by (simp add: update_leader_schedule_def protocol_ok_def update_leader_swap_table_def)
next
  case False
  thus ?thesis using that[of b False] assms(1) by (simp add: update_leader_schedule_def)
qed

lemma schedule_leader_total:
  assumes "protocol_ok b" "rng_spec g" "r mod 2 = 0"
  obtains l where "schedule_leader g (bs_schedule b) r = Some l"
proof -
  let ?c = "bs_committee b" and ?xs = "map (\<lambda>a. (a, voting_power a)) (bt_values (authorities (bs_committee b)))"
  have wf: "committee_wf ?c" using assms(1) by (simp add: protocol_ok_def)
  obtain a where a: "a \<in> set (bt_values (authorities ?c))"
    using wf by (cases "authorities ?c") (auto simp: committee_wf_def bt_values_def)
  have "auth_id a \<in> members ?c" using a members_eq[OF wf] by blast
  hence "0 < voting_power a" using assms(1) power_of_authority[OF wf a] by (auto simp: protocol_ok_def)
  hence "\<exists>(a, w)\<in>set ?xs. 0 < w" using a by force
  then obtain l where "rng_weighted g r ?xs = Some l"
    using assms(2) unfolding rng_spec_def by (metis option.exhaust)
  thus ?thesis using that[of l] assms(1,3)
    by (simp add: schedule_leader_def committee_leader_def swap_def protocol_ok_def)
qed

lemma leader_certificate_total:
  assumes "protocol_ok b" "rng_spec g" "r mod 2 = 0"
  obtains l x where "leader_certificate g (bs_schedule b) r d = Some (l, x)"
proof -
  obtain l where "schedule_leader g (bs_schedule b) r = Some l" using assms by (rule schedule_leader_total)
  hence "leader_certificate g (bs_schedule b) r d \<noteq> None" by (auto simp: leader_certificate_def split: option.splits)
  thus ?thesis using that by force
qed

section \<open>The leaders\<close>

lemma order_leaders_loop_total:
  assumes "protocol_ok b" "rng_spec g" "\<forall>r\<in>set rs. r mod 2 = 0"
  shows "order_leaders_loop g b d rs leader acc \<noteq> None"
  using assms(3)
proof (induction rs arbitrary: leader acc)
  case (Cons r rs)
  obtain l x where lc: "leader_certificate g (bs_schedule b) r d = Some (l, x)"
    by (rule leader_certificate_total[OF assms(1,2)]) (use Cons.prems in auto)
  thus ?case using Cons by (cases x) auto
qed simp

lemma order_leaders_total:
  assumes "protocol_ok b" "rng_spec g" "dag_wf (dag_of st)" "in_dag (dag_of st) leader" "c_round leader mod 2 = 0"
    and "2 \<le> c_round leader" "committed_round (last_round st) < c_round leader"
    and "\<And>x. in_dag (dag_of st) x \<Longrightarrow> c_origin x \<in> members (bs_committee b)"
  obtains ls where "order_leaders g b st leader = Some ls"
proof -
  let ?rs = "rounds_down (committed_round (last_round st) + 2) (u32_sub (c_round leader) 2)"
  have u: "u32_sub (c_round leader) 2 = c_round leader - 2" using assms(6) by (rule u32_sub_exact)
  have "\<forall>r\<in>set ?rs. r mod 2 = 0"
    unfolding u using rounds_down_bounds assms(5,6) by (fastforce simp: mod2_eq_if)
  then obtain ls where ls: "order_leaders_loop g b (dag_of st) ?rs leader [leader] = Some ls"
    using order_leaders_loop_total[OF assms(1,2)] by blast
  have "\<forall>r\<in>set ?rs. r < c_round leader \<and> True"
    unfolding u using rounds_down_bounds assms(6) by fastforce
  hence "leader_chain (dag_of st) ls"
    using order_leaders_loop_chain[OF ls assms(3) rounds_down_sorted, of "\<lambda>_. True"] assms(4) by simp
  hence "list_all (\<lambda>x. committee_authority (bs_committee b) (c_origin x) \<noteq> None) ls"
    using leader_chain_mem assms(8) members_iff
    by (fastforce simp: list_all_iff committee_authority_def is_authority_def)
  thus ?thesis using that ls assms(5) by (simp add: order_leaders_def)
qed

lemma commit_leaders_total:
  assumes "protocol_ok b" "scores_ok (bs_committee b) st" "state_inv S st" "\<And>x. x \<in> S \<Longrightarrow> c_origin x \<in> members (bs_committee b)"
    and "output_inv st (out @ acc)" "sorted_wrt (<) (map c_round ls)"
    and "\<forall>x\<in>set ls. in_dag (dag_of st) x \<and> committed_round (last_round st) < c_round x \<and> c_round x mod 2 = 0"
  shows "\<exists>b' st' oc cs. commit_leaders b st ls acc = Some (b', st', oc, cs) \<and> protocol_ok b' \<and>
    bs_committee b' = bs_committee b \<and> scores_ok (bs_committee b) st'"
  using assms
proof (induction ls arbitrary: b st acc)
  case (Cons leader ls)
  have l: "in_dag (dag_of st) leader" "committed_round (last_round st) < c_round leader" "c_round leader mod 2 = 0"
    using Cons.prems(7) by auto
  have so: "search_ok st" using Cons.prems(3) by (rule state_inv_search)
  obtain seq where seq: "order_dag leader st = Some seq" using l(2) by (simp add: order_dag_def)
  let ?st1 = "fold state_update seq st"
  have "\<forall>x\<in>set seq. c_origin x \<in> members (bs_committee b)"
    using order_dag_history[OF so l(1) seq] history_in_dag[OF _ l(1)] Cons.prems(3,4) by (force simp: state_inv_def)
  moreover have "scores_ok (bs_committee b) ?st1" using Cons.prems(2) by (simp add: scores_ok_def)
  ultimately obtain rs where rs: "resolve_reputation_score b ?st1 seq (unat (header_nonce (c_header leader))) = Some rs"
    "scores_cover (bs_committee b) rs" using Cons.prems(1) by (elim resolve_reputation_score_total[rotated 1]) auto
  obtain b1 ch where up: "update_leader_schedule b (c_round leader) rs = Some (b1, ch)" "protocol_ok b1" "bs_committee b1 = bs_committee b"
    using Cons.prems(1) rs(2) by (rule update_leader_schedule_total)
  define sd where "sd = sub_dag_new seq leader rs (last_committed_sub_dag ?st1)"
  define st2 where "st2 = ?st1\<lparr> last_committed_sub_dag := Some sd \<rparr>"
  note one = commit_one[OF Cons.prems(3) l(1,2) seq Cons.prems(5) l(3) sd_def st2_def]
  have sc: "scores_ok (bs_committee b) st2"
    using rs(2) by (simp add: scores_ok_def st2_def sd_def sub_dag_new_def Let_def)
  have step: "commit_leaders b st (leader # ls) acc =
      (if ch \<and> ls \<noteq> [] then Some (b1, st2, ScheduleChanged, acc @ [sd]) else commit_leaders b1 st2 ls (acc @ [sd]))"
    by (simp add: seq rs(1) up(1) sd_def st2_def Let_def)
  have "\<forall>x\<in>set ls. in_dag (dag_of st2) x \<and> committed_round (last_round st2) < c_round x \<and> c_round x mod 2 = 0"
    using Cons.prems(6,7) one(3,4) by auto
  hence "\<exists>b' st' oc cs. commit_leaders b1 st2 ls (acc @ [sd]) = Some (b', st', oc, cs) \<and> protocol_ok b' \<and>
    bs_committee b' = bs_committee b1 \<and> scores_ok (bs_committee b1) st'"
    using Cons.IH[of b1 st2 "acc @ [sd]"] up(2,3) sc one(1,2) Cons.prems(4,6) by simp
  thus ?case unfolding step using up(2,3) sc by (cases "ch \<and> ls \<noteq> []") auto
qed simp

lemma commit_leader_total:
  assumes "protocol_ok b" "rng_spec g" "scores_ok (bs_committee b) st" "state_inv S st" "output_inv st out"
    and "\<And>x. x \<in> S \<Longrightarrow> c_origin x \<in> members (bs_committee b)"
    and "in_dag (dag_of st) x" "c_round x = lr + 1" "lr mod 2 = 0" "2 \<le> lr" "committed_round (last_round st) < lr"
  shows "\<exists>b' st' oc cs. commit_leader g b st lr = Some (b', st', oc, cs) \<and> protocol_ok b' \<and>
    bs_committee b' = bs_committee b \<and> scores_ok (bs_committee b) st'"
proof -
  have wf: "dag_wf (dag_of st)" and org: "\<And>x. in_dag (dag_of st) x \<Longrightarrow> c_origin x \<in> members (bs_committee b)"
    using assms(4,6) by (auto simp: state_inv_def cstate_wf_def)
  obtain a o' where lc: "leader_certificate g (bs_schedule b) lr (dag_of st) = Some (a, o')"
    using assms(1,2,9) by (rule leader_certificate_total)
  obtain tbl where tbl: "map_of (dag_of st) (lr + 1) = Some tbl" using assms(7,8) by (auto simp: in_dag_def)
  show ?thesis
  proof (cases o')
    case None
    thus ?thesis using lc assms(1,3) by (simp add: commit_leader_def)
  next
    case (Some leader)
    note ld = leader_certificate_in_dag[OF wf lc[unfolded Some]]
    obtain ls where ls: "order_leaders g b st leader = Some ls"
      using order_leaders_total[OF assms(1,2) wf ld(1) _ _ _ org] ld(2) assms(9-11) by auto
    have chain: "leader_chain (dag_of st) ls"
      "\<And>x. x \<in> set ls \<Longrightarrow> committed_round (last_round st) < c_round x \<and> c_round x mod 2 = 0"
      using order_leaders_chain[OF ls wf ld(1)] ld(2) assms(10,11) by auto
    hence "\<forall>x\<in>set ls. in_dag (dag_of st) x \<and> committed_round (last_round st) < c_round x \<and> c_round x mod 2 = 0"
      using leader_chain_mem by blast
    hence "\<exists>b' st' oc cs. commit_leaders b st ls [] = Some (b', st', oc, cs) \<and> protocol_ok b' \<and>
        bs_committee b' = bs_committee b \<and> scores_ok (bs_committee b) st'"
      using commit_leaders_total[OF assms(1,3,4,6) _ leader_chain_sorted[OF chain(1)], of out "[]"] assms(5) by simp
    thus ?thesis using lc Some tbl ls assms(1,3) by (auto simp: commit_leader_def)
  qed
qed

lemma commit_loop_total:
  assumes "protocol_ok b" "rng_spec g" "scores_ok (bs_committee b) st" "state_inv S st" "output_inv st (out @ acc)"
    and "\<And>x. x \<in> S \<Longrightarrow> c_origin x \<in> members (bs_committee b)"
    and "in_dag (dag_of st) x" "c_round x = lr + 1" "lr mod 2 = 0" "2 \<le> lr" "committed_round (last_round st) < lr"
    and "lr < fuel + committed_round (last_round st)"
  shows "commit_loop fuel g b st lr acc \<noteq> None"
  using assms
proof (induction fuel arbitrary: b st acc)
  case (Suc fuel)
  obtain b1 st1 oc cs where c: "commit_leader g b st lr = Some (b1, st1, oc, cs)" "protocol_ok b1"
    "bs_committee b1 = bs_committee b" "scores_ok (bs_committee b) st1"
    using commit_leader_total[OF Suc.prems(1-11)] by blast
  note inv = commit_leader_inv[OF c(1) Suc.prems(4,5,10,11)]
  show ?case
  proof (cases "oc = ScheduleChanged")
    case True
    hence r: "committed_round (last_round st) < committed_round (last_round st1)" "committed_round (last_round st1) < lr"
      "in_dag (dag_of st1) x" using inv Suc.prems(7,8) by auto
    have "commit_loop fuel g b1 st1 lr (acc @ cs) \<noteq> None"
      using Suc.IH[of b1 st1 "acc @ cs"] c(2-4) inv r Suc.prems(2,6,8,9,10,12) by simp
    thus ?thesis using c(1) True by simp
  qed (use c(1) in simp)
qed simp

text \<open>Processing a certificate always returns.\<close>

lemma process_certificate_total:
  assumes "protocol_ok b" "rng_spec g" "scores_ok (bs_committee b) st" "state_inv S st" "output_inv st out" "x \<in> S"
    and "\<And>x. x \<in> S \<Longrightarrow> c_origin x \<in> members (bs_committee b)"
  shows "\<exists>b' st' r. process_certificate g b st x = Some (b', st', r)"
proof -
  obtain st1 ri where ti: "try_insert st x = (st1, ri)" by force
  show ?thesis
  proof (cases "ri = Inr True")
    case False
    thus ?thesis using ti by (cases ri) (auto simp: process_certificate_def)
  next
    case True
    have inv: "state_inv S st1" "output_inv st1 (out @ [])" "scores_ok (bs_committee b) st1"
      using state_inv_try_insert[OF ti assms(4,6)] output_inv_try_insert[OF ti assms(5)] try_insert_fields[OF ti] assms(3)
      by (auto simp: scores_ok_def)
    have ins: "in_dag (dag_of st1) x" "0 < c_round x"
      using ti True by (auto simp: try_insert_def try_insert_in_dag_def in_dag_put split: if_splits sum.splits option.splits)
    obtain b1 where b1: "report_leader_on_time g b (c_round x) = Some b1" "protocol_ok b1" "bs_committee b1 = bs_committee b"
    proof -
      have "schedule_leader g (bs_schedule b) (r - 2) \<noteq> None" if "r > 2" "even r" for r
        using that schedule_leader_total[OF assms(1,2), of "r - 2"] by fastforce
      note this[of "c_round x"]
      hence "report_leader_on_time g b (c_round x) = Some (b\<lparr> bs_max_inserted := max (bs_max_inserted b) (c_round x) \<rparr>)"
        by (auto simp: report_leader_on_time_def Let_def split: option.splits)
      thus ?thesis using that assms(1) by (simp add: protocol_ok_def)
    qed
    let ?r = "u32_sub (c_round x) 1"
    have r: "c_round x = ?r + 1" using ins(2) by (simp add: u32_sub_exact)
    have "commit_loop (Suc ?r) g b1 st1 ?r [] \<noteq> None"
      if "?r mod 2 = 0" "2 \<le> ?r" "committed_round (last_round st1) < ?r"
      using commit_loop_total[OF b1(2) assms(2) _ inv(1,2) _ ins(1) r that, of "Suc ?r"] inv(3) b1(3) assms(7)
      by (simp del: commit_loop.simps)
    thus ?thesis using ti True b1(1)
      by (cases "?r mod 2 = 0"; cases "2 \<le> ?r"; cases "committed_round (last_round st1) < ?r")
        (auto simp: process_certificate_def Let_def simp del: commit_loop.simps)
  qed
qed

end
