(* ===== verification/Bullshark_Agreement.thy ===== *)
theory Bullshark_Agreement
  imports Bullshark_Liveness
begin

text \<open>
  Agreement between validators. A leader that one validator commits with the support of a validity
  threshold is linked from every later certificate of any other validator, and two validators that
  order leaders from the same committed round with the same schedule obtain sequences of which one
  is a prefix of the other. The validators may hold different certificates of the same header (the
  sets of signatures may differ), so the sequences are compared by digest.
\<close>

section \<open>Paths\<close>

inductive path :: "dag \<Rightarrow> certificate \<Rightarrow> certificate \<Rightarrow> bool" for d x where
  root: "path d x x"
| step: "path d x y \<Longrightarrow> in_dag d z \<Longrightarrow> c_round z + 1 = c_round y \<Longrightarrow> cert_digest z \<in> set (c_parents y) \<Longrightarrow> path d x z"

inductive_cases path_cases: "path d x z"

lemma path_round: "path d x z \<Longrightarrow> c_round z \<le> c_round x"
  by (induction rule: path.induct) auto

lemma path_same_round: "path d x z \<Longrightarrow> c_round z = c_round x \<Longrightarrow> z = x"
  by (erule path_cases) (auto dest: path_round)

lemma path_trans:
  assumes "path d y z" "path d x y"
  shows "path d x z"
  using assms
proof (induction rule: path.induct)
  case (step y' z)
  show ?case using step.IH[OF step.prems] step.hyps(2-4) by (rule path.step)
qed

lemma path_in_dag: "path d x z \<Longrightarrow> in_dag d x \<Longrightarrow> in_dag d z"
  by (induction rule: path.induct) auto

lemma set_linked_step:
  assumes "dag_wf d"
  shows "set (linked_step d r ps) = {z. in_dag d z \<and> c_round z = r \<and> (\<exists>x\<in>set ps. cert_digest z \<in> set (c_parents x))}"
proof (cases "map_of d r")
  case None
  thus ?thesis by (auto simp: linked_step_def in_dag_def)
next
  case (Some tbl)
  have "z \<in> set (linked_step d r ps) \<longleftrightarrow> (\<exists>a g. (a, g, z) \<in> set tbl \<and> (\<exists>x\<in>set ps. g \<in> set (c_parents x)))" for z
    using Some by (force simp: linked_step_def list_ex_iff image_iff)
  thus ?thesis unfolding in_dag_iff_mem[OF assms Some] by blast
qed

lemma linked_fold:
  assumes "dag_wf d" "k \<le> c_round x"
  shows "set (fold (linked_step d) (rev [c_round x - k ..< c_round x]) [x]) = {z. path d x z \<and> c_round z = c_round x - k}"
  using assms(2)
proof (induction k)
  case 0
  thus ?case by (auto intro: path.root dest: path_same_round)
next
  case (Suc k)
  let ?lo = "c_round x - Suc k"
  have u: "[?lo ..< c_round x] = ?lo # [c_round x - k ..< c_round x]"
    using Suc.prems by (simp add: upt_conv_Cons Suc_diff_Suc)
  have down: "\<exists>y. path d x y \<and> c_round y = c_round x - k \<and> cert_digest z \<in> set (c_parents y) \<and> in_dag d z"
    if "path d x z" "c_round z = ?lo" for z
    using that(1)
  proof (cases rule: path.cases)
    case root
    thus ?thesis using that(2) Suc.prems by simp
  next
    case (step y)
    thus ?thesis using that(2) Suc.prems by (intro exI[of _ y]) simp
  qed
  have forth: "path d x z" if "in_dag d z" "c_round z = ?lo" "path d x y" "c_round y = c_round x - k" "cert_digest z \<in> set (c_parents y)" for y z
    using that Suc.prems by (intro path.step[OF that(3)]) simp_all
  have "path d x z \<and> c_round z = ?lo \<longleftrightarrow>
      in_dag d z \<and> c_round z = ?lo \<and> (\<exists>y. path d x y \<and> c_round y = c_round x - k \<and> cert_digest z \<in> set (c_parents y))" for z
    using down[of z] forth[of z] by metis
  moreover have "set (fold (linked_step d) (rev [?lo ..< c_round x]) [x]) = {z. in_dag d z \<and> c_round z = ?lo \<and>
      (\<exists>y\<in>set (fold (linked_step d) (rev [c_round x - k ..< c_round x]) [x]). cert_digest z \<in> set (c_parents y))}"
    unfolding u using set_linked_step[OF assms(1)] by simp
  moreover have "set (fold (linked_step d) (rev [c_round x - k ..< c_round x]) [x]) = {z. path d x z \<and> c_round z = c_round x - k}"
    using Suc by simp
  ultimately show ?case by (simp add: conj_assoc)
qed

text \<open>The walk over the rounds decides whether a path exists.\<close>

lemma linked_iff_path:
  assumes "dag_wf d" "c_round prev \<le> c_round x"
  shows "linked x prev d \<longleftrightarrow> (\<exists>z. path d x z \<and> cert_eq z prev)"
proof -
  have "linked x prev d \<longleftrightarrow> (\<exists>z. path d x z \<and> c_round z = c_round prev \<and> cert_eq z prev)"
    using linked_fold[OF assms(1), of "c_round x - c_round prev" x] assms(2) by (simp add: linked_def list_ex_iff)
  thus ?thesis by (auto simp: cert_eq_def)
qed

section \<open>Complete DAGs\<close>

text \<open>Above a round, the parents of every certificate of the DAG are in it.\<close>

definition dag_closed :: "round \<Rightarrow> dag \<Rightarrow> bool" where
  "dag_closed lo d = (\<forall>x p. in_dag d x \<and> lo < c_round x \<and> p \<in> set (c_parents x) \<longrightarrow>
     (\<exists>y. in_dag d y \<and> cert_digest y = p \<and> c_round y + 1 = c_round x))"

definition state_closed :: "cstate \<Rightarrow> bool" where
  "state_closed st = dag_closed (gc_round (last_round st) + 1) (dag_of st)"

text \<open>One header per author and round: what certificates of a committee with enough correct stake satisfy.\<close>

definition no_equivocation :: "certificate set \<Rightarrow> bool" where
  "no_equivocation S = (\<forall>x\<in>S. \<forall>y\<in>S. c_origin x = c_origin y \<and> c_round x = c_round y \<longrightarrow> cert_digest x = cert_digest y)"

lemma closed_put:
  assumes "dag_closed lo d" "no_equivocation S" "{y. in_dag d y} \<subseteq> S" "x \<in> S"
    and "lo < c_round x \<Longrightarrow> \<forall>p\<in>set (c_parents x). \<exists>y. in_dag d y \<and> cert_digest y = p \<and> c_round y + 1 = c_round x"
  shows "dag_closed lo (dag_put x d)"
proof -
  have keep: "\<exists>y'. in_dag (dag_put x d) y' \<and> cert_digest y' = cert_digest y \<and> c_round y' = c_round y" if y: "in_dag d y" for y
  proof (cases "c_round y = c_round x \<and> c_origin y = c_origin x")
    case True
    have "y \<in> S" using y assms(3) by blast
    hence "cert_digest y = cert_digest x"
      using assms(2)[unfolded no_equivocation_def, rule_format, of y x] assms(4) True by simp
    thus ?thesis using True by (intro exI[of _ x]) (simp add: in_dag_put)
  next
    case False
    show ?thesis by (rule exI[of _ y]) (use y False in \<open>simp add: in_dag_put\<close>)
  qed
  have par: "\<exists>z. in_dag d z \<and> cert_digest z = p \<and> c_round z + 1 = c_round y"
    if "y = x \<or> in_dag d y" "lo < c_round y" "p \<in> set (c_parents y)" for y p
    using that assms(5) assms(1)[unfolded dag_closed_def, rule_format, of y p] by fastforce
  show ?thesis unfolding dag_closed_def
  proof (intro allI impI, elim conjE)
    fix y p
    assume y: "in_dag (dag_put x d) y" "lo < c_round y" "p \<in> set (c_parents y)"
    hence "y = x \<or> in_dag d y" by (auto simp: in_dag_put)
    then obtain z where z: "in_dag d z" "cert_digest z = p" "c_round z + 1 = c_round y" using par y(2,3) by blast
    then obtain z' where "in_dag (dag_put x d) z'" "cert_digest z' = cert_digest z" "c_round z' = c_round z"
      using keep[OF z(1)] by blast
    thus "\<exists>z. in_dag (dag_put x d) z \<and> cert_digest z = p \<and> c_round z + 1 = c_round y" using z by auto
  qed
qed

lemma closed_try_insert:
  assumes "state_closed st" "state_inv S st" "no_equivocation S" "x \<in> S" "try_insert st x = (st', r)"
  shows "state_closed st'"
proof -
  have wf: "dag_wf (dag_of st)" and sub: "{y. in_dag (dag_of st) y} \<subseteq> S"
    using assms(2) by (auto simp: state_inv_def cstate_wf_def)
  obtain d where d: "try_insert_in_dag (dag_of st) (last_committed st) (gc_round (last_round st)) x True = (d, r)"
    "st' = st\<lparr> dag_of := d \<rparr>" using assms(5) by (auto simp: try_insert_def split: prod.splits)
  have "d = dag_of st \<or> d = dag_put x (dag_of st) \<and> check_parents x (dag_of st) (gc_round (last_round st)) = Inr ()"
    using d(1) by (auto simp: try_insert_in_dag_def split: if_splits sum.splits option.splits)
  hence "dag_closed (gc_round (last_round st) + 1) d"
  proof (elim disjE conjE)
    assume "check_parents x (dag_of st) (gc_round (last_round st)) = Inr ()" "d = dag_put x (dag_of st)"
    thus ?thesis
      using closed_put[OF assms(1)[unfolded state_closed_def] assms(3) sub assms(4)] check_parents_ok[OF wf, of x] by simp
  qed (use assms(1) state_closed_def in simp)
  thus ?thesis by (simp add: state_closed_def d(2))
qed

lemma dag_closed_mono: "dag_closed lo d \<Longrightarrow> lo \<le> hi \<Longrightarrow> dag_closed hi d"
  unfolding dag_closed_def by (meson le_less_trans)

lemma closed_retain:
  assumes "dag_closed lo d" "dag_wf d" "lo \<le> gc + 1"
  shows "dag_closed (gc + 1) (bt_retain (\<lambda>r _. r > gc) d)"
  unfolding dag_closed_def
proof (intro allI impI, elim conjE)
  fix x p
  assume "in_dag (bt_retain (\<lambda>r _. r > gc) d) x" "gc + 1 < c_round x" "p \<in> set (c_parents x)"
  moreover from this have "in_dag d x" using assms(2) by (simp add: in_dag_retain)
  ultimately obtain y where "in_dag d y" "cert_digest y = p" "c_round y + 1 = c_round x"
    using dag_closed_mono[OF assms(1,3)] unfolding dag_closed_def by blast
  thus "\<exists>y. in_dag (bt_retain (\<lambda>r _. r > gc) d) y \<and> cert_digest y = p \<and> c_round y + 1 = c_round x"
    using \<open>gc + 1 < c_round x\<close> assms(2) by (intro exI[of _ y]) (simp add: in_dag_retain)
qed

lemma closed_update:
  assumes "state_closed st" "cstate_wf st"
  shows "state_closed (state_update x st)"
proof -
  have "gc_round (last_round st) + 1 \<le> gc_round (last_round (state_update x st)) + 1" "dag_wf (dag_of st)"
    using assms(2) by (auto simp: cstate_wf_def calc_gc_round_def)
  hence "dag_closed (gc_round (last_round (state_update x st)) + 1) (bt_retain (\<lambda>r _. r > gc_round (last_round (state_update x st))) (dag_of st))"
    using assms(1) unfolding state_closed_def by (intro closed_retain) auto
  thus ?thesis by (simp add: state_closed_def state_update_def Let_def)
qed

definition closed_wf :: "cstate \<Rightarrow> bool" where
  "closed_wf st = (cstate_wf st \<and> state_closed st)"

lemma closed_wf_fold: "closed_wf st \<Longrightarrow> closed_wf (fold state_update seq st)"
  by (induction seq arbitrary: st) (auto simp: closed_wf_def closed_update cstate_wf_update)

lemma closed_wf_sub_dag [simp]: "closed_wf (st\<lparr> last_committed_sub_dag := l \<rparr>) = closed_wf st"
  by (simp add: closed_wf_def cstate_wf_def state_closed_def)

lemma commit_leaders_closed:
  "commit_leaders b st ls acc = Some (b', st', oc, cs) \<Longrightarrow> closed_wf st \<Longrightarrow> closed_wf st'"
proof (induction ls arbitrary: b st acc)
  case (Cons l ls)
  obtain seq where seq: "order_dag l st = Some seq" using Cons.prems(1) by (auto split: option.splits)
  obtain rs where rs: "resolve_reputation_score b (fold state_update seq st) seq (unat (header_nonce (c_header l))) = Some rs"
    using Cons.prems(1) seq by (auto simp: Let_def split: option.splits)
  obtain b1 ch where up: "update_leader_schedule b (c_round l) rs = Some (b1, ch)"
    using Cons.prems(1) seq rs by (auto simp: Let_def split: option.splits)
  show ?case using Cons.prems seq rs up closed_wf_fold[OF Cons.prems(2), of seq] Cons.IH[of b1]
    by (auto simp: Let_def split: if_splits)
qed simp

lemma commit_loop_closed:
  "commit_loop fuel g b st lr acc = Some (b', st', oc, cs) \<Longrightarrow> closed_wf st \<Longrightarrow> closed_wf st'"
proof (induction fuel arbitrary: b st acc)
  case (Suc fuel)
  obtain b1 st1 oc1 cs1 where c: "commit_leader g b st lr = Some (b1, st1, oc1, cs1)"
    using Suc.prems(1) by (auto split: option.splits)
  have "closed_wf st1" using c Suc.prems(2) commit_leaders_closed
    by (auto simp: commit_leader_def split: option.splits if_splits)
  thus ?case using Suc.prems(1) c Suc.IH[of b1 st1] by (auto split: if_splits)
qed simp

text \<open>Processing certificates of a set without equivocation keeps the DAG closed.\<close>

lemma process_certificate_closed:
  assumes "process_certificate g b st x = Some (b', st', r)" "state_inv S st" "state_closed st" "no_equivocation S" "x \<in> S"
  shows "state_closed st'"
proof -
  obtain st1 ri where ti: "try_insert st x = (st1, ri)" by force
  have "closed_wf st1" using closed_try_insert[OF assms(3,2,4,5) ti] state_inv_try_insert[OF ti assms(2,5)]
    by (simp add: closed_wf_def state_inv_def)
  thus ?thesis using process_certificate_cases[OF assms(1) ti] commit_loop_closed closed_wf_def by metis
qed

lemma run_closed:
  assumes "(run_step S g)\<^sup>*\<^sup>* s t" "run_inv S s" "state_closed (fst (snd s))" "no_equivocation S"
  shows "state_closed (fst (snd t))"
  using assms(1-3)
proof (induction rule: rtranclp_induct)
  case (step t u)
  have "run_inv S t" using run.inv_steps[OF step(1)] step(4) by simp
  from step(2) this show ?case using step(3,4,5) assms(4)
    by (cases rule: run_step.cases) (auto simp: run_inv_def intro: process_certificate_closed)
qed

section \<open>Supported leaders are linked\<close>

text \<open>
  Every certificate above the first round names parents of the previous round with a quorum of
  voting power: the check of the voters on the header.
\<close>

definition parent_origins :: "certificate set \<Rightarrow> certificate \<Rightarrow> authority_id set" where
  "parent_origins S x = {c_origin y |y. y \<in> S \<and> cert_digest y \<in> set (c_parents x) \<and> c_round y + 1 = c_round x}"

definition parents_quorum :: "committee \<Rightarrow> certificate set \<Rightarrow> bool" where
  "parents_quorum c S = (\<forall>x\<in>S. 1 < c_round x \<longrightarrow> parent_origins S x \<subseteq> members c \<and>
     quorum_threshold c \<le> sum (voting_power_by_id c) (parent_origins S x))"

definition supporters :: "dag \<Rightarrow> certificate \<Rightarrow> authority_id set" where
  "supporters d leader = {c_origin y |y. in_dag d y \<and> c_round y = c_round leader + 1 \<and> cert_digest leader \<in> set (c_parents y)}"

lemma leader_support_sum:
  assumes "dag_wf d" "committee_wf c" "power_fits c" "map_of d (c_round leader + 1) = Some tbl"
    and "\<And>x. in_dag d x \<Longrightarrow> c_origin x \<in> members c"
  shows "leader_support c leader tbl = sum (voting_power_by_id c) (supporters d leader)"
proof -
  let ?es = "filter (\<lambda>e. cert_digest leader \<in> set (c_parents (snd (snd e)))) tbl"
  have wf: "table_wf (c_round leader + 1) tbl" using assms(1,4) by (rule dag_wf_get)
  have keys: "c_origin (snd (snd e)) = fst e" if "e \<in> set tbl" for e using wf that by (auto simp: table_wf_def)
  have d: "distinct (map fst ?es)" using wf by (simp add: table_wf_def distinct_map_filter)
  have m: "map (\<lambda>e. voting_power_by_id c (c_origin (snd (snd e)))) ?es = map (voting_power_by_id c) (map fst ?es)"
    using keys by simp
  have s: "set (map fst ?es) = supporters d leader"
    unfolding supporters_def using in_dag_iff_mem[OF assms(1,4)] by force
  have "sum_list (map (voting_power_by_id c) (map fst ?es)) = sum (voting_power_by_id c) (supporters d leader)"
    using sum_list_distinct_conv_sum_set[OF d, of "voting_power_by_id c"] s by simp
  moreover have "sum (voting_power_by_id c) (supporters d leader) \<le> total_power c"
    unfolding total_power_def using assms(5) by (intro sum_mono2) (auto simp: supporters_def members_def)
  ultimately show ?thesis unfolding leader_support_def m
    using assms(3) total_power_sum_list[OF assms(2)] u64_sum_exact by (auto simp: power_fits_def)
qed

text \<open>The certificates that validators exchange: the universe of a run of the committee.\<close>

definition cert_universe :: "committee \<Rightarrow> certificate set \<Rightarrow> bool" where
  "cert_universe c S =
     (committee_wf c \<and> power_fits c \<and> collision_free S \<and> no_equivocation S \<and> parents_quorum c S \<and>
      (\<forall>x\<in>S. c_origin x \<in> members c))"

lemma universe_header: "cert_universe c S \<Longrightarrow> x \<in> S \<Longrightarrow> y \<in> S \<Longrightarrow> cert_digest x = cert_digest y \<Longrightarrow> c_header x = c_header y"
  unfolding cert_universe_def collision_free_def by blast

lemma universe_slot:
  "cert_universe c S \<Longrightarrow> x \<in> S \<Longrightarrow> y \<in> S \<Longrightarrow> c_origin x = c_origin y \<Longrightarrow> c_round x = c_round y \<Longrightarrow> c_header x = c_header y"
  using universe_header[of c S x y] unfolding cert_universe_def no_equivocation_def by blast

lemma universe_quorum:
  assumes "cert_universe c S" "x \<in> S" "1 < c_round x"
  shows "parent_origins S x \<subseteq> members c" "quorum_threshold c \<le> sum (voting_power_by_id c) (parent_origins S x)"
  using assms unfolding cert_universe_def parents_quorum_def by blast+

lemma universe_origin: "cert_universe c S \<Longrightarrow> x \<in> S \<Longrightarrow> c_origin x \<in> members c"
  unfolding cert_universe_def by blast

definition view :: "certificate set \<Rightarrow> round \<Rightarrow> dag \<Rightarrow> bool" where
  "view S lo d = (dag_wf d \<and> dag_closed lo d \<and> {x. in_dag d x} \<subseteq> S)"

lemma view_mem: "view S lo d \<Longrightarrow> in_dag d x \<Longrightarrow> x \<in> S"
  by (auto simp: view_def)

lemma view_parent:
  assumes "view S lo d" "in_dag d x" "lo < c_round x" "p \<in> set (c_parents x)"
  obtains y where "in_dag d y" "cert_digest y = p" "c_round y + 1 = c_round x" "path d x y"
proof -
  obtain y where y: "in_dag d y" "cert_digest y = p" "c_round y + 1 = c_round x"
    using assms unfolding view_def dag_closed_def by blast
  have "path d x y" using y assms(4) by (intro path.step[OF path.root]) auto
  thus ?thesis using that y by blast
qed

lemma supported_parent:
  assumes "cert_universe c S" "view S lo1 d1" "view S lo d2" "lo \<le> c_round L"
    and "validity_threshold c \<le> sum (voting_power_by_id c) (supporters d1 L)"
    and "in_dag d2 x" "c_round x = c_round L + 2"
  obtains z where "path d2 x z" "cert_digest z = cert_digest L" "c_round z = c_round L"
proof -
  have xS: "x \<in> S" by (rule view_mem[OF assms(3,6)])
  have q: "parent_origins S x \<subseteq> members c" "quorum_threshold c \<le> sum (voting_power_by_id c) (parent_origins S x)"
    using universe_quorum[OF assms(1) xS] assms(7) by simp_all
  have sup: "supporters d1 L \<subseteq> members c"
    unfolding supporters_def using universe_origin[OF assms(1)] view_mem[OF assms(2)] by blast
  have "parent_origins S x \<inter> supporters d1 L \<noteq> {}"
    by (rule cq.quorum_meets_validity[OF _ q(1) sup q(2) assms(5)]) (use assms(1) cert_universe_def in blast)
  then obtain a where a: "a \<in> parent_origins S x" "a \<in> supporters d1 L" by blast
  obtain y where y: "y \<in> S" "cert_digest y \<in> set (c_parents x)" "c_round y + 1 = c_round x" "c_origin y = a"
    using a(1) unfolding parent_origins_def by blast
  obtain y1 where y1: "in_dag d1 y1" "c_round y1 = c_round L + 1" "cert_digest L \<in> set (c_parents y1)" "a = c_origin y1"
    using a(2) unfolding supporters_def by blast
  obtain y2 where y2: "in_dag d2 y2" "cert_digest y2 = cert_digest y" "c_round y2 + 1 = c_round x" "path d2 x y2"
    by (rule view_parent[OF assms(3,6) _ y(2)]) (use assms(4,7) in simp)
  have "c_header y2 = c_header y" by (rule universe_header[OF assms(1) view_mem[OF assms(3) y2(1)] y(1) y2(2)])
  moreover have "c_header y1 = c_header y"
    using universe_slot[OF assms(1) view_mem[OF assms(2) y1(1)] y(1)] y1(2,4) y(4) y(3) assms(7) by simp
  ultimately have L: "cert_digest L \<in> set (c_parents y2)" using y1(3) by simp
  obtain z where z: "cert_digest z = cert_digest L" "c_round z + 1 = c_round y2" "path d2 y2 z"
    by (rule view_parent[OF assms(3) y2(1) _ L]) (use assms(4,7) y2(3) in simp)
  show ?thesis using that[OF path_trans[OF z(3) y2(4)] z(1)] z(2) y2(3) assms(7) by simp
qed

lemma quorum_parent:
  assumes "cert_universe c S" "view S lo d" "in_dag d x" "lo < c_round x" "1 < c_round x"
  obtains y where "in_dag d y" "c_round y + 1 = c_round x" "path d x y"
proof -
  have "quorum_threshold c \<le> sum (voting_power_by_id c) (parent_origins S x)"
    by (rule universe_quorum(2)[OF assms(1) view_mem[OF assms(2,3)] assms(5)])
  moreover have "0 < quorum_threshold c" using assms(1) quorum_threshold_eq by (simp add: cert_universe_def)
  ultimately have "parent_origins S x \<noteq> {}" by auto
  then obtain y where "cert_digest y \<in> set (c_parents x)" unfolding parent_origins_def by blast
  thus ?thesis by (rule view_parent[OF assms(2-4)]) (rule that)
qed

text \<open>
  A leader with the support of a validity threshold in one view is reached from every certificate
  at least two rounds above it in every other view.
\<close>

lemma supported_leader_reached:
  assumes "cert_universe c S" "view S lo1 d1" "view S lo d2" "lo \<le> c_round L"
    and "validity_threshold c \<le> sum (voting_power_by_id c) (supporters d1 L)"
    and "in_dag d2 x" "c_round x = c_round L + 2 + k"
  shows "\<exists>z. path d2 x z \<and> cert_digest z = cert_digest L \<and> c_round z = c_round L"
  using assms(6,7)
proof (induction k arbitrary: x)
  case 0
  hence "c_round x = c_round L + 2" by simp
  thus ?case by (rule supported_parent[OF assms(1-5) 0(1)]) blast
next
  case (Suc k)
  obtain y where y: "in_dag d2 y" "c_round y + 1 = c_round x" "path d2 x y"
    by (rule quorum_parent[OF assms(1,3) Suc.prems(1)]) (use Suc.prems(2) assms(4) in simp_all)
  hence "c_round y = c_round L + 2 + k" using Suc.prems by simp
  thus ?case using Suc.IH[OF y(1)] path_trans[OF _ y(3)] by blast
qed

section \<open>Agreement on the leaders\<close>

lemma path_transfer:
  assumes "path d1 x z" "cert_universe c S" "view S lo1 d1" "view S lo d2" "in_dag d1 x" "in_dag d2 x'"
    and "c_header x = c_header x'" "lo \<le> c_round z"
  shows "\<exists>z'. path d2 x' z' \<and> in_dag d2 z' \<and> c_header z' = c_header z"
  using assms(1,8)
proof (induction rule: path.induct)
  case root
  show ?case by (rule exI[of _ x']) (simp add: assms(6,7) path.root)
next
  case (step y z)
  have "lo \<le> c_round y" using step(3,6) by simp
  then obtain y' where y': "path d2 x' y'" "in_dag d2 y'" "c_header y' = c_header y" using step(5) by blast
  have "lo < c_round y'" "cert_digest z \<in> set (c_parents y')" using y'(3) step(3,4,6) by simp_all
  then obtain z' where z': "in_dag d2 z'" "cert_digest z' = cert_digest z" "path d2 y' z'"
    using view_parent[OF assms(4) y'(2)] by metis
  have "c_header z' = c_header z"
    by (rule universe_header[OF assms(2) view_mem[OF assms(4) z'(1)] view_mem[OF assms(3) step(2)] z'(2)])
  thus ?case using z' path_trans[OF z'(3) y'(1)] by blast
qed

text \<open>The next leader that the walk from a leader takes at a round, if any.\<close>

definition next_leader :: "rng \<Rightarrow> bullshark \<Rightarrow> dag \<Rightarrow> certificate \<Rightarrow> round \<Rightarrow> certificate option" where
  "next_leader g b d x r =
     (case leader_certificate g (bs_schedule b) r d of
        Some (_, Some p) \<Rightarrow> if linked x p d then Some p else None
      | _ \<Rightarrow> None)"

lemma order_leaders_loop_next:
  assumes "order_leaders_loop g b d (r # rs) x acc = Some ls"
  shows "case next_leader g b d x r of
      None \<Rightarrow> order_leaders_loop g b d rs x acc = Some ls
    | Some p \<Rightarrow> order_leaders_loop g b d rs p (p # acc) = Some ls"
    and "schedule_leader g (bs_schedule b) r \<noteq> None"
  using assms by (auto simp: next_leader_def leader_certificate_def split: option.splits if_splits)

lemma next_leader_Some:
  assumes "dag_wf d" "next_leader g b d x r = Some p"
  shows "in_dag d p \<and> c_round p = r \<and> linked x p d \<and> (\<exists>l. schedule_leader g (bs_schedule b) r = Some l \<and> auth_id l = c_origin p)"
proof -
  obtain l tbl gd where "schedule_leader g (bs_schedule b) r = Some l" "map_of d r = Some tbl" "map_of tbl (auth_id l) = Some (gd, p)"
    "linked x p d" using assms(2) by (auto simp: next_leader_def leader_certificate_def split: option.splits if_splits)
  thus ?thesis using table_wf_get[OF dag_wf_get[OF assms(1)]] by (fastforce simp: in_dag_def)
qed

lemma next_leader_intro:
  assumes "in_dag d p" "linked x p d" "schedule_leader g (bs_schedule b) (c_round p) = Some l" "auth_id l = c_origin p"
  shows "next_leader g b d x (c_round p) = Some p"
  using assms by (auto simp: next_leader_def leader_certificate_def in_dag_def)

lemma next_leader_transfer:
  assumes "next_leader g b d1 x r = Some p" "cert_universe c S" "view S lo1 d1" "view S lo d2" "in_dag d1 x" "in_dag d2 x'"
    and "c_header x = c_header x'" "lo \<le> r" "r \<le> c_round x"
  shows "\<exists>p'. next_leader g b d2 x' r = Some p' \<and> c_header p' = c_header p"
proof -
  have wf: "dag_wf d1" "dag_wf d2" using assms(3,4) by (simp_all add: view_def)
  obtain l where p: "in_dag d1 p" "c_round p = r" "linked x p d1" "schedule_leader g (bs_schedule b) r = Some l" "auth_id l = c_origin p"
    using next_leader_Some[OF wf(1) assms(1)] by blast
  have "c_round p \<le> c_round x" using p(2) assms(9) by simp
  then obtain z where z: "path d1 x z" "cert_eq z p" using linked_iff_path[OF wf(1)] p(3) by blast
  have zp: "c_header z = c_header p"
    by (rule universe_header[OF assms(2) view_mem[OF assms(3) path_in_dag[OF z(1) assms(5)]] view_mem[OF assms(3) p(1)] cert_eq_digest[OF z(2)]])
  have "lo \<le> c_round z" using zp p(2) assms(8) by simp
  then obtain p' where p': "path d2 x' p'" "in_dag d2 p'" "c_header p' = c_header p"
    using path_transfer[OF z(1) assms(2-7)] zp by metis
  have "linked x' p' d2"
    unfolding linked_iff_path[OF wf(2) path_round[OF p'(1)]] using p'(1) cert_eq_refl by blast
  hence "next_leader g b d2 x' (c_round p') = Some p'"
    using p(2,4,5) p'(3) by (intro next_leader_intro[OF p'(2)]) simp_all
  thus ?thesis using p'(3) p(2) by auto
qed

lemma order_leaders_loop_agree:
  assumes "cert_universe c S" "view S lo d1" "view S lo d2"
    and "order_leaders_loop g b d1 rs x acc1 = Some ls1" "order_leaders_loop g b d2 rs x' acc2 = Some ls2"
    and "in_dag d1 x" "in_dag d2 x'" "c_header x = c_header x'" "\<forall>r\<in>set rs. lo \<le> r \<and> r < c_round x" "sorted_wrt (>) rs"
  shows "\<exists>pre. map cert_digest ls1 = pre @ map cert_digest acc1 \<and> map cert_digest ls2 = pre @ map cert_digest acc2"
  using assms(4-10)
proof (induction rs arbitrary: x x' acc1 acc2)
  case (Cons r rs)
  have r: "lo \<le> r" "r \<le> c_round x" "r \<le> c_round x'" using Cons.prems(5,6) by auto
  note tr = next_leader_transfer[OF _ assms(1,2,3) Cons.prems(3,4,5) r(1,2)]
    next_leader_transfer[OF _ assms(1,3,2) Cons.prems(4,3) Cons.prems(5)[symmetric] r(1,3)]
  show ?case
  proof (cases "next_leader g b d1 x r")
    case None
    hence "next_leader g b d2 x' r = None" using tr(2)[of g b] by (cases "next_leader g b d2 x' r") simp_all
    thus ?thesis using None order_leaders_loop_next(1)[OF Cons.prems(1)] order_leaders_loop_next(1)[OF Cons.prems(2)]
      Cons.IH Cons.prems(3-7) by simp
  next
    case (Some p)
    then obtain p' where p': "next_leader g b d2 x' r = Some p'" "c_header p' = c_header p" using tr(1) by blast
    have ps: "in_dag d1 p" "c_round p = r" "in_dag d2 p'"
      using next_leader_Some[OF _ Some] next_leader_Some[OF _ p'(1)] assms(2,3) by (auto simp: view_def)
    obtain pre where "map cert_digest ls1 = pre @ map cert_digest (p # acc1) \<and> map cert_digest ls2 = pre @ map cert_digest (p' # acc2)"
      using order_leaders_loop_next(1)[OF Cons.prems(1)] order_leaders_loop_next(1)[OF Cons.prems(2)] Some p' Cons.prems(6,7) ps
        Cons.IH[of p "p # acc1" p' "p' # acc2"] by auto
    moreover have "cert_digest p' = cert_digest p" using p'(2) by (simp add: cert_digest_def)
    ultimately show ?thesis by (intro exI[of _ "pre @ [cert_digest p]"]) simp
  qed
qed simp

lemma rounds_down_step: "lo \<le> h + 2 \<Longrightarrow> rounds_down lo (h + 2) = (h + 2) # rounds_down lo h"
proof (cases "lo \<le> h")
  case True
  hence "(h + 2 - lo) div 2 + 1 = Suc ((h - lo) div 2 + 1)" by presburger
  thus ?thesis using True by (simp add: rounds_down_def upt_conv_Cons map_Suc_upt[symmetric] del: upt_Suc map_Suc_upt)
next
  case False
  assume "lo \<le> h + 2"
  hence "(h + 2 - lo) div 2 = 0" using False by presburger
  thus ?thesis using False \<open>lo \<le> h + 2\<close> by (simp add: rounds_down_def)
qed

lemma rounds_down_split:
  "lo \<le> a \<Longrightarrow> 2 \<le> a \<Longrightarrow> rounds_down lo (a + 2 * k) = rounds_down (a + 2) (a + 2 * k) @ a # rounds_down lo (a - 2)"
proof (induction k)
  case 0
  have "a - 2 + 2 = a" using 0 by simp
  moreover have "rounds_down (a + 2) a = []" by (simp add: rounds_down_def)
  ultimately show ?case using rounds_down_step[of lo "a - 2"] 0 by simp
next
  case (Suc k)
  have h: "a + 2 * Suc k = a + 2 * k + 2" by simp
  show ?case unfolding h using Suc rounds_down_step[of lo "a + 2 * k"] rounds_down_step[of "a + 2" "a + 2 * k"] by simp
qed

lemma order_leaders_loop_append:
  "order_leaders_loop g b d (rs @ rs') x acc =
     (case order_leaders_loop g b d rs x acc of
        None \<Rightarrow> None
      | Some acc' \<Rightarrow> order_leaders_loop g b d rs' (hd acc') acc')" if "acc \<noteq> []" "hd acc = x"
  using that by (induction rs arbitrary: x acc) (auto split: option.splits)

lemma leader_certificate_elected:
  assumes "dag_wf d" "leader_certificate g ls r d = Some (l, Some x)"
  shows "in_dag d x \<and> c_round x = r \<and> c_origin x = auth_id l \<and> schedule_leader g ls r = Some l"
proof -
  obtain tbl gd where "schedule_leader g ls r = Some l" "map_of d r = Some tbl" "map_of tbl (auth_id l) = Some (gd, x)"
    using assms(2) by (auto simp: leader_certificate_def split: option.splits)
  thus ?thesis using table_wf_get[OF dag_wf_get[OF assms(1)]] by (fastforce simp: in_dag_def)
qed

text \<open>
  A supported leader of one view is an element of the walk of any later leader of another view, and
  what the walk finds below it is what the first view finds.
\<close>

lemma loop_agree_above:
  assumes "cert_universe c S" "view S lo d1" "view S lo d2" "lo \<le> lo'" "lo' \<le> c_round A1" "2 \<le> c_round A1"
    and "validity_threshold c \<le> sum (voting_power_by_id c) (supporters d1 A1)"
    and "in_dag d1 A1" "schedule_leader g (bs_schedule b) (c_round A1) = Some l" "c_origin A1 = auth_id l"
    and "in_dag d2 A2" "c_round A2 = c_round A1 + 2 * k + 2"
    and "order_leaders_loop g b d1 (rounds_down lo' (c_round A1 - 2)) A1 [A1] = Some ls1"
    and "order_leaders_loop g b d2 (rounds_down lo' (c_round A2 - 2)) A2 [A2] = Some ls2"
  shows "\<exists>rest. map cert_digest ls2 = map cert_digest ls1 @ rest"
proof -
  let ?a = "c_round A1" and ?low = "rounds_down lo' (c_round A1 - 2)"
  have wf: "dag_wf d1" "dag_wf d2" using assms(2,3) by (simp_all add: view_def)
  have rs: "rounds_down lo' (c_round A2 - 2) = rounds_down (?a + 2) (?a + 2 * k) @ ?a # ?low"
    using rounds_down_split[OF assms(5,6), of k] assms(12) by simp
  obtain acc where acc: "order_leaders_loop g b d2 (rounds_down (?a + 2) (?a + 2 * k)) A2 [A2] = Some acc"
    and low: "order_leaders_loop g b d2 (?a # ?low) (hd acc) acc = Some ls2"
    using assms(14) unfolding rs by (auto simp: order_leaders_loop_append split: option.splits)
  have "\<forall>r\<in>set (rounds_down (?a + 2) (?a + 2 * k)). r < c_round A2 \<and> ?a + 2 \<le> r"
    using rounds_down_bounds assms(12) by fastforce
  hence chain: "leader_chain d2 acc" "acc \<noteq> []" "\<forall>x\<in>set acc. ?a + 2 \<le> c_round x"
    using order_leaders_loop_chain[OF acc wf(2) rounds_down_sorted, of "\<lambda>r. ?a + 2 \<le> r"] assms(11,12) by simp_all
  have hd: "in_dag d2 (hd acc)" "?a + 2 \<le> c_round (hd acc)" using chain leader_chain_mem hd_in_set by auto
  have "c_round (hd acc) = ?a + 2 + (c_round (hd acc) - (?a + 2))" "lo \<le> ?a" using hd(2) assms(4,5) by simp_all
  then obtain z where z: "path d2 (hd acc) z" "cert_digest z = cert_digest A1" "c_round z = ?a"
    using supported_leader_reached[OF assms(1,2,3) _ assms(7) hd(1)] by blast
  have zd: "in_dag d2 z" using path_in_dag[OF z(1) hd(1)] .
  have zh: "c_header z = c_header A1"
    by (rule universe_header[OF assms(1) view_mem[OF assms(3) zd] view_mem[OF assms(2,8)] z(2)])
  have "linked (hd acc) z d2"
    unfolding linked_iff_path[OF wf(2) path_round[OF z(1)]] using z(1) cert_eq_refl by blast
  hence "next_leader g b d2 (hd acc) ?a = Some z"
    using next_leader_intro[OF zd, of "hd acc" g b l] assms(9,10) zh by simp
  hence "order_leaders_loop g b d2 ?low z (z # acc) = Some ls2" using order_leaders_loop_next(1)[OF low] by simp
  moreover have "\<forall>r\<in>set ?low. lo \<le> r \<and> r < ?a" using rounds_down_bounds assms(4,6) by fastforce
  ultimately obtain pre where "map cert_digest ls1 = pre @ [cert_digest A1]" "map cert_digest ls2 = pre @ cert_digest z # map cert_digest acc"
    using order_leaders_loop_agree[OF assms(1,2,3,13) _ assms(8) zd zh[symmetric] _ rounds_down_sorted] by fastforce
  thus ?thesis using z(2) by simp
qed

text \<open>
  Two validators with the same schedule and the same committed round: the leaders that the first
  commits with a supported leader are the first leaders that the second commits with any leader at
  the same round or later.
\<close>

lemma state_view: "state_inv S st \<Longrightarrow> state_closed st \<Longrightarrow> gc_round (last_round st) + 1 \<le> lo \<Longrightarrow> view S lo (dag_of st)"
  by (auto simp: state_inv_def cstate_wf_def view_def state_closed_def intro: dag_closed_mono)

lemma state_inv_gc: "state_inv S st \<Longrightarrow> gc_round (last_round st) \<le> committed_round (last_round st)"
  by (simp add: state_inv_def cstate_wf_def calc_gc_round_def)

lemma order_leaders_loop_of:
  assumes "order_leaders g b st A = Some ls" "2 \<le> c_round A"
  shows "order_leaders_loop g b (dag_of st) (rounds_down (committed_round (last_round st) + 2) (c_round A - 2)) A [A] = Some ls"
    and "c_round A mod 2 = 0"
  using assms by (auto simp: order_leaders_def u32_sub_exact split: if_splits option.splits)

lemma leaders_prefix_core:
  assumes "cert_universe (bs_committee b) S" "state_inv S st1" "state_closed st1" "state_inv S st2" "state_closed st2"
    and "committed_round (last_round st1) = committed_round (last_round st2)" "committed_round (last_round st1) < r1" "r1 \<le> r2"
    and e1: "in_dag (dag_of st1) A1" "c_round A1 = r1" "c_origin A1 = auth_id l1" "schedule_leader g (bs_schedule b) r1 = Some l1"
    and e2: "in_dag (dag_of st2) A2" "c_round A2 = r2" "c_origin A2 = auth_id l2" "schedule_leader g (bs_schedule b) r2 = Some l2"
    and sup: "validity_threshold (bs_committee b) \<le> sum (voting_power_by_id (bs_committee b)) (supporters (dag_of st1) A1)"
    and ol: "order_leaders g b st1 A1 = Some ls1" "order_leaders g b st2 A2 = Some ls2"
    and even: "committed_round (last_round st1) mod 2 = 0"
  shows "\<exists>rest. map cert_digest ls2 = map cert_digest ls1 @ rest"
proof -
  let ?cr = "committed_round (last_round st1)" and ?c = "bs_committee b"
  have v: "view S (?cr + 1) (dag_of st1)" "view S (?cr + 1) (dag_of st2)"
    using state_view assms(2-6) state_inv_gc[OF assms(2)] state_inv_gc[OF assms(4)] by auto
  have par: "r1 mod 2 = 0" "r2 mod 2 = 0" using ol e1(2) e2(2) by (auto simp: order_leaders_def split: if_splits)
  have two: "2 \<le> r1" "2 \<le> r2" using par(1) assms(7,8) by presburger+
  have o1: "order_leaders_loop g b (dag_of st1) (rounds_down (?cr + 2) (r1 - 2)) A1 [A1] = Some ls1"
    using order_leaders_loop_of(1)[OF ol(1)] e1(2) two by simp
  have o2: "order_leaders_loop g b (dag_of st2) (rounds_down (?cr + 2) (r2 - 2)) A2 [A2] = Some ls2"
    using order_leaders_loop_of(1)[OF ol(2)] e2(2) two assms(6) by simp
  show ?thesis
  proof (cases "r1 = r2")
    case True
    have h: "c_header A1 = c_header A2"
      using universe_slot[OF assms(1) view_mem[OF v(1) e1(1)] view_mem[OF v(2) e2(1)]] e1 e2 True by simp
    have "\<forall>r\<in>set (rounds_down (?cr + 2) (r1 - 2)). ?cr + 1 \<le> r \<and> r < c_round A1"
      using rounds_down_bounds e1(2) two by fastforce
    then obtain pre where "map cert_digest ls1 = pre @ [cert_digest A1]" "map cert_digest ls2 = pre @ [cert_digest A2]"
      using order_leaders_loop_agree[OF assms(1) v o1 o2[folded True] e1(1) e2(1) h _ rounds_down_sorted] by auto
    thus ?thesis using h by (simp add: cert_digest_def)
  next
    case False
    hence "r2 = r1 + 2 * ((r2 - r1) div 2 - 1) + 2" using assms(8) par by presburger
    then obtain k where k: "r2 = r1 + 2 * k + 2" by blast
    have "?cr + 2 \<le> r1" using assms(7) even par(1) by presburger
    thus ?thesis
      using loop_agree_above[OF assms(1) v, of "?cr + 2" A1 g b l1 A2 k ls1 ls2] o1 o2 e1 e2 k two sup by simp
  qed
qed

lemma leaders_prefix:
  assumes "cert_universe (bs_committee b) S" "state_inv S st1" "state_closed st1" "state_inv S st2" "state_closed st2"
    and "committed_round (last_round st1) = committed_round (last_round st2)" "committed_round (last_round st1) < r1" "r1 \<le> r2"
    and "leader_certificate g (bs_schedule b) r1 (dag_of st1) = Some (l1, Some A1)"
    and "leader_certificate g (bs_schedule b) r2 (dag_of st2) = Some (l2, Some A2)"
    and "map_of (dag_of st1) (r1 + 1) = Some tbl" "validity_threshold (bs_committee b) \<le> leader_support (bs_committee b) A1 tbl"
    and "order_leaders g b st1 A1 = Some ls1" "order_leaders g b st2 A2 = Some ls2"
    and "committed_round (last_round st1) mod 2 = 0"
  shows "\<exists>rest. map cert_digest ls2 = map cert_digest ls1 @ rest"
proof -
  have wf: "dag_wf (dag_of st1)" "dag_wf (dag_of st2)" using assms(2,4) by (simp_all add: state_inv_def cstate_wf_def)
  have "\<And>x. in_dag (dag_of st1) x \<Longrightarrow> c_origin x \<in> members (bs_committee b)"
    using assms(2) universe_origin[OF assms(1)] by (auto simp: state_inv_def)
  hence "validity_threshold (bs_committee b) \<le> sum (voting_power_by_id (bs_committee b)) (supporters (dag_of st1) A1)"
    using leader_support_sum[OF wf(1), of "bs_committee b" A1 tbl] assms(1,11,12) leader_certificate_elected[OF wf(1) assms(9)]
    by (simp add: cert_universe_def)
  thus ?thesis
    using leaders_prefix_core[OF assms(1-8), of A1 l1 g A2 l2 ls1 ls2] leader_certificate_elected[OF wf(1) assms(9)]
      leader_certificate_elected[OF wf(2) assms(10)] assms(13-15) by simp
qed

end
