(* ===== verification/Bullshark_Total_Order.thy ===== *)
theory Bullshark_Total_Order
  imports Bullshark_Agreement
begin

text \<open>
  Total order of the commits. Two validators that start with the same committee and parameters and
  process certificates of one universe, in whatever order each receives them, output the same
  sequence of sub dags: the shorter output is a prefix of the longer one, certificate by certificate,
  with the same scores and timestamps. Each commit of the code is decomposed into steps that commit
  one sub dag, and a step depends only on what was committed before.
\<close>

section \<open>Flattening the same sub dag in two states\<close>

definition same_sub_dag :: "sub_dag \<Rightarrow> sub_dag \<Rightarrow> bool" where
  "same_sub_dag s t =
     (map c_header (sd_certificates s) = map c_header (sd_certificates t) \<and>
      c_header (sd_leader s) = c_header (sd_leader t) \<and>
      sd_reputation_score s = sd_reputation_score t \<and> sd_commit_timestamp s = sd_commit_timestamp t)"

text \<open>States with the same committed part; the DAGs may differ.\<close>

definition st_sim :: "cstate \<Rightarrow> cstate \<Rightarrow> bool" where
  "st_sim st st' =
     (last_round st = last_round st' \<and> gc_depth st = gc_depth st' \<and> last_committed st = last_committed st' \<and>
      rel_option same_sub_dag (last_committed_sub_dag st) (last_committed_sub_dag st'))"

definition good_state :: "committee \<Rightarrow> certificate set \<Rightarrow> cstate \<Rightarrow> bool" where
  "good_state c S st = (cert_universe c S \<and> state_inv S st \<and> state_closed st \<and> 0 < gc_depth st)"

lemma good_view: "good_state c S st \<Longrightarrow> view S (gc_round (last_round st) + 1) (dag_of st)"
  by (simp add: good_state_def state_view)

lemma good_lookup:
  assumes "good_state c S st" "in_dag (dag_of st) y" "c_round y + 1 = c_round x"
  shows "dag_lookup (dag_of st) (u32_sub (c_round x) 1) (cert_digest y) = Some y"
proof -
  have "u32_sub (c_round x) 1 = c_round y" using assms(3) by (simp add: u32_sub_def)
  moreover have "dag_wf (dag_of st)" "collision_free {x. in_dag (dag_of st) x}"
    using assms(1) collision_free_subset by (auto simp: good_state_def state_inv_def cstate_wf_def)
  ultimately show ?thesis using dag_lookup_complete assms(2) by simp
qed

text \<open>Lists of certificates of the two DAGs with the same headers.\<close>

definition same_certs :: "cstate \<Rightarrow> cstate \<Rightarrow> certificate list \<Rightarrow> certificate list \<Rightarrow> bool" where
  "same_certs st st' = list_all2 (\<lambda>y y'. c_header y = c_header y' \<and> in_dag (dag_of st) y \<and> in_dag (dag_of st') y')"

lemma visit_parent_sim:
  assumes g: "good_state c S st" "good_state c S st'" and sim: "st_sim st st'"
    and x: "in_dag (dag_of st) x" "in_dag (dag_of st') x'" "c_header x = c_header x'"
    and lo: "gc_round (last_round st) + 1 < c_round x" and p: "p \<in> set (c_parents x)"
    and buf: "same_certs st st' (fst s) (fst s')" "snd s = snd s'"
  shows "same_certs st st'
      (fst (visit_parent st x p s)) (fst (visit_parent st' x' p s'))"
    "snd (visit_parent st x p s) = snd (visit_parent st' x' p s')"
proof -
  obtain y where y: "in_dag (dag_of st) y" "cert_digest y = p" "c_round y + 1 = c_round x"
    by (rule view_parent[OF good_view[OF g(1)] x(1) lo p])
  have lo': "gc_round (last_round st') + 1 < c_round x'" "p \<in> set (c_parents x')" using lo p x(3) sim by (simp_all add: st_sim_def)
  obtain y' where y': "in_dag (dag_of st') y'" "cert_digest y' = p" "c_round y' + 1 = c_round x'"
    by (rule view_parent[OF good_view[OF g(2)] x(2) lo'])
  have "cert_universe c S" using g(1) by (simp add: good_state_def)
  hence h: "c_header y = c_header y'"
    using y(1,2) y'(1,2) view_mem[OF good_view[OF g(1)]] view_mem[OF good_view[OF g(2)]] by (intro universe_header) auto
  have l: "dag_lookup (dag_of st) (u32_sub (c_round x) 1) p = Some y" "dag_lookup (dag_of st') (u32_sub (c_round x') 1) p = Some y'"
    using good_lookup[OF g(1) y(1,3)] good_lookup[OF g(2) y'(1,3)] y(2) y'(2) by simp_all
  have "already_committed st y = already_committed st' y'"
    using h sim by (simp add: already_committed_def st_sim_def split: option.split)
  thus "same_certs st st'
      (fst (visit_parent st x p s)) (fst (visit_parent st' x' p s'))"
    "snd (visit_parent st x p s) = snd (visit_parent st' x' p s')"
    using l h buf y(1) y'(1) by (simp_all add: visit_parent_def same_certs_def)
qed

lemma visit_fold_sim:
  assumes "good_state c S st" "good_state c S st'" "st_sim st st'" "in_dag (dag_of st) x" "in_dag (dag_of st') x'" "c_header x = c_header x'"
    and "gc_round (last_round st) + 1 < c_round x" "set ps \<subseteq> set (c_parents x)"
    and "same_certs st st' (fst s) (fst s')" "snd s = snd s'"
  shows "same_certs st st' (fst (fold (visit_parent st x) ps s)) (fst (fold (visit_parent st' x') ps s')) \<and>
    snd (fold (visit_parent st x) ps s) = snd (fold (visit_parent st' x') ps s')"
  using assms(8-10)
proof (induction ps arbitrary: s s')
  case (Cons p ps)
  have "p \<in> set (c_parents x)" using Cons.prems(1) by simp
  note one = visit_parent_sim[OF assms(1-7) this Cons.prems(2,3)]
  show ?case using Cons.IH[OF _ one] Cons.prems(1) by simp
qed simp

lemma order_loop_sim:
  assumes "good_state c S st" "good_state c S st'" "st_sim st st'" "gc_round (last_round st) \<le> gc"
    and "same_certs st st' buf buf'" "\<forall>x\<in>set buf. gc < c_round x"
  shows "map c_header (order_loop st gc buf seen) = map c_header (order_loop st' gc buf' seen)"
  using assms
proof (induction st gc buf seen arbitrary: buf' rule: order_loop.induct)
  case (1 st gc seen)
  thus ?case by (simp add: same_certs_def)
next
  case (2 st gc x buf seen)
  obtain x' bs where b: "buf' = x' # bs" "c_header x = c_header x'" "in_dag (dag_of st) x" "in_dag (dag_of st') x'" "same_certs st st' buf bs"
    using 2(7) by (auto simp: same_certs_def list_all2_Cons1)
  show ?case
  proof (cases "c_round x = gc + 1")
    case True
    have "map c_header (order_loop st gc buf seen) = map c_header (order_loop st' gc bs seen)"
      using 2(1)[OF True] 2(3-6,8) b(5) by simp
    thus ?thesis using True b(1,2) by simp
  next
    case False
    hence lo: "gc_round (last_round st) + 1 < c_round x" using 2(6,8) by auto
    let ?s = "visit_parents st x (buf, seen)" and ?s' = "visit_parents st' x' (bs, seen)"
    have ss: "same_certs st st' (fst ?s) (fst ?s')" "snd ?s = snd ?s'"
      using visit_fold_sim[OF 2(3-5) b(3,4,2) lo order_refl, of "(buf, seen)" "(bs, seen)"] b(2,5)
      by (simp_all add: visit_parents_def)
    have "0 < c_round x" using lo by simp
    moreover have "search_ok st" using 2(3) by (auto simp: good_state_def intro: state_inv_search)
    ultimately obtain new where new: "visit_parents st x (buf, seen) = (new @ buf, seen \<union> cert_digest ` set new)"
      "pushes st x (c_parents x) seen new" using visit_parents_split[of st x buf seen] by blast
    have "\<forall>y\<in>set new. gc < c_round y"
    proof
      fix y
      assume "y \<in> set new"
      hence "c_round y + 1 = c_round x" using pushes_new[OF new(2)] by (simp add: edge_def)
      thus "gc < c_round y" using False 2(8) by auto
    qed
    hence "\<forall>y\<in>set (fst ?s). gc < c_round y" using new(1) 2(8) by auto
    hence "map c_header (order_loop st gc (fst ?s) (snd ?s)) = map c_header (order_loop st' gc (fst ?s') (snd ?s))"
      using 2(2)[OF False] 2(3-6) ss(1) by simp
    thus ?thesis using False b(1,2) ss(2) by simp
  qed
qed

lemma insort_key_map: "map f (insort_key (\<lambda>x. k (f x)) a xs) = insort_key k (f a) (map f xs)"
  by (induction xs) auto

lemma sort_key_map: "map f (sort_key (\<lambda>x. k (f x)) xs) = sort_key k (map f xs)"
  by (induction xs) (simp_all add: insort_key_map)

text \<open>A sub dag is flattened to the same headers in both states.\<close>

lemma order_dag_sim:
  assumes "good_state c S st" "good_state c S st'" "st_sim st st'" "c_header x = c_header x'"
    and "in_dag (dag_of st) x" "in_dag (dag_of st') x'" "committed_round (last_round st) < c_round x"
    and "order_dag x st = Some seq" "order_dag x' st' = Some seq'"
  shows "map c_header seq = map c_header seq'"
proof -
  let ?gc = "c_round x - gc_depth st"
  have "gc_round (last_round st) \<le> ?gc"
    using assms(1,7) by (simp add: good_state_def state_inv_def cstate_wf_def calc_gc_round_def)
  moreover have "same_certs st st' [x] [x']" using assms(4-6) by (simp add: same_certs_def)
  moreover have "\<forall>y\<in>set [x]. ?gc < c_round y" using assms(1,7) by (simp add: good_state_def)
  ultimately have "map c_header (order_loop st ?gc [x] {}) = map c_header (order_loop st' ?gc [x'] {})"
    by (rule order_loop_sim[OF assms(1-3)])
  moreover have "?gc = c_round x' - gc_depth st'" using assms(3,4) by (simp add: st_sim_def)
  ultimately show ?thesis unfolding order_dag_Some[OF assms(8)] order_dag_Some[OF assms(9)]
    by (simp add: sort_key_map del: order_loop.simps)
qed

section \<open>One commit\<close>

definition commit_first :: "bullshark \<Rightarrow> cstate \<Rightarrow> certificate \<Rightarrow> (bullshark \<times> cstate \<times> sub_dag \<times> bool) option" where
  "commit_first b st leader =
     (case order_dag leader st of
        None \<Rightarrow> None
      | Some seq \<Rightarrow>
          (let st1 = fold state_update seq st in
           case resolve_reputation_score b st1 seq (unat (header_nonce (c_header leader))) of
             None \<Rightarrow> None
           | Some rs \<Rightarrow>
               (let sd = sub_dag_new seq leader rs (last_committed_sub_dag st1) in
                case update_leader_schedule b (c_round leader) rs of
                  None \<Rightarrow> None
                | Some (b', changed) \<Rightarrow> Some (b', st1\<lparr> last_committed_sub_dag := Some sd \<rparr>, sd, changed))))"

lemma commit_leaders_Cons:
  "commit_leaders b st (leader # ls) acc =
     (case commit_first b st leader of
        None \<Rightarrow> None
      | Some (b', st', sd, changed) \<Rightarrow>
          if changed \<and> ls \<noteq> [] then Some (b', st', ScheduleChanged, acc @ [sd])
          else commit_leaders b' st' ls (acc @ [sd]))"
  by (auto simp: commit_first_def Let_def split: option.split)

definition b_sim :: "bullshark \<Rightarrow> bullshark \<Rightarrow> bool" where
  "b_sim b b' = (b\<lparr> bs_max_inserted := 0 \<rparr> = b'\<lparr> bs_max_inserted := 0 \<rparr>)"

lemma b_sim_fields:
  "b_sim b b' \<longleftrightarrow> bs_committee b = bs_committee b' \<and> bs_subdags_per_schedule b = bs_subdags_per_schedule b' \<and>
     bs_schedule b = bs_schedule b' \<and> bs_threshold b = bs_threshold b'"
  by (cases b; cases b') (auto simp: b_sim_def)

lemma resolve_sim:
  assumes "b_sim b b'" "rel_option same_sub_dag (last_committed_sub_dag st) (last_committed_sub_dag st')"
    and "map c_header seq = map c_header seq'"
  shows "resolve_reputation_score b st seq n = resolve_reputation_score b' st' seq' n"
proof -
  have f: "fold (\<lambda>x rs. if d \<in> set (c_parents x) then add_score (c_origin x) 1 rs else rs) seq base =
      fold (\<lambda>h rs. if d \<in> set (h_parents h) then add_score (h_author h) 1 rs else rs) (map c_header seq) base" for d base seq
    by (simp add: fold_map comp_def)
  have sc: "fold (\<lambda>x rs. if d \<in> set (c_parents x) then add_score (c_origin x) 1 rs else rs) seq base =
      fold (\<lambda>x rs. if d \<in> set (c_parents x) then add_score (c_origin x) 1 rs else rs) seq' base" for d base
    unfolding f assms(3) ..
  have b: "bs_committee b = bs_committee b'" "bs_subdags_per_schedule b = bs_subdags_per_schedule b'"
    using assms(1) by (simp_all add: b_sim_fields)
  show ?thesis
  proof (cases "last_committed_sub_dag st")
    case None
    thus ?thesis using assms(2) b by (simp add: resolve_reputation_score_def Let_def)
  next
    case (Some l)
    then obtain l' where l': "last_committed_sub_dag st' = Some l'" "same_sub_dag l l'"
      using assms(2) by (cases "last_committed_sub_dag st'") auto
    hence "cert_digest (sd_leader l) = cert_digest (sd_leader l')" "sd_reputation_score l = sd_reputation_score l'"
      by (simp_all add: same_sub_dag_def cert_digest_def)
    thus ?thesis using Some l'(1) b by (simp add: resolve_reputation_score_def sc Let_def)
  qed
qed

lemma update_schedule_sim:
  assumes "b_sim b b'" "update_leader_schedule b r rs = Some (b1, ch)" "update_leader_schedule b' r rs = Some (b1', ch')"
  shows "b_sim b1 b1' \<and> ch = ch'"
  using assms by (auto simp: update_leader_schedule_def b_sim_fields split: if_splits option.splits)

lemma fold_update_sim:
  assumes "map c_header seq = map c_header seq'" "last_round st = last_round st'" "gc_depth st = gc_depth st'" "last_committed st = last_committed st'"
  shows "last_round (fold state_update seq st) = last_round (fold state_update seq' st')"
    "last_committed (fold state_update seq st) = last_committed (fold state_update seq' st')"
proof -
  have "last_round (fold state_update seq st) = last_round (fold state_update seq' st') \<and>
    last_committed (fold state_update seq st) = last_committed (fold state_update seq' st')"
    using assms
  proof (induction seq arbitrary: seq' st st')
    case (Cons x seq)
    then obtain x' xs where x: "seq' = x' # xs" "c_header x = c_header x'" "map c_header seq = map c_header xs" by (cases seq') auto
    have "last_round (state_update x st) = last_round (state_update x' st')" "last_committed (state_update x st) = last_committed (state_update x' st')"
      using Cons.prems x(2) by (simp_all add: state_update_def Let_def split: option.split)
    thus ?case using Cons.IH[OF x(3), of "state_update x st" "state_update x' st'"] Cons.prems(3) x(1) by simp
  qed simp
  thus "last_round (fold state_update seq st) = last_round (fold state_update seq' st')"
    "last_committed (fold state_update seq st) = last_committed (fold state_update seq' st')" by simp_all
qed

text \<open>Committing the same leader in two states with the same committed part.\<close>

lemma commit_first_sim:
  assumes "good_state c S st" "good_state c S st'" "st_sim st st'" "b_sim b b'" "c_header x = c_header x'"
    and "in_dag (dag_of st) x" "in_dag (dag_of st') x'" "committed_round (last_round st) < c_round x"
    and "commit_first b st x = Some (b1, st1, sd, ch)" "commit_first b' st' x' = Some (b1', st1', sd', ch')"
  shows "b_sim b1 b1' \<and> st_sim st1 st1' \<and> same_sub_dag sd sd' \<and> ch = ch'"
proof -
  obtain seq rs where c: "order_dag x st = Some seq"
    "resolve_reputation_score b (fold state_update seq st) seq (unat (header_nonce (c_header x))) = Some rs"
    "sd = sub_dag_new seq x rs (last_committed_sub_dag (fold state_update seq st))"
    "update_leader_schedule b (c_round x) rs = Some (b1, ch)" "st1 = (fold state_update seq st)\<lparr> last_committed_sub_dag := Some sd \<rparr>"
    using assms(9) by (auto simp: commit_first_def Let_def split: option.splits)
  obtain seq' rs' where c': "order_dag x' st' = Some seq'"
    "resolve_reputation_score b' (fold state_update seq' st') seq' (unat (header_nonce (c_header x'))) = Some rs'"
    "sd' = sub_dag_new seq' x' rs' (last_committed_sub_dag (fold state_update seq' st'))"
    "update_leader_schedule b' (c_round x') rs' = Some (b1', ch')" "st1' = (fold state_update seq' st')\<lparr> last_committed_sub_dag := Some sd' \<rparr>"
    using assms(10) by (auto simp: commit_first_def Let_def split: option.splits)
  have seq: "map c_header seq = map c_header seq'" by (rule order_dag_sim[OF assms(1-3,5-8) c(1) c'(1)])
  have prev: "rel_option same_sub_dag (last_committed_sub_dag st) (last_committed_sub_dag st')" using assms(3) by (simp add: st_sim_def)
  have rs: "rs = rs'" using resolve_sim[OF assms(4) _ seq, of "fold state_update seq st" "fold state_update seq' st'"] prev c(2) c'(2) assms(5) by simp
  have sd: "same_sub_dag sd sd'" using seq prev assms(5)
    by (cases "last_committed_sub_dag st"; cases "last_committed_sub_dag st'")
      (simp_all add: c(3) c'(3) rs same_sub_dag_def sub_dag_new_def Let_def)
  have b: "b_sim b1 b1' \<and> ch = ch'" using update_schedule_sim[OF assms(4) c(4)] c'(4) rs assms(5) by simp
  show ?thesis using sd b fold_update_sim[OF seq, of st st'] assms(3) by (simp add: c(5) c'(5) st_sim_def)
qed

text \<open>Committing a leader keeps the state good.\<close>

lemma commit_first_good:
  assumes "good_state c S st" "in_dag (dag_of st) x" "committed_round (last_round st) < c_round x"
    and "commit_first b st x = Some (b', st', sd, ch)"
  shows "good_state c S st'" "committed_round (last_round st') = c_round x" "bs_committee b' = bs_committee b"
    "\<And>y. in_dag (dag_of st') y \<longleftrightarrow> in_dag (dag_of st) y \<and> gc_round (last_round st') < c_round y"
    "\<not> ch \<Longrightarrow> b' = b"
proof -
  obtain seq rs where c: "order_dag x st = Some seq" "st' = (fold state_update seq st)\<lparr> last_committed_sub_dag := Some sd \<rparr>"
    "update_leader_schedule b (c_round x) rs = Some (b', ch)"
    using assms(4) by (auto simp: commit_first_def Let_def split: option.splits)
  have inv: "state_inv S st" "state_closed st" using assms(1) by (simp_all add: good_state_def)
  have wf: "cstate_wf st" using inv(1) by (simp add: state_inv_def)
  show d: "in_dag (dag_of st') y \<longleftrightarrow> in_dag (dag_of st) y \<and> gc_round (last_round st') < c_round y" for y
    using fold_update_in_dag[OF wf, of seq y] by (simp add: c(2))
  have "closed_wf st" using wf inv(2) by (simp add: closed_wf_def)
  hence "closed_wf st'" using closed_wf_fold[of st seq] by (simp add: c(2))
  moreover have "{y. in_dag (dag_of st') y} \<subseteq> S" using d inv(1) by (auto simp: state_inv_def)
  ultimately show "good_state c S st'" using assms(1) by (simp add: good_state_def state_inv_def closed_wf_def c(2))
  show "committed_round (last_round st') = c_round x" using commit_one_rounds(4)[OF inv(1) assms(2,3) c(1)] by (simp add: c(2))
  show "bs_committee b' = bs_committee b" "\<not> ch \<Longrightarrow> b' = b"
    using c(3) by (auto simp: update_leader_schedule_def split: if_splits option.splits)
qed

section \<open>Steps that commit one sub dag\<close>

text \<open>
  A leader that can be committed: elected at its round, above the committed round, with the support
  of a validity threshold.
\<close>

definition anchor :: "rng \<Rightarrow> bullshark \<Rightarrow> cstate \<Rightarrow> certificate \<Rightarrow> bool" where
  "anchor g b st x =
     (committed_round (last_round st) < c_round x \<and> in_dag (dag_of st) x \<and>
      (\<exists>l. schedule_leader g (bs_schedule b) (c_round x) = Some l \<and> auth_id l = c_origin x) \<and>
      validity_threshold (bs_committee b) \<le> sum (voting_power_by_id (bs_committee b)) (supporters (dag_of st) x))"

inductive micro :: "certificate set \<Rightarrow> rng \<Rightarrow> bullshark \<times> cstate \<Rightarrow> sub_dag list \<Rightarrow> bullshark \<times> cstate \<Rightarrow> bool" for S g where
  insert: "x \<in> S \<Longrightarrow> try_insert st x = (st', r) \<Longrightarrow> b_sim b b' \<Longrightarrow> micro S g (b, st) [] (b', st')"
| commit: "anchor g b st x \<Longrightarrow> order_leaders g b st x = Some (f # ls) \<Longrightarrow>
    commit_first b st f = Some (b', st', sd, ch) \<Longrightarrow> micro S g (b, st) [sd] (b', st')"

inductive micros :: "certificate set \<Rightarrow> rng \<Rightarrow> bullshark \<times> cstate \<Rightarrow> sub_dag list \<Rightarrow> bullshark \<times> cstate \<Rightarrow> bool" for S g where
  nil: "micros S g c [] c"
| snoc: "micros S g c out d \<Longrightarrow> micro S g d o' e \<Longrightarrow> micros S g c (out @ o') e"

lemma micros_trans:
  assumes "micros S g d o2 e" "micros S g c o1 d"
  shows "micros S g c (o1 @ o2) e"
  using assms
proof (induction rule: micros.induct)
  case (snoc c' out d' o' e')
  show ?case using micros.snoc[OF snoc.IH[OF snoc.prems] snoc.hyps(2)] by simp
qed simp

lemma micros_one: "micro S g c o' d \<Longrightarrow> micros S g c o' d"
  using micros.snoc[OF micros.nil] by fastforce

section \<open>The walk after a commit\<close>

lemma order_leaders_loop_Cons:
  "order_leaders_loop g b d (r # rs) x acc =
     (if schedule_leader g (bs_schedule b) r = None then None
      else case next_leader g b d x r of
        None \<Rightarrow> order_leaders_loop g b d rs x acc
      | Some p \<Rightarrow> order_leaders_loop g b d rs p (p # acc))"
  by (auto simp: next_leader_def leader_certificate_def split: option.splits)

lemma path_restrict:
  assumes "path d x z" "\<And>y. in_dag d' y \<longleftrightarrow> in_dag d y \<and> gc < c_round y" "gc < c_round z"
  shows "path d' x z"
  using assms(1,3)
proof (induction rule: path.induct)
  case root
  show ?case by (rule path.root)
next
  case (step y z)
  have "gc < c_round y" using step(3,6) by simp
  thus ?case using step assms(2) by (intro path.step[OF step.IH]) auto
qed

lemma path_mono: "path d' x z \<Longrightarrow> (\<And>y. in_dag d' y \<Longrightarrow> in_dag d y) \<Longrightarrow> path d x z"
proof (induction rule: path.induct)
  case root
  show ?case by (rule path.root)
next
  case (step y z)
  show ?case using step by (intro path.step[OF step.IH]) auto
qed

lemma next_leader_restrict:
  assumes "dag_wf d" "dag_wf d'" "\<And>y. in_dag d' y \<longleftrightarrow> in_dag d y \<and> gc < c_round y" "gc < r" "r \<le> c_round x"
  shows "next_leader g b d x r = next_leader g b d' x r"
proof -
  have sub: "in_dag d' y \<Longrightarrow> in_dag d y" for y unfolding assms(3) by (rule conjunct1)
  have pth: "path d x z \<longleftrightarrow> path d' x z" if "gc < c_round z" for z
    using path_restrict[OF _ assms(3) that] path_mono[OF _ sub] by (rule iffI)
  have link: "linked x p d \<longleftrightarrow> linked x p d'" if p: "c_round p = r" for p
  proof -
    have le: "c_round p \<le> c_round x" using assms(5) p by simp
    have "gc < c_round z" if "cert_eq z p" for z using that p assms(4) by (simp add: cert_eq_def)
    hence "(\<exists>z. path d x z \<and> cert_eq z p) \<longleftrightarrow> (\<exists>z. path d' x z \<and> cert_eq z p)" using pth by blast
    thus ?thesis unfolding linked_iff_path[OF assms(1) le] linked_iff_path[OF assms(2) le] .
  qed
  have "next_leader g b d x r = Some p \<longleftrightarrow> next_leader g b d' x r = Some p" for p
  proof
    assume "next_leader g b d x r = Some p"
    then obtain l where s: "in_dag d p" "c_round p = r" "linked x p d" "schedule_leader g (bs_schedule b) r = Some l" "auth_id l = c_origin p"
      using next_leader_Some[OF assms(1)] by blast
    have "in_dag d' p" unfolding assms(3) using s(1,2) assms(4) by simp
    thus "next_leader g b d' x r = Some p" using next_leader_intro[of d' p x g b l] s link[OF s(2)] by simp
  next
    assume "next_leader g b d' x r = Some p"
    then obtain l where s: "in_dag d' p" "c_round p = r" "linked x p d'" "schedule_leader g (bs_schedule b) r = Some l" "auth_id l = c_origin p"
      using next_leader_Some[OF assms(2)] by blast
    thus "next_leader g b d x r = Some p" using next_leader_intro[of d p x g b l] sub[OF s(1)] link[OF s(2)] by simp
  qed
  thus ?thesis by (metis option.exhaust)
qed

lemma loop_restrict:
  assumes "dag_wf d" "dag_wf d'" "\<And>y. in_dag d' y \<longleftrightarrow> in_dag d y \<and> gc < c_round y"
    and "\<forall>r\<in>set rs. gc < r \<and> r \<le> c_round x" "sorted_wrt (>) rs"
  shows "order_leaders_loop g b d rs x acc = order_leaders_loop g b d' rs x acc"
  using assms(4,5)
proof (induction rs arbitrary: x acc)
  case (Cons r rs)
  have n: "next_leader g b d x r = next_leader g b d' x r" using Cons.prems(1) by (intro next_leader_restrict[OF assms(1-3)]) auto
  show ?case
  proof (cases "next_leader g b d x r")
    case None
    have "order_leaders_loop g b d rs x acc = order_leaders_loop g b d' rs x acc" using Cons by (intro Cons.IH) auto
    thus ?thesis using None n unfolding order_leaders_loop_Cons by simp
  next
    case (Some p)
    hence "c_round p = r" using next_leader_Some[OF assms(1)] by blast
    hence "order_leaders_loop g b d rs p (p # acc) = order_leaders_loop g b d' rs p (p # acc)" using Cons.prems by (intro Cons.IH) auto
    thus ?thesis using Some n unfolding order_leaders_loop_Cons by simp
  qed
qed simp

lemma loop_extends:
  assumes "dag_wf d" "order_leaders_loop g b d rs x acc = Some ls"
  shows "\<exists>more. ls = more @ acc \<and> (\<forall>y\<in>set more. c_round y \<in> set rs)"
  using assms(2)
proof (induction rs arbitrary: x acc)
  case (Cons r rs)
  show ?case
  proof (cases "next_leader g b d x r")
    case None
    thus ?thesis using Cons.IH[of x acc] order_leaders_loop_next(1)[OF Cons.prems] by auto
  next
    case (Some p)
    then obtain more where "ls = more @ p # acc" "\<forall>y\<in>set more. c_round y \<in> set rs"
      using Cons.IH[of p "p # acc"] order_leaders_loop_next(1)[OF Cons.prems] by auto
    moreover have "c_round p = r" using next_leader_Some[OF assms(1) Some] by blast
    ultimately show ?thesis by (intro exI[of _ "more @ [p]"]) auto
  qed
qed simp

lemma even_gap: "(f :: nat) mod 2 = 0 \<Longrightarrow> a mod 2 = 0 \<Longrightarrow> f < a \<Longrightarrow> a - 2 = f + 2 * ((a - 2 - f) div 2)"
  by (auto elim!: evenE simp: even_iff_mod_2_eq_zero[symmetric])

lemma even_next: "(f :: nat) mod 2 = 0 \<Longrightarrow> a mod 2 = 0 \<Longrightarrow> f < a \<Longrightarrow> f + 2 \<le> a"
  by presburger

text \<open>After the first leader of a walk is committed, the walk finds exactly the others.\<close>

lemma order_leaders_suffix:
  assumes "good_state c S st" "committed_round (last_round st) mod 2 = 0" "in_dag (dag_of st) A" "committed_round (last_round st) < c_round A"
    and "order_leaders g b st A = Some (f # ls)" "ls \<noteq> []" "commit_first b st f = Some (b', st', sd, ch)"
  shows "order_leaders g b st' A = Some ls"
proof -
  let ?cr = "committed_round (last_round st)" and ?d = "dag_of st" and ?d' = "dag_of st'" and ?f = "c_round f"
  have wf: "dag_wf ?d" using assms(1) by (simp add: good_state_def state_inv_def cstate_wf_def)
  have A: "c_round A mod 2 = 0" "2 \<le> c_round A" using assms(4,5) by (auto simp: order_leaders_def split: if_splits)
  note ch = order_leaders_chain[OF assms(5) wf assms(3) A(2) assms(4)]
  have f: "in_dag ?d f" "?cr < ?f" "?f mod 2 = 0" using ch(4)[of f] leader_chain_mem[OF ch(1), of f] by auto
  have sorted: "\<forall>y\<in>set ls. ?f < c_round y" using leader_chain_sorted[OF ch(1)] by simp
  have "A \<in> set ls" using ch(3) assms(6) last_in_set by fastforce
  hence "?f < c_round A" using sorted by blast
  hence "c_round A - 2 = ?f + 2 * ((c_round A - 2 - ?f) div 2)" "?cr + 2 \<le> ?f"
    by (rule even_gap[OF f(3) A(1)], intro even_next[OF assms(2) f(3,2)])
  hence rs: "rounds_down (?cr + 2) (c_round A - 2) = rounds_down (?f + 2) (c_round A - 2) @ ?f # rounds_down (?cr + 2) (?f - 2)"
    using rounds_down_split[of "?cr + 2" ?f "(c_round A - 2 - ?f) div 2"] by simp
  obtain acc where acc: "order_leaders_loop g b ?d (rounds_down (?f + 2) (c_round A - 2)) A [A] = Some acc"
    and low: "order_leaders_loop g b ?d (?f # rounds_down (?cr + 2) (?f - 2)) (hd acc) acc = Some (f # ls)"
    using order_leaders_loop_of(1)[OF assms(5) A(2)] unfolding rs by (auto simp: order_leaders_loop_append split: option.splits)
  obtain more where more: "f # ls = more @ acc" "\<forall>y\<in>set more. c_round y \<in> set (?f # rounds_down (?cr + 2) (?f - 2))"
    using loop_extends[OF wf low] by blast
  obtain m2 where m2: "acc = m2 @ [A]" "\<forall>y\<in>set m2. c_round y \<in> set (rounds_down (?f + 2) (c_round A - 2))"
    using loop_extends[OF wf acc] by blast
  have "\<forall>y\<in>set acc. ?f < c_round y" using m2 rounds_down_bounds \<open>?f < c_round A\<close> by fastforce
  hence "more \<noteq> []" using more(1) by auto
  moreover have "\<forall>y\<in>set more. c_round y \<le> ?f" using more(2) rounds_down_bounds by fastforce
  ultimately obtain m where m: "ls = m @ acc" "\<forall>y\<in>set m. c_round y \<le> ?f" using more(1) by (cases more) auto
  have "m = []" using m sorted by (cases m) auto
  hence ls: "ls = acc" using m(1) by simp
  note good = commit_first_good[OF assms(1) f(1,2) assms(7)]
  have wf': "dag_wf ?d'" using good(1) by (simp add: good_state_def state_inv_def cstate_wf_def)
  have "gc_round (last_round st') \<le> ?f" using good(1,2) by (simp add: good_state_def state_inv_def cstate_wf_def calc_gc_round_def)
  hence "\<forall>r\<in>set (rounds_down (?f + 2) (c_round A - 2)). gc_round (last_round st') < r \<and> r \<le> c_round A"
    using rounds_down_bounds by fastforce
  hence "order_leaders_loop g b ?d' (rounds_down (?f + 2) (c_round A - 2)) A [A] = Some ls"
    using loop_restrict[OF wf wf' good(4) _ rounds_down_sorted] acc ls by simp
  moreover have "list_all (\<lambda>x. committee_authority (bs_committee b) (c_origin x) \<noteq> None) ls"
    using assms(5) by (auto simp: order_leaders_def split: if_splits option.splits)
  ultimately show ?thesis using A good(2) by (simp add: order_leaders_def u32_sub_exact)
qed

section \<open>The code takes these steps\<close>

definition node_inv :: "committee \<Rightarrow> certificate set \<Rightarrow> bullshark \<times> cstate \<Rightarrow> bool" where
  "node_inv c S n = (good_state c S (snd n) \<and> bs_committee (fst n) = c \<and> committed_round (last_round (snd n)) mod 2 = 0)"

lemma anchor_leaders:
  assumes "node_inv c S (b, st)" "anchor g b st A" "order_leaders g b st A = Some ls"
  shows "ls \<noteq> []" "last ls = A" "sorted_wrt (<) (map c_round ls)"
    "\<forall>x\<in>set ls. in_dag (dag_of st) x \<and> committed_round (last_round st) < c_round x \<and> c_round x mod 2 = 0"
proof -
  have wf: "dag_wf (dag_of st)" using assms(1) by (simp add: node_inv_def good_state_def state_inv_def cstate_wf_def)
  have A: "in_dag (dag_of st) A" "committed_round (last_round st) < c_round A" using assms(2) by (simp_all add: anchor_def)
  have "c_round A mod 2 = 0" using assms(3) by (auto simp: order_leaders_def split: if_splits)
  hence "2 \<le> c_round A" using A(2) by presburger
  note ch = order_leaders_chain[OF assms(3) wf A(1) this A(2)]
  show "ls \<noteq> []" "last ls = A" "sorted_wrt (<) (map c_round ls)" using ch leader_chain_sorted by auto
  show "\<forall>x\<in>set ls. in_dag (dag_of st) x \<and> committed_round (last_round st) < c_round x \<and> c_round x mod 2 = 0"
    using ch(4) leader_chain_mem[OF ch(1)] by blast
qed

lemma node_inv_commit:
  assumes "node_inv c S (b, st)" "in_dag (dag_of st) f" "committed_round (last_round st) < c_round f" "c_round f mod 2 = 0"
    and "commit_first b st f = Some (b', st', sd, ch)"
  shows "node_inv c S (b', st')"
  using commit_first_good(1,2,3)[OF _ assms(2,3,5), of c S] assms(1,4) by (simp add: node_inv_def)

lemma supporters_restrict:
  "(\<And>y. in_dag d' y \<longleftrightarrow> in_dag d y \<and> gc < c_round y) \<Longrightarrow> gc \<le> c_round A \<Longrightarrow> supporters d' A = supporters d A"
  by (auto simp: supporters_def)

lemma anchor_after:
  assumes "node_inv c S (b, st)" "anchor g b st A" "in_dag (dag_of st) f" "committed_round (last_round st) < c_round f" "c_round f < c_round A"
    and "commit_first b st f = Some (b, st', sd, ch)"
  shows "anchor g b st' A"
proof -
  have "good_state c S st" using assms(1) by (simp add: node_inv_def)
  note good = commit_first_good[OF this assms(3,4,6)]
  have gc: "gc_round (last_round st') \<le> c_round f" using good(1,2) by (simp add: good_state_def state_inv_def cstate_wf_def calc_gc_round_def)
  have "supporters (dag_of st') A = supporters (dag_of st) A"
    by (rule supporters_restrict[OF good(4)]) (use gc assms(5) in simp)
  thus ?thesis using assms(2,5) good(2,4) gc by (simp add: anchor_def)
qed

lemma commit_leaders_micros:
  assumes "node_inv c S (b, st)" "anchor g b st A" "order_leaders g b st A = Some ls"
    and "commit_leaders b st ls acc = Some (b', st', oc, acc')"
  shows "\<exists>cs. acc' = acc @ cs \<and> micros S g (b, st) cs (b', st') \<and> node_inv c S (b', st') \<and>
    (oc = ScheduleChanged \<longrightarrow> committed_round (last_round st') < c_round A)"
  using assms
proof (induction ls arbitrary: b st acc)
  case Nil
  thus ?case using anchor_leaders(1) by blast
next
  case (Cons f ls)
  note al = anchor_leaders[OF Cons.prems(1-3)]
  have f: "in_dag (dag_of st) f" "committed_round (last_round st) < c_round f" "c_round f mod 2 = 0" using al(4) by auto
  obtain b1 st1 sd ch where cf: "commit_first b st f = Some (b1, st1, sd, ch)"
    using Cons.prems(4) unfolding commit_leaders_Cons by (auto split: option.splits)
  have one: "micro S g (b, st) [sd] (b1, st1)" by (rule micro.commit[OF Cons.prems(2,3) cf])
  have inv: "node_inv c S (b1, st1)" by (rule node_inv_commit[OF Cons.prems(1) f cf])
  have gs: "good_state c S st" "committed_round (last_round st) mod 2 = 0" using Cons.prems(1) by (simp_all add: node_inv_def)
  have lt: "c_round f < c_round A" if "ls \<noteq> []"
  proof -
    have "A = last ls" using al(2) that by simp
    thus ?thesis using al(3) last_in_set[OF that] by simp
  qed
  show ?case
  proof (cases "ls = [] \<or> ch")
    case True
    hence "b' = b1 \<and> st' = st1 \<and> acc' = acc @ [sd] \<and> (oc = ScheduleChanged \<longrightarrow> ls \<noteq> [])"
      using Cons.prems(4) cf unfolding commit_leaders_Cons by (cases "ls = []") auto
    thus ?thesis using micros_one[OF one] inv lt commit_first_good(2)[OF gs(1) f(1,2) cf] by auto
  next
    case False
    have b: "b1 = b" using commit_first_good(5)[OF gs(1) f(1,2) cf] False by simp
    have an: "anchor g b st1 A" by (rule anchor_after[OF Cons.prems(1,2) f(1,2) lt cf[unfolded b]]) (use False in simp)
    have ol: "order_leaders g b st1 A = Some ls"
      using order_leaders_suffix[OF gs _ _ Cons.prems(3) _ cf] Cons.prems(2) False by (simp add: anchor_def)
    have "commit_leaders b st1 ls (acc @ [sd]) = Some (b', st', oc, acc')"
      using Cons.prems(4) cf False b unfolding commit_leaders_Cons by simp
    from Cons.IH[OF inv[unfolded b] an ol this] obtain cs
      where cs: "acc' = (acc @ [sd]) @ cs" "micros S g (b, st1) cs (b', st')" "node_inv c S (b', st')"
        "oc = ScheduleChanged \<longrightarrow> committed_round (last_round st') < c_round A" by blast
    show ?thesis using cs micros_trans[OF cs(2) micros_one[OF one[unfolded b]]] by (intro exI[of _ "sd # cs"]) simp
  qed
qed

lemma commit_leader_micros:
  assumes "node_inv c S (b, st)" "committed_round (last_round st) < lr" "commit_leader g b st lr = Some (b', st', oc, cs)"
  shows "micros S g (b, st) cs (b', st') \<and> node_inv c S (b', st') \<and>
    (oc = ScheduleChanged \<longrightarrow> committed_round (last_round st') < lr)"
proof (cases "(b', st', cs) = (b, st, [])")
  case True
  thus ?thesis using assms(1,2) micros.nil by simp
next
  case False
  then obtain l A tbl ls where l: "leader_certificate g (bs_schedule b) lr (dag_of st) = Some (l, Some A)"
    and tbl: "map_of (dag_of st) (lr + 1) = Some tbl" "validity_threshold (bs_committee b) \<le> leader_support (bs_committee b) A tbl"
    and ls: "order_leaders g b st A = Some ls" "commit_leaders b st ls [] = Some (b', st', oc, cs)"
    using assms(3) by (auto simp: commit_leader_def not_less split: option.splits if_splits)
  have g: "state_inv S st" "cert_universe c S" "bs_committee b = c" using assms(1) by (simp_all add: node_inv_def good_state_def)
  have wf: "dag_wf (dag_of st)" using g(1) by (simp add: state_inv_def cstate_wf_def)
  note e = leader_certificate_elected[OF wf l]
  have "leader_support c A tbl = sum (voting_power_by_id c) (supporters (dag_of st) A)"
    using g e tbl(1) universe_origin[OF g(2)] by (intro leader_support_sum[OF wf]) (auto simp: cert_universe_def state_inv_def)
  hence "anchor g b st A" using e tbl(2) assms(2) g(3) by (simp add: anchor_def)
  thus ?thesis using commit_leaders_micros[OF assms(1) _ ls] e by auto
qed

lemma commit_loop_micros:
  assumes "node_inv c S (b, st)" "committed_round (last_round st) < lr" "2 \<le> lr"
    and "commit_loop fuel g b st lr acc = Some (b', st', oc, cs)"
  shows "\<exists>cs'. cs = acc @ cs' \<and> micros S g (b, st) cs' (b', st') \<and> node_inv c S (b', st')"
  using assms
proof (induction fuel arbitrary: b st acc)
  case (Suc fuel)
  obtain b1 st1 oc1 cs1 where c: "commit_leader g b st lr = Some (b1, st1, oc1, cs1)"
    using Suc.prems(4) by (auto split: option.splits)
  have m: "micros S g (b, st) cs1 (b1, st1)" "node_inv c S (b1, st1)" "oc1 = ScheduleChanged \<Longrightarrow> committed_round (last_round st1) < lr"
    using commit_leader_micros[OF Suc.prems(1,2) c] by simp_all
  show ?case
  proof (cases "oc1 = ScheduleChanged")
    case True
    have "commit_loop fuel g b1 st1 lr (acc @ cs1) = Some (b', st', oc, cs)" using Suc.prems(4) c True by simp
    then obtain cs2 where cs2: "cs = (acc @ cs1) @ cs2" "micros S g (b1, st1) cs2 (b', st')" "node_inv c S (b', st')"
      using Suc.IH[OF m(2) m(3)[OF True] Suc.prems(3)] by blast
    show ?thesis using cs2 micros_trans[OF cs2(2) m(1)] by (intro exI[of _ "cs1 @ cs2"]) simp
  next
    case False
    hence "b' = b1" "st' = st1" "cs = acc @ cs1" using Suc.prems(4) c by auto
    thus ?thesis using m by (intro exI[of _ cs1]) simp
  qed
qed simp

lemma node_inv_insert:
  assumes "node_inv c S (b, st)" "x \<in> S" "try_insert st x = (st', r)" "b_sim b b'"
  shows "node_inv c S (b', st')"
proof -
  have g: "cert_universe c S" "state_inv S st" "state_closed st" using assms(1) by (simp_all add: node_inv_def good_state_def)
  have "no_equivocation S" using g(1) by (simp add: cert_universe_def)
  hence "state_closed st'" by (rule closed_try_insert[OF g(3,2) _ assms(2,3)])
  moreover have "state_inv S st'" by (rule state_inv_try_insert[OF assms(3) g(2) assms(2)])
  ultimately show ?thesis using assms(1,4) try_insert_fields[OF assms(3)] by (simp add: node_inv_def good_state_def b_sim_fields)
qed

text \<open>Processing a certificate is an insertion followed by commits.\<close>

lemma process_certificate_micros:
  assumes "node_inv c S (b, st)" "x \<in> S" "process_certificate g b st x = Some (b', st', Inr (oc, cs))"
  shows "micros S g (b, st) cs (b', st') \<and> node_inv c S (b', st')"
proof -
  obtain st1 ri where ti: "try_insert st x = (st1, ri)" by force
  have rl: "b_sim b b1" if "report_leader_on_time g b r = Some b1" for b1 r
    using that by (auto simp: report_leader_on_time_def b_sim_fields Let_def split: if_splits option.splits)
  have first: "micros S g (b, st) [] (b1, st1)" "node_inv c S (b1, st1)" if "b_sim b b1" for b1
    using micros_one[OF micro.insert[OF assms(2) ti that]] node_inv_insert[OF assms(1,2) ti that] by simp_all
  have "(\<exists>b1. b_sim b b1 \<and> b' = b1 \<and> st' = st1 \<and> cs = []) \<or>
    (\<exists>b1 oc. b_sim b b1 \<and> committed_round (last_round st1) < u32_sub (c_round x) 1 \<and> 2 \<le> u32_sub (c_round x) 1 \<and>
       commit_loop (Suc (u32_sub (c_round x) 1)) g b1 st1 (u32_sub (c_round x) 1) [] = Some (b', st', oc, cs))"
    using assms(3) ti rl b_sim_fields[of b b]
    by (auto simp: process_certificate_def Let_def not_le simp del: commit_loop.simps split: sum.splits if_splits option.splits)
  thus ?thesis
  proof (elim disjE exE conjE)
    fix b1
    assume "b_sim b b1" "b' = b1" "st' = st1" "cs = []"
    thus ?thesis using first by simp
  next
    fix b1 oc'
    assume b1: "b_sim b b1"
      and l: "committed_round (last_round st1) < u32_sub (c_round x) 1" "2 \<le> u32_sub (c_round x) 1"
        "commit_loop (Suc (u32_sub (c_round x) 1)) g b1 st1 (u32_sub (c_round x) 1) [] = Some (b', st', oc', cs)"
    show ?thesis using commit_loop_micros[OF first(2)[OF b1] l] micros_trans[OF _ first(1)[OF b1]] by auto
  qed
qed

section \<open>Commits are determined by what was committed\<close>

definition node_sim :: "bullshark \<times> cstate \<Rightarrow> bullshark \<times> cstate \<Rightarrow> bool" where
  "node_sim n m = (b_sim (fst n) (fst m) \<and> st_sim (snd n) (snd m))"

lemma same_sub_dag_refl [simp]: "same_sub_dag s s"
  by (simp add: same_sub_dag_def)

lemma same_sub_dag_sym: "same_sub_dag s t \<Longrightarrow> same_sub_dag t s"
  by (simp add: same_sub_dag_def)

lemma same_sub_dag_trans: "same_sub_dag s t \<Longrightarrow> same_sub_dag t u \<Longrightarrow> same_sub_dag s u"
  by (simp add: same_sub_dag_def)

lemma node_sim_refl: "node_sim n n"
  by (simp add: node_sim_def b_sim_def st_sim_def option.rel_refl)

lemma node_sim_sym: "node_sim n m \<Longrightarrow> node_sim m n"
  by (cases "last_committed_sub_dag (snd n)"; cases "last_committed_sub_dag (snd m)")
    (auto simp: node_sim_def b_sim_def st_sim_def same_sub_dag_sym)

lemma node_sim_trans: "node_sim n m \<Longrightarrow> node_sim m k \<Longrightarrow> node_sim n k"
  by (cases "last_committed_sub_dag (snd n)"; cases "last_committed_sub_dag (snd m)"; cases "last_committed_sub_dag (snd k)")
    (auto simp: node_sim_def b_sim_def st_sim_def intro: same_sub_dag_trans)

lemma insert_sim: "try_insert st x = (st', r) \<Longrightarrow> b_sim b b' \<Longrightarrow> node_sim (b, st) (b', st')"
  using try_insert_fields[of st x st' r] by (simp add: node_sim_def st_sim_def option.rel_refl)

lemma order_leaders_b_sim: "b_sim b b' \<Longrightarrow> order_leaders g b st x = order_leaders g b' st x"
proof -
  assume b: "b_sim b b'"
  have "order_leaders_loop g b d rs x acc = order_leaders_loop g b' d rs x acc" for d rs x acc
    by (induction rs arbitrary: x acc) (use b b_sim_fields in \<open>auto split: option.splits\<close>)
  thus ?thesis using b by (simp add: order_leaders_def b_sim_fields split: option.split)
qed

lemma anchor_b_sim: "b_sim b b' \<Longrightarrow> anchor g b st x = anchor g b' st x"
  by (simp add: anchor_def b_sim_fields)

lemma first_leader_agree:
  assumes "node_inv c S (b, st1)" "node_inv c S (b, st2)" "last_round st1 = last_round st2" "c_round A1 \<le> c_round A2"
    and "anchor g b st1 A1" "anchor g b st2 A2"
    and "order_leaders g b st1 A1 = Some (f1 # ls1)" "order_leaders g b st2 A2 = Some (f2 # ls2)"
  shows "c_header f1 = c_header f2"
proof -
  obtain l1 where l1: "schedule_leader g (bs_schedule b) (c_round A1) = Some l1" "auth_id l1 = c_origin A1"
    using assms(5) unfolding anchor_def by blast
  obtain l2 where l2: "schedule_leader g (bs_schedule b) (c_round A2) = Some l2" "auth_id l2 = c_origin A2"
    using assms(6) unfolding anchor_def by blast
  have g: "cert_universe (bs_committee b) S" "state_inv S st1" "state_closed st1" "state_inv S st2" "state_closed st2"
    using assms(1,2) by (simp_all add: node_inv_def good_state_def)
  have "\<exists>rest. map cert_digest (f2 # ls2) = map cert_digest (f1 # ls1) @ rest"
    by (rule leaders_prefix_core[OF g, of "c_round A1" "c_round A2" A1 l1 g A2 l2])
      (use assms(1,3-8) l1 l2 in \<open>simp_all add: anchor_def node_inv_def\<close>)
  hence "cert_digest f1 = cert_digest f2" by auto
  moreover have "f1 \<in> S" "f2 \<in> S"
    using anchor_leaders(4)[OF assms(1,5,7)] anchor_leaders(4)[OF assms(2,6,8)] g(2,4) by (auto simp: state_inv_def)
  ultimately show ?thesis using universe_header[OF g(1)] by blast
qed

lemma commit_determined:
  assumes "node_sim (b, st) (b', st')" "node_inv c S (b, st)" "node_inv c S (b', st')"
    and "anchor g b st A" "order_leaders g b st A = Some (f # ls)" "commit_first b st f = Some (b1, st1, sd, ch)"
    and "anchor g b' st' A'" "order_leaders g b' st' A' = Some (f' # ls')" "commit_first b' st' f' = Some (b1', st1', sd', ch')"
  shows "same_sub_dag sd sd' \<and> node_sim (b1, st1) (b1', st1')"
proof -
  have sim: "b_sim b b'" "st_sim st st'" using assms(1) by (simp_all add: node_sim_def)
  have lr: "last_round st = last_round st'" using sim(2) by (simp add: st_sim_def)
  have i: "node_inv c S (b, st')" using assms(3) sim(1) by (simp add: node_inv_def b_sim_fields)
  have A': "anchor g b st' A'" "order_leaders g b st' A' = Some (f' # ls')"
    using assms(7,8) anchor_b_sim[OF sim(1)] order_leaders_b_sim[OF sim(1)] by simp_all
  have "c_header f = c_header f'"
  proof (cases "c_round A \<le> c_round A'")
    case True
    show ?thesis by (rule first_leader_agree[OF assms(2) i lr True assms(4) A'(1) assms(5) A'(2)])
  next
    case False
    hence "c_round A' \<le> c_round A" by simp
    from first_leader_agree[OF i assms(2) lr[symmetric] this A'(1) assms(4) A'(2) assms(5)] show ?thesis ..
  qed
  moreover have "in_dag (dag_of st) f" "committed_round (last_round st) < c_round f" "in_dag (dag_of st') f'"
    using anchor_leaders(4)[OF assms(2,4,5)] anchor_leaders(4)[OF i A'] by auto
  moreover have "good_state c S st" "good_state c S st'" using assms(2,3) by (simp_all add: node_inv_def)
  ultimately show ?thesis using commit_first_sim[OF _ _ sim(2,1) _ _ _ _ assms(6,9)] by (simp add: node_sim_def)
qed

section \<open>Agreement of whole runs\<close>

lemma micro_inv:
  assumes "micro S g n out m" "node_inv c S n"
  shows "node_inv c S m"
  using assms
proof (cases rule: micro.cases)
  case (insert x st st' r b b')
  thus ?thesis using node_inv_insert assms(2) by blast
next
  case (commit b st x f ls b' st' sd ch)
  have "node_inv c S (b, st)" using assms(2) commit(1) by simp
  thus ?thesis using anchor_leaders(4)[OF _ commit(4,5)] node_inv_commit[OF _ _ _ _ commit(6)] commit(3) by simp
qed

lemma micros_inv: "micros S g n out m \<Longrightarrow> node_inv c S n \<Longrightarrow> node_inv c S m"
  by (induction rule: micros.induct) (auto intro: micro_inv)

text \<open>The last commit of a non-empty output; insertions may follow it.\<close>

lemma micros_last:
  assumes "micros S g n out m" "out \<noteq> []"
  shows "\<exists>o' sd b st A f ls b' st' ch. out = o' @ [sd] \<and> micros S g n o' (b, st) \<and> anchor g b st A \<and>
    order_leaders g b st A = Some (f # ls) \<and> commit_first b st f = Some (b', st', sd, ch) \<and> node_sim (b', st') m"
  using assms
proof (induction rule: micros.induct)
  case (snoc n out d o2 e)
  from snoc.hyps(2) show ?case
  proof (cases rule: micro.cases)
    case (insert x st st' r b b')
    have de: "node_sim d e" using insert_sim[OF insert(5,6)] insert(1,3) by simp
    have "out \<noteq> []" using snoc.prems insert(2) by simp
    then obtain o' sd b1 st1 A f ls b2 st2 ch where "out = o' @ [sd]" "micros S g n o' (b1, st1)" "anchor g b1 st1 A"
      "order_leaders g b1 st1 A = Some (f # ls)" "commit_first b1 st1 f = Some (b2, st2, sd, ch)" "node_sim (b2, st2) d"
      using snoc.IH by blast
    thus ?thesis using insert(2) node_sim_trans[OF _ de] by (metis append_Nil2)
  next
    case (commit b st x f ls b' st' sd ch)
    thus ?thesis using snoc.hyps(1) node_sim_refl by blast
  qed
qed simp

lemma micros_empty: "micros S g n out m \<Longrightarrow> out = [] \<Longrightarrow> node_sim n m"
proof (induction rule: micros.induct)
  case (snoc n out d o2 e)
  from snoc.hyps(2) show ?case
  proof (cases rule: micro.cases)
    case (insert x st st' r b b')
    hence "node_sim d e" using insert_sim by simp
    thus ?thesis using snoc node_sim_trans by blast
  qed (use snoc.prems in simp)
qed (rule node_sim_refl)

lemma micros_agree:
  assumes "node_sim n m" "node_inv c S n" "node_inv c S m" "micros S g n out1 n'" "micros S g m out2 m'" "length out1 = length out2"
  shows "list_all2 same_sub_dag out1 out2 \<and> node_sim n' m'"
  using assms(4-6)
proof (induction "length out1" arbitrary: out1 out2 n' m')
  case 0
  hence o: "out1 = []" "out2 = []" by auto
  have "node_sim n n'" "node_sim m m'" using micros_empty[OF 0(2) o(1)] micros_empty[OF 0(3) o(2)] by auto
  thus ?case using o node_sim_trans[OF node_sim_trans[OF node_sim_sym assms(1)]] by simp
next
  case (Suc k)
  have ne: "out1 \<noteq> []" "out2 \<noteq> []" using Suc by auto
  obtain o1 sd1 b st A f ls b1 st1 ch where l1: "out1 = o1 @ [sd1]" "micros S g n o1 (b, st)" "anchor g b st A"
    "order_leaders g b st A = Some (f # ls)" "commit_first b st f = Some (b1, st1, sd1, ch)" "node_sim (b1, st1) n'"
    using micros_last[OF Suc.prems(1) ne(1)] by blast
  obtain o2 sd2 b' st' A' f' ls' b1' st1' ch' where l2: "out2 = o2 @ [sd2]" "micros S g m o2 (b', st')" "anchor g b' st' A'"
    "order_leaders g b' st' A' = Some (f' # ls')" "commit_first b' st' f' = Some (b1', st1', sd2, ch')" "node_sim (b1', st1') m'"
    using micros_last[OF Suc.prems(2) ne(2)] by blast
  have len: "k = length o1" "length o1 = length o2" using Suc.hyps(2) Suc.prems(3) l1(1) l2(1) by simp_all
  have ih: "list_all2 same_sub_dag o1 o2 \<and> node_sim (b, st) (b', st')" by (rule Suc.hyps(1)[OF len(1) l1(2) l2(2) len(2)])
  have "same_sub_dag sd1 sd2 \<and> node_sim (b1, st1) (b1', st1')"
    using commit_determined[OF _ micros_inv[OF l1(2) assms(2)] micros_inv[OF l2(2) assms(3)] l1(3-5) l2(3-5)] ih by blast
  moreover from this have "node_sim n' m'"
    using node_sim_trans[OF node_sim_trans[OF node_sim_sym[OF l1(6)]] l2(6)] by blast
  ultimately show ?case using ih l1(1) l2(1) by (simp add: list_all2_appendI)
qed

lemma micros_take: "micros S g n out m \<Longrightarrow> \<exists>m'. micros S g n (take k out) m'"
proof (induction rule: micros.induct)
  case (nil n)
  show ?case by (rule exI[of _ n]) (simp add: micros.nil)
next
  case (snoc n out d o' e)
  show ?case
  proof (cases "k \<le> length out")
    case True
    thus ?thesis using snoc.IH by simp
  next
    case False
    have "length o' \<le> 1" using snoc.hyps(2) by (cases rule: micro.cases) auto
    hence "take k (out @ o') = out @ o'" using False by simp
    thus ?thesis using micros.snoc[OF snoc.hyps] by metis
  qed
qed

lemma run_micros:
  assumes "(run_step S g)\<^sup>*\<^sup>* (b0, st0, []) t" "node_inv c S (b0, st0)"
  shows "micros S g (b0, st0) (snd (snd t)) (fst t, fst (snd t)) \<and> node_inv c S (fst t, fst (snd t))"
  using assms(1)
proof (induction rule: rtranclp_induct)
  case base
  show ?case using assms(2) micros.nil by simp
next
  case (step t u)
  from step.hyps(2) show ?case
  proof (cases rule: run_step.cases)
    case (process x b st b' st' oc cs out)
    have i: "node_inv c S (b, st)" and m: "micros S g (b0, st0) out (b, st)" using step.IH process(1) by simp_all
    have "micros S g (b, st) cs (b', st')" "node_inv c S (b', st')"
      using process_certificate_micros[OF i process(3,4)] by simp_all
    thus ?thesis using micros_trans[OF _ m] process(2) by simp
  qed
qed

lemma node_inv_new:
  assumes "cert_universe c S" "bs_committee b = c" "0 < depth"
  shows "node_inv c S (b, cstate_new depth)"
proof -
  have "state_inv S (cstate_new depth)" using assms(1) cstate_wf_new[of depth]
    by (auto simp: state_inv_def cert_universe_def) (simp add: cstate_new_def)
  moreover have "state_closed (cstate_new depth)" by (simp add: state_closed_def dag_closed_def cstate_new_def)
  ultimately show ?thesis using assms by (simp add: node_inv_def good_state_def) (simp add: cstate_new_def)
qed

text \<open>Two runs over the same universe output the same sub dags in the same order.\<close>

lemma runs_total_order:
  assumes "cert_universe (bs_committee b) S" "b_sim b b'" "0 < depth"
    and "(run_step S g)\<^sup>*\<^sup>* (b, cstate_new depth, []) (b1, st1, out1)"
    and "(run_step S g)\<^sup>*\<^sup>* (b', cstate_new depth, []) (b2, st2, out2)"
    and "length out1 \<le> length out2"
  shows "list_all2 same_sub_dag out1 (take (length out1) out2)"
proof -
  have c: "bs_committee b' = bs_committee b" using assms(2) by (simp add: b_sim_fields)
  note i = node_inv_new[OF assms(1) refl assms(3)] node_inv_new[OF assms(1) c assms(3)]
  have m1: "micros S g (b, cstate_new depth) out1 (b1, st1)" using run_micros[OF assms(4) i(1)] by simp
  have "micros S g (b', cstate_new depth) out2 (b2, st2)" using run_micros[OF assms(5) i(2)] by simp
  then obtain m where m2: "micros S g (b', cstate_new depth) (take (length out1) out2) m" using micros_take by blast
  have "node_sim (b, cstate_new depth) (b', cstate_new depth)"
    using assms(2) by (simp add: node_sim_def st_sim_def option.rel_refl)
  thus ?thesis using micros_agree[OF _ i m1 m2] assms(6) by simp
qed

end
