(* ===== verification/Sample_Network.thy ===== *)
theory Sample_Network
  imports Bullshark_Total_Order "HOL-Library.Code_Target_Nat"
begin

text \<open>
  A concrete network for the examples of the development: a committee of four authorities with one
  vote each, certificates of three rounds, and two runs of the protocol that receive them in
  different orders.
\<close>

definition sample_builder :: committee_builder where
  "sample_builder = fold (\<lambda>i. add_authority (\<lambda>k. k) (10 + i) 1 ''addr'' i i ''host'') [1, 2, 3, 4] (builder_new 0)"

definition sample_committee :: committee where
  "sample_committee = (case build sample_builder of Some c \<Rightarrow> c | None \<Rightarrow> undefined)"

definition sample_digest :: "round \<Rightarrow> authority_id \<Rightarrow> digest" where
  "sample_digest r a = 10 * r + a"

definition sample_header :: "round \<Rightarrow> authority_id \<Rightarrow> header" where
  "sample_header r a =
     \<lparr> h_author = a, h_round = r, h_epoch = 0, h_created_at = 100 * r + a, h_payload = [],
       h_parents = (if r = 0 then [] else map (sample_digest (r - 1)) (if r = 1 then [1, 2, 3, 4] else [1, 2, 3])),
       h_latest_execution_block = (0, 0), h_digest = sample_digest r a \<rparr>"

definition sample_cert :: "round \<Rightarrow> authority_id \<Rightarrow> certificate" where
  "sample_cert r a = \<lparr> c_header = sample_header r a, c_state = VerifiedDirectly 7, c_signed = [0, 1, 2], c_created_at = 0 \<rparr>"

definition sample_certs :: "certificate list" where
  "sample_certs = map (\<lambda>(r, a). sample_cert r a) [(1, 1), (1, 2), (1, 3), (2, 1), (2, 2), (2, 3), (3, 1), (3, 2)]"

definition sample_certs' :: "certificate list" where
  "sample_certs' = map (\<lambda>(r, a). sample_cert r a) [(1, 3), (1, 2), (1, 1), (2, 3), (2, 1), (2, 2), (3, 2), (3, 1)]"

definition sample_bullshark :: bullshark where
  "sample_bullshark =
     \<lparr> bs_committee = sample_committee, bs_max_inserted = 0, bs_subdags_per_schedule = 10,
       bs_schedule = \<lparr> ls_committee = sample_committee, ls_table = swap_table_default \<rparr>, bs_threshold = 0 \<rparr>"

fun run_all :: "rng \<Rightarrow> run_state \<Rightarrow> certificate list \<Rightarrow> run_state option" where
  "run_all g s [] = Some s"
| "run_all g (b, st, out) (x # xs) =
     (case process_certificate g b st x of
        Some (b', st', Inr (oc, cs)) \<Rightarrow> run_all g (b', st', out @ cs) xs
      | _ \<Rightarrow> None)"

lemma run_all_steps: "run_all g s xs = Some t \<Longrightarrow> set xs \<subseteq> S \<Longrightarrow> (run_step S g)\<^sup>*\<^sup>* s t"
proof (induction g s xs rule: run_all.induct)
  case (2 g b st out x xs)
  obtain b' st' oc cs where p: "process_certificate g b st x = Some (b', st', Inr (oc, cs))" "run_all g (b', st', out @ cs) xs = Some t"
    using 2(2) by (auto split: option.splits sum.splits)
  have "run_step S g (b, st, out) (b', st', out @ cs)" using p(1) 2(3) by (intro run_step.process) auto
  moreover have "(run_step S g)\<^sup>*\<^sup>* (b', st', out @ cs) t" using 2(1)[OF p(1)] p(2) 2(3) by simp
  ultimately show ?case by (rule converse_rtranclp_into_rtranclp)
qed simp

lemma sample_committee_built: "build sample_builder = Some sample_committee"
  by code_simp

lemma sample_builder_wf: "auths_wf (b_authorities sample_builder)"
  unfolding sample_builder_def by (simp add: add_authority_wf builder_new_wf)

lemma sample_committee_wf: "committee_wf sample_committee"
  using build_wf[OF sample_builder_wf sample_committee_built] .

lemma sample_power: "power_fits sample_committee" "members sample_committee = {1, 2, 3, 4}"
  "map (voting_power_by_id sample_committee) [1, 2, 3, 4] = [1, 1, 1, 1]"
  "quorum_threshold sample_committee = 3" "validity_threshold sample_committee = 2"
  by code_simp+

lemma sample_total: "total_power sample_committee = 4"
  using sample_power(2,3) by (simp add: total_power_def)

definition sample_crypto :: crypto where
  "sample_crypto =
     \<lparr> hash_header = (\<lambda>h. sample_digest (h_round h) (h_author h)), aggregate_sigs = (\<lambda>ss. Some (sum_list ss)),
       verify_aggregate = (\<lambda>s d ks. s = d + sum_list ks), default_sig = 0 \<rparr>"

lemma parent_origins_set [code]:
  "parent_origins (set xs) x =
     set (map c_origin (filter (\<lambda>y. cert_digest y \<in> set (c_parents x) \<and> c_round y + 1 = c_round x) xs))"
  by (auto simp: parent_origins_def)

lemma sample_universe: "cert_universe sample_committee (set sample_certs)"
proof -
  have "collision_free (set sample_certs)" "no_equivocation (set sample_certs)"
    "parents_quorum sample_committee (set sample_certs)" "\<forall>x\<in>set sample_certs. c_origin x \<in> members sample_committee"
    by code_simp+
  thus ?thesis using sample_committee_wf sample_power(1) by (simp add: cert_universe_def)
qed

lemma sample_certs_same: "set sample_certs' = set sample_certs"
  by (auto simp: sample_certs_def sample_certs'_def)

definition run_digests :: "certificate list \<Rightarrow> digest list list option" where
  "run_digests xs = map_option (\<lambda>t. map (\<lambda>s. map cert_digest (sd_certificates s)) (snd (snd t)))
     (run_all first_rng (sample_bullshark, cstate_new 50, []) xs)"

lemma sample_digests:
  "run_digests sample_certs = Some [[13, 12, 11, 21]]" "run_digests sample_certs' = Some [[13, 12, 11, 21]]"
  by code_simp+

lemma run_digests_steps:
  assumes "run_digests xs = Some ds" "set xs \<subseteq> S"
  obtains b st out where "(run_step S first_rng)\<^sup>*\<^sup>* (sample_bullshark, cstate_new 50, []) (b, st, out)"
    "map (\<lambda>s. map cert_digest (sd_certificates s)) out = ds"
proof -
  obtain b st out where "run_all first_rng (sample_bullshark, cstate_new 50, []) xs = Some (b, st, out)"
    "map (\<lambda>s. map cert_digest (sd_certificates s)) out = ds"
    using assms(1) by (auto simp: run_digests_def)
  thus ?thesis using that run_all_steps assms(2) by blast
qed

end
