(* ===== verification/Core_Properties.thy ===== *)
theory Core_Properties
  imports Sample_Network
begin

text \<open>
  The properties of the consensus core: the total order of commits, what a run outputs, that every
  certificate is processed, the flattening of sub dags and the state of the DAG.
  Each property is followed by its instance on the sample network.
\<close>

section \<open>Agreement\<close>

text \<open>C2: two validators that start from the same committee and parameters and process certificates
  of one universe (digests without collisions, one header per author and round, parents that reach a
  quorum), each in the order it receives them, output the same sub dags: the shorter output is a
  prefix of the longer one, with the same headers, scores and commit timestamps.\<close>

theorem validators_agree:
  assumes "cert_universe (bs_committee b) S" "bs_committee b' = bs_committee b" "bs_schedule b' = bs_schedule b"
    and "bs_subdags_per_schedule b' = bs_subdags_per_schedule b" "bs_threshold b' = bs_threshold b" "0 < depth"
    and "(run_step S g)\<^sup>*\<^sup>* (b, cstate_new depth, []) (b1, st1, out1)"
    and "(run_step S g)\<^sup>*\<^sup>* (b', cstate_new depth, []) (b2, st2, out2)"
    and "length out1 \<le> length out2"
  shows "list_all2 same_sub_dag out1 (take (length out1) out2)"
  by (rule runs_total_order[OF assms(1) _ assms(6-9)]) (simp add: b_sim_fields assms(2-5))

theorem validators_agree_witness:
  "\<exists>b1 st1 out1 b2 st2 out2.
     (run_step (set sample_certs) first_rng)\<^sup>*\<^sup>* (sample_bullshark, cstate_new 50, []) (b1, st1, out1) \<and>
     (run_step (set sample_certs) first_rng)\<^sup>*\<^sup>* (sample_bullshark, cstate_new 50, []) (b2, st2, out2) \<and>
     length out1 = 1 \<and> length out2 = 1 \<and> list_all2 same_sub_dag out1 out2"
proof -
  obtain b1 st1 out1 where r1: "(run_step (set sample_certs) first_rng)\<^sup>*\<^sup>* (sample_bullshark, cstate_new 50, []) (b1, st1, out1)"
    "map (\<lambda>s. map cert_digest (sd_certificates s)) out1 = [[13, 12, 11, 21]]"
    using run_digests_steps[OF sample_digests(1)] by blast
  obtain b2 st2 out2 where r2: "(run_step (set sample_certs) first_rng)\<^sup>*\<^sup>* (sample_bullshark, cstate_new 50, []) (b2, st2, out2)"
    "map (\<lambda>s. map cert_digest (sd_certificates s)) out2 = [[13, 12, 11, 21]]"
    using run_digests_steps[OF sample_digests(2)] sample_certs_same by blast
  have l: "length out1 = 1" "length out2 = 1" using arg_cong[OF r1(2), of length] arg_cong[OF r2(2), of length] by simp_all
  have "cert_universe (bs_committee sample_bullshark) (set sample_certs)" using sample_universe by (simp add: sample_bullshark_def)
  from validators_agree[OF this refl refl refl refl _ r1(1) r2(1)] have "list_all2 same_sub_dag out1 out2" using l by simp
  thus ?thesis using r1(1) r2(1) l by blast
qed

section \<open>Runs of one validator\<close>

lemma origin_rounds_distinct:
  "(\<And>a. sorted_wrt (<) (origin_rounds a xs)) \<Longrightarrow> distinct (map (\<lambda>x. (c_origin x, c_round x)) xs)"
proof (induction xs)
  case (Cons x xs)
  have "sorted_wrt (<) (origin_rounds a xs)" for a
    using Cons.prems[of a] by (simp add: origin_rounds_def split: if_splits)
  moreover have "\<forall>y\<in>set xs. c_origin y = c_origin x \<longrightarrow> c_round x < c_round y"
    using Cons.prems[of "c_origin x"] by (auto simp: origin_rounds_def)
  ultimately show ?case using Cons.IH by (auto simp: image_iff)
qed simp

text \<open>C4: over a run, no author has two certificates of one round committed, the leaders have even
  and strictly ascending rounds, every sub dag ends below or at its leader and contains it, and the
  commit timestamps never decrease.\<close>

theorem run_output_ordered:
  assumes "collision_free S" "(run_step S g)\<^sup>*\<^sup>* (b, cstate_new depth, []) (b', st', out)"
  shows "distinct (map (\<lambda>x. (c_origin x, c_round x)) (committed_log out)) \<and>
    sorted_wrt (<) (map (\<lambda>s. c_round (sd_leader s)) out) \<and>
    (\<forall>s\<in>set out. c_round (sd_leader s) mod 2 = 0 \<and> sd_leader s \<in> set (sd_certificates s) \<and>
       (\<forall>x\<in>set (sd_certificates s). c_round x \<le> c_round (sd_leader s))) \<and>
    sorted (map sd_commit_timestamp out)"
proof -
  have "run_inv S (b', st', out)" using run.inv_reachable[OF _ assms(2)] assms(1) by (auto simp: run_start_def)
  hence "output_inv st' out" by (simp add: run_inv_def)
  thus ?thesis using origin_rounds_distinct[of "committed_log out"] unfolding output_inv_def by blast
qed

theorem run_output_ordered_witness:
  "\<exists>b' st' out. (run_step (set sample_certs) first_rng)\<^sup>*\<^sup>* (sample_bullshark, cstate_new 50, []) (b', st', out) \<and>
     length out = 1 \<and> distinct (map (\<lambda>x. (c_origin x, c_round x)) (committed_log out))"
proof -
  obtain b1 st1 out1 where r1: "(run_step (set sample_certs) first_rng)\<^sup>*\<^sup>* (sample_bullshark, cstate_new 50, []) (b1, st1, out1)"
    "map (\<lambda>s. map cert_digest (sd_certificates s)) out1 = [[13, 12, 11, 21]]"
    using run_digests_steps[OF sample_digests(1)] by blast
  have "length out1 = 1" using arg_cong[OF r1(2), of length] by simp
  moreover have "collision_free (set sample_certs)" using sample_universe by (simp add: cert_universe_def)
  ultimately show ?thesis using run_output_ordered[OF _ r1(1)] r1(1) by blast
qed

text \<open>C5: processing a certificate always returns: with the deployed threshold of zero for bad nodes
  and authorities with positive power, no assertion fails, no look-up panics and the retry after a
  schedule change ends. The state is one that satisfies the invariants of a run: its certificates and
  the new one belong to one set by members of the committee, its scores are those of members, and it
  agrees with the sub dags committed so far.\<close>

theorem process_certificate_returns:
  assumes "protocol_ok b" "rng_spec g" "scores_ok (bs_committee b) st" "state_inv S st" "output_inv st out" "x \<in> S"
    and "\<forall>y\<in>S. c_origin y \<in> members (bs_committee b)"
  shows "\<exists>b' st' r. process_certificate g b st x = Some (b', st', r)"
  using process_certificate_total[OF assms(1-6)] assms(7) by blast

theorem process_certificate_returns_witness:
  "\<exists>b' st' r. process_certificate first_rng sample_bullshark (cstate_new 50) (sample_cert 1 1) = Some (b', st', r)"
proof -
  have "protocol_ok sample_bullshark" unfolding protocol_ok_def
    using sample_committee_wf sample_power by (auto simp: sample_bullshark_def swap_table_default_def)
  moreover have "scores_ok (bs_committee sample_bullshark) (cstate_new 50)" by (simp add: scores_ok_def cstate_new_def)
  moreover have "state_inv (set sample_certs) (cstate_new 50)" "output_inv (cstate_new 50) []"
    using run_inv_start[of "set sample_certs" "(sample_bullshark, cstate_new 50, [])"] sample_universe
    by (auto simp: run_start_def run_inv_def cert_universe_def)
  moreover have "sample_cert 1 1 \<in> set sample_certs" by (simp add: sample_certs_def)
  moreover have "\<forall>y\<in>set sample_certs. c_origin y \<in> members (bs_committee sample_bullshark)"
    using sample_universe by (simp add: cert_universe_def sample_bullshark_def)
  ultimately show ?thesis using process_certificate_returns first_rng_spec by blast
qed

section \<open>The DAG\<close>

text \<open>C6: flattening the sub dag of a leader returns exactly the certificates that the leader reaches
  through parents in the DAG without passing a committed one or the garbage collection round, each
  once, in ascending rounds.\<close>

theorem order_dag_is_history:
  assumes "cstate_wf st" "collision_free {x. in_dag (dag_of st) x}" "in_dag (dag_of st) leader" "order_dag leader st = Some seq"
  shows "set seq = {x. history st (c_round leader - gc_depth st) leader x} \<and>
    distinct (map cert_digest seq) \<and> sorted (map c_round seq)"
proof -
  have "search_ok st" using cstate_search_ok[OF assms(1,2)] .
  thus ?thesis
    using order_dag_history[OF _ assms(3,4)] order_dag_distinct[OF _ assms(3,4)] order_dag_sorted[OF assms(4)] by blast
qed

definition sample_state :: cstate where
  "sample_state = fold (\<lambda>x st. fst (try_insert st x)) (take 6 sample_certs) (cstate_new 50)"

lemma sample_state_wf: "cstate_wf sample_state" "{x. in_dag (dag_of sample_state) x} \<subseteq> set sample_certs"
proof -
  have "cstate_wf (fold (\<lambda>x st. fst (try_insert st x)) xs st) \<and>
      {x. in_dag (dag_of (fold (\<lambda>x st. fst (try_insert st x)) xs st)) x} \<subseteq> S"
    if "cstate_wf st" "{x. in_dag (dag_of st) x} \<subseteq> S" "set xs \<subseteq> S" for xs S st
    using that
  proof (induction xs arbitrary: st)
    case (Cons x xs)
    obtain st1 r where ti: "try_insert st x = (st1, r)" by force
    have "in_dag (dag_of st1) y \<Longrightarrow> in_dag (dag_of st) y \<or> y = x" for y
      using ti by (auto simp: try_insert_def try_insert_in_dag_def in_dag_put split: if_splits sum.splits option.splits)
    thus ?case using Cons.IH[of st1] cstate_wf_try_insert[OF Cons.prems(1) ti] Cons.prems(2,3) ti by auto
  qed simp
  moreover have empty: "{x. in_dag (dag_of (cstate_new 50)) x} \<subseteq> set sample_certs" by (simp add: cstate_new_def)
  ultimately show "cstate_wf sample_state" "{x. in_dag (dag_of sample_state) x} \<subseteq> set sample_certs"
    using cstate_wf_new[of 50] set_take_subset[of 6 sample_certs] empty unfolding sample_state_def by blast+
qed

lemma in_dag_code [code]:
  "in_dag d x = (case map_of d (c_round x) of None \<Rightarrow> False | Some tbl \<Rightarrow> map_of tbl (c_origin x) = Some (cert_digest x, x))"
  by (simp add: in_dag_def split: option.split)

lemma sample_state_leader: "in_dag (dag_of sample_state) (sample_cert 2 1)"
  "map_option (map cert_digest) (order_dag (sample_cert 2 1) sample_state) = Some [13, 12, 11, 21]"
  by code_simp+

theorem order_dag_is_history_witness:
  "\<exists>seq. order_dag (sample_cert 2 1) sample_state = Some seq \<and> length seq = 4 \<and>
     set seq = {x. history sample_state (2 - gc_depth sample_state) (sample_cert 2 1) x}"
proof -
  obtain seq where seq: "order_dag (sample_cert 2 1) sample_state = Some seq" "map cert_digest seq = [13, 12, 11, 21]"
    using sample_state_leader(2) by auto
  have "collision_free {x. in_dag (dag_of sample_state) x}"
    using collision_free_subset sample_state_wf(2) sample_universe by (auto simp: cert_universe_def)
  from order_dag_is_history[OF sample_state_wf(1) this sample_state_leader(1) seq(1)]
  show ?thesis using seq arg_cong[OF seq(2), of length] by (auto simp: sample_cert_def sample_header_def)
qed

text \<open>C20: the walk over rounds that links two leaders succeeds exactly when a path of parents leads
  from the later leader to a certificate equal to the earlier one.\<close>

theorem linked_is_reachability:
  assumes "dag_wf d" "c_round prev \<le> c_round leader"
  shows "linked leader prev d \<longleftrightarrow> (\<exists>z. path d leader z \<and> cert_eq z prev)"
  using assms by (rule linked_iff_path)

theorem linked_is_reachability_witness:
  "linked (sample_cert 2 1) (sample_cert 1 1) (dag_of sample_state) \<and>
   (\<exists>z. path (dag_of sample_state) (sample_cert 2 1) z \<and> cert_eq z (sample_cert 1 1))"
proof -
  have "linked (sample_cert 2 1) (sample_cert 1 1) (dag_of sample_state)" by code_simp
  moreover have "dag_wf (dag_of sample_state)" using sample_state_wf(1) by (simp add: cstate_wf_def)
  moreover have "c_round (sample_cert 1 1) \<le> c_round (sample_cert 2 1)" by (simp add: sample_cert_def sample_header_def)
  ultimately show ?thesis using linked_is_reachability by blast
qed

text \<open>C13: every certificate processed keeps the state well formed: the DAG has one certificate per
  author and round above the garbage collection round, the collection round follows the committed
  round, no author is committed past it, and without equivocation the parents of every certificate
  above the collection round stay in the DAG.\<close>

theorem process_certificate_keeps_state:
  assumes "process_certificate g b st x = Some (b', st', r)" "state_inv S st" "output_inv st out" "x \<in> S"
    and "no_equivocation S" "state_closed st"
  shows "state_inv S st' \<and> state_closed st' \<and> output_inv st' (out @ committed_by r) \<and>
    committed_round (last_round st) \<le> committed_round (last_round st')"
  using process_certificate_inv[OF assms(1-4)] process_certificate_closed[OF assms(1,2,6,5,4)] by blast

theorem process_certificate_keeps_state_witness:
  "\<exists>b' st' r. process_certificate first_rng sample_bullshark (cstate_new 50) (sample_cert 1 1) = Some (b', st', r) \<and>
     state_inv (set sample_certs) st' \<and> state_closed st'"
proof -
  have "process_certificate first_rng sample_bullshark (cstate_new 50) (sample_cert 1 1) \<noteq> None" by code_simp
  then obtain b' st' r where p: "process_certificate first_rng sample_bullshark (cstate_new 50) (sample_cert 1 1) = Some (b', st', r)"
    by auto
  have "state_inv (set sample_certs) (cstate_new 50)" "output_inv (cstate_new 50) []" "no_equivocation (set sample_certs)"
    using run_inv_start[of "set sample_certs" "(sample_bullshark, cstate_new 50, [])"] sample_universe
    by (auto simp: run_start_def run_inv_def cert_universe_def)
  moreover have "sample_cert 1 1 \<in> set sample_certs" by (simp add: sample_certs_def)
  moreover have "state_closed (cstate_new 50)" by (simp add: state_closed_def dag_closed_def cstate_new_def)
  ultimately show ?thesis using process_certificate_keeps_state[OF p] p by blast
qed

text \<open>A state recovered from the store is well formed whenever the recovered rounds of the authors
  do not exceed the recovered committed round, whatever certificates the store returns.\<close>

theorem recovered_state_wf:
  assumes "new_from_store r depth recovered latest after_round = Some st" "\<forall>a. committed_of recovered a \<le> r"
  shows "cstate_wf st"
  using cstate_wf_new_from_store[OF assms(1)] assms(2) by blast

theorem recovered_state_wf_witness:
  "\<exists>st. new_from_store 2 50 [(1, 2)] None (\<lambda>_. sample_certs) = Some st \<and> cstate_wf st"
proof -
  have "new_from_store 2 50 [(1, 2)] None (\<lambda>_. sample_certs) \<noteq> None" by code_simp
  then obtain st where "new_from_store 2 50 [(1, 2)] None (\<lambda>_. sample_certs) = Some st" by auto
  moreover have "\<forall>a. committed_of [(1, 2)] a \<le> 2" by (simp add: committed_of_def)
  ultimately show ?thesis using recovered_state_wf by blast
qed

end
