(* ===== verification/Leader_Properties.thy ===== *)
theory Leader_Properties
  imports Sample_Network
begin

text \<open>
  Properties of leader election: the swap table, the elected leader and the ranking by score.
\<close>

section \<open>Leader election\<close>

text \<open>C31: with a swap table built from final scores of the whole committee, the leader elected for a
  round is an authority of the committee and is never one of the bad nodes of the table.\<close>

theorem elected_leader_not_bad:
  assumes "committee_wf c" "33 * total_power c < u64_max" "0 < total_power c" "scores_cover c rs" "rng_spec g"
    and "swap_table_new c r rs threshold = Some t" "schedule_leader g \<lparr> ls_committee = c, ls_table = t \<rparr> r' = Some l"
  shows "l \<in> set (bt_values (authorities c)) \<and> map_of (bad_nodes t) (auth_id l) = None"
proof -
  obtain w where w: "committee_leader (rng_weighted g) c r' = Some w"
    and l: "swap g t (auth_id w) r' = Some None \<and> l = w \<or> swap g t (auth_id w) r' = Some (Some l)"
    using assms(7) by (auto simp: schedule_leader_def split: if_splits option.splits)
  have "w \<in> set (bt_values (authorities c))"
    using assms(5) w unfolding rng_spec_def committee_leader_def by fastforce
  moreover have "l \<in> set (good_nodes t)" if "swap g t (auth_id w) r' = Some (Some l)"
  proof -
    have "rng_choose g r' (good_nodes t) = Some l" using that by (auto simp: swap_def split: if_splits option.splits)
    thus ?thesis using assms(5) unfolding rng_spec_def by blast
  qed
  moreover have "map_of (bad_nodes t) (auth_id w) = None" if "swap g t (auth_id w) r' = Some None"
    using that by (auto simp: swap_def split: if_splits option.splits)
  ultimately show ?thesis using l good_not_bad[OF assms(1-4,6)] by blast
qed

definition sample_scores :: reputation_scores where
  "sample_scores = (add_score 1 5 (add_score 2 3 (add_score 3 2 (scores_new sample_committee))))\<lparr> final_of_schedule := True \<rparr>"

definition sample_table :: swap_table where
  "sample_table = (case swap_table_new sample_committee 8 sample_scores 33 of Some t \<Rightarrow> t | None \<Rightarrow> undefined)"

lemma sample_scores_cover: "scores_cover sample_committee sample_scores"
  unfolding sample_scores_def scores_cover_final using scores_cover_new[OF sample_committee_wf] sample_power(2)
  by (intro scores_cover_add) auto

lemma sample_table_new: "swap_table_new sample_committee 8 sample_scores 33 = Some sample_table"
proof -
  have "swap_table_new sample_committee 8 sample_scores 33 \<noteq> None" by code_simp
  thus ?thesis by (auto simp: sample_table_def)
qed

theorem elected_leader_not_bad_witness:
  "\<exists>l. schedule_leader first_rng \<lparr> ls_committee = sample_committee, ls_table = sample_table \<rparr> 10 = Some l \<and>
     map_of (bad_nodes sample_table) (auth_id l) = None"
proof -
  have "schedule_leader first_rng \<lparr> ls_committee = sample_committee, ls_table = sample_table \<rparr> 10 \<noteq> None" by code_simp
  then obtain l where l: "schedule_leader first_rng \<lparr> ls_committee = sample_committee, ls_table = sample_table \<rparr> 10 = Some l" by auto
  from elected_leader_not_bad[OF sample_committee_wf _ _ sample_scores_cover first_rng_spec sample_table_new this]
  show ?thesis using l by (simp add: sample_total u64_max_def)
qed

text \<open>The bad nodes of a swap table hold less power than the validity threshold, so swapping them
  out never removes the only correct authorities.\<close>

theorem swapped_power_below_validity:
  assumes "committee_wf c" "33 * total_power c < u64_max" "0 < total_power c" "scores_cover c rs"
    and "swap_table_new c r rs threshold = Some t"
  shows "sum (voting_power_by_id c) {i. map_of (bad_nodes t) i \<noteq> None} < validity_threshold c"
  using assms by (rule bad_nodes_stake)

theorem swapped_power_below_validity_witness:
  "sum (voting_power_by_id sample_committee) {i. map_of (bad_nodes sample_table) i \<noteq> None} < 2"
  using swapped_power_below_validity[OF sample_committee_wf _ _ sample_scores_cover sample_table_new] sample_power(5)
  by (simp add: sample_total u64_max_def)

text \<open>Electing the leader of an even round panics exactly when the weighted choice is a bad node and
  the table has no good node to replace it with.\<close>

theorem leader_panics_iff:
  assumes "rng_spec g" "r mod 2 = 0" "a \<in> set (bt_values (authorities (ls_committee ls)))" "0 < voting_power a"
  shows "schedule_leader g ls r = None \<longleftrightarrow>
    (\<exists>l. committee_leader (rng_weighted g) (ls_committee ls) r = Some l \<and>
       map_of (bad_nodes (ls_table ls)) (auth_id l) \<noteq> None \<and> good_nodes (ls_table ls) = [])"
proof -
  let ?xs = "map (\<lambda>a. (a, voting_power a)) (bt_values (authorities (ls_committee ls)))"
  have "\<exists>(a, w)\<in>set ?xs. 0 < w" using assms(3,4) by auto
  hence "rng_weighted g r ?xs \<noteq> None" using assms(1) unfolding rng_spec_def by blast
  hence "committee_leader (rng_weighted g) (ls_committee ls) r \<noteq> None" by (simp add: committee_leader_def)
  then obtain l where l: "committee_leader (rng_weighted g) (ls_committee ls) r = Some l" by blast
  have "a \<notin> set [] \<Longrightarrow> rng_choose g r [] \<noteq> Some a" for a using assms(1) unfolding rng_spec_def by blast
  hence none: "rng_choose g r [] = None" by (cases "rng_choose g r []") auto
  have some: "xs \<noteq> [] \<Longrightarrow> rng_choose g r xs \<noteq> None" for xs using assms(1) unfolding rng_spec_def by blast
  show ?thesis
  proof (cases "map_of (bad_nodes (ls_table ls)) (auth_id l)")
    case None
    thus ?thesis using l assms(2) by (simp add: schedule_leader_def swap_def)
  next
    case (Some a)
    thus ?thesis using l assms(2) none some[of "good_nodes (ls_table ls)"]
      by (cases "good_nodes (ls_table ls) = []") (auto simp: schedule_leader_def swap_def)
  qed
qed

definition skewed_committee :: "committee option" where
  "skewed_committee = build (fold (\<lambda>(i, p). add_authority (\<lambda>k. k) (10 + i) p ''addr'' i i ''host'') [(1, 10), (2, 50), (3, 40)] (builder_new 0))"

definition skewed_schedule :: schedule where
  "skewed_schedule =
     (case skewed_committee of
        Some c \<Rightarrow>
          (case swap_table_new c 8 ((add_score 2 9 (add_score 3 5 (scores_new c)))\<lparr> final_of_schedule := True \<rparr>) 33 of
             Some t \<Rightarrow> \<lparr> ls_committee = c, ls_table = t \<rparr>
           | None \<Rightarrow> undefined)
      | None \<Rightarrow> undefined)"

theorem leader_panics_iff_witness:
  "schedule_leader first_rng skewed_schedule 10 = None \<and>
   (\<exists>l. committee_leader (rng_weighted first_rng) (ls_committee skewed_schedule) 10 = Some l \<and>
      map_of (bad_nodes (ls_table skewed_schedule)) (auth_id l) \<noteq> None \<and> good_nodes (ls_table skewed_schedule) = [])"
proof -
  have "schedule_leader first_rng skewed_schedule 10 = None" by code_simp
  moreover have "authority_new (\<lambda>k. k) 11 10 ''addr'' 1 1 ''host'' \<in> set (bt_values (authorities (ls_committee skewed_schedule)))"
    by code_simp
  moreover have "0 < voting_power (authority_new (\<lambda>k. k) 11 10 ''addr'' 1 1 ''host'')" by (simp add: authority_new_def)
  ultimately show ?thesis using leader_panics_iff[OF first_rng_spec, of 10] by simp
qed

text \<open>The ranking of authorities is a permutation of the scores, by descending score and, among
  equal scores, by descending identifier.\<close>

theorem ranking_sorted:
  "mset (authorities_by_score_desc rs) = mset (scores_per_authority rs) \<and>
   sorted_wrt (\<lambda>a b. snd b < snd a \<or> snd a = snd b \<and> fst b \<le> fst a) (authorities_by_score_desc rs)"
proof -
  have "score_before = (\<lambda>a b. snd b < snd a \<or> snd a = snd b \<and> fst b \<le> fst a)"
    by (intro ext) (auto simp: score_before_def)
  thus ?thesis using by_score_mset by_score_sorted by metis
qed

end
