(* ===== verification/Certificate_Assembly.thy ===== *)
theory Certificate_Assembly
  imports Consensus_Types
begin

text \<open>
  Assembling a certificate from the votes of a quorum (the function new_internal of
  crates/types/src/primary/certificate.rs): every vote of a member is taken, the bitmap decodes to the
  voters, and the keys that verification uses stand next to the signatures that were aggregated.
\<close>

lemma select_votes_complete:
  "sorted_wrt (<) (map auth_id as) \<Longrightarrow> bt_sorted votes \<Longrightarrow> fst ` set votes \<subseteq> auth_id ` set as \<Longrightarrow>
     snd (select_votes i as votes) = []"
proof (induction i as votes rule: select_votes_induct)
  case (hit i a as k s rest)
  have gt: "\<forall>e\<in>set rest. k < fst e" using hit.prems(2) by (auto simp: bt_sorted_def)
  hence "dropWhile (\<lambda>e. e = (k, s)) rest = rest" by (cases rest) auto
  moreover have "bt_sorted rest" using hit.prems(2) by (simp add: bt_sorted_def)
  moreover have "fst ` set rest \<subseteq> auth_id ` set as" using hit.prems(3) hit.hyps gt by force
  ultimately show ?case using hit by (simp add: select_votes_hit Let_def del: select_votes.simps(2))
next
  case (miss i a as k s rest)
  have "k \<in> auth_id ` set as" using miss.prems(3) miss.hyps by auto
  hence "auth_id a < k" using miss.prems(1) by auto
  moreover have "\<forall>e\<in>set rest. k < fst e" using miss.prems(2) by (auto simp: bt_sorted_def)
  ultimately have "fst ` set ((k, s) # rest) \<subseteq> auth_id ` set as" using miss.prems(3) by force
  thus ?case using miss by (simp add: select_votes_miss del: select_votes.simps(2))
qed (auto simp: bt_sorted_def)

lemma committee_authorities_sorted: "committee_wf c \<Longrightarrow> sorted_wrt (<) (map auth_id (committee_authorities c))"
proof -
  assume w: "committee_wf c"
  have ids: "auth_id (snd e) = fst e" if "e \<in> set (authorities_by_id c)" for e
    using that by_id_sorted[OF w] committee_authority_iff[OF w, of "fst e" "snd e"]
    by (simp add: committee_authority_def bt_sorted_distinct)
  have "map auth_id (committee_authorities c) = map fst (authorities_by_id c)"
    using ids by (simp add: committee_authorities_def bt_values_def)
  thus ?thesis using by_id_sorted[OF w] by (simp add: bt_sorted_def)
qed

lemma select_votes_taken:
  "(j, a, s) \<in> set (fst (select_votes i as votes)) \<Longrightarrow> a \<in> set as \<and> (auth_id a, s) \<in> set votes"
proof (induction i as votes rule: select_votes_induct)
  case (hit i a as k s rest)
  thus ?case by (auto simp: select_votes_hit Let_def simp del: select_votes.simps(2) dest: set_dropWhileD)
qed (auto simp: select_votes_miss simp del: select_votes.simps(2))

lemma keys_bt_collect: "fst ` set (bt_collect es) = fst ` set es"
proof -
  have "map_of (bt_collect es) = map_of [] ++ map_of (rev es)" unfolding bt_collect_def by (rule bt.get_put_list) (rule bt.wf_empty)
  hence "dom (map_of (bt_collect es)) = dom (map_of (rev es))" by simp
  thus ?thesis unfolding dom_map_of_conv_image_fst by simp
qed

text \<open>The voters with their signatures, in the order of the bitmap.\<close>

definition taken_votes :: "committee \<Rightarrow> (authority_id \<times> signature) list \<Rightarrow> (authority \<times> signature) list" where
  "taken_votes c votes = map snd (fst (select_votes 0 (committee_authorities c) (bt_collect votes)))"

lemma taken_votes_mem:
  "(a, s) \<in> set (taken_votes c votes) \<Longrightarrow> a \<in> set (committee_authorities c) \<and> (auth_id a, s) \<in> set (bt_collect votes)"
  unfolding taken_votes_def using select_votes_taken by fastforce

lemma new_unverified_signature:
  assumes "cert_new_unverified cr now c h votes = Inr x"
  shows "snd (signed_by c x) = map (protocol_key \<circ> fst) (taken_votes c votes)"
    and "taken_votes c votes \<noteq> [] \<Longrightarrow> \<exists>s. aggregated_signature x = Some s \<and> aggregate_sigs cr (map snd (taken_votes c votes)) = Some s"
proof -
  obtain taken left where tl: "select_votes 0 (committee_authorities c) (bt_collect votes) = (taken, left)" by force
  have tv: "taken_votes c votes = map snd taken" by (simp add: taken_votes_def tl)
  have x: "c_signed x = map fst taken" "taken \<noteq> [] \<Longrightarrow> \<exists>s. aggregate_sigs cr (map (\<lambda>(i, a, s). s) taken) = Some s \<and> c_state x = Unverified s"
    using assms by (auto simp: cert_new_unverified_def cert_new_internal_def tl Let_def split: if_splits list.splits option.splits)
  have sel: "select_indices 0 (committee_authorities c) (c_signed x) = map (\<lambda>(j, a, s). a) taken"
    using select_indices_of_votes[of 0 "committee_authorities c" "bt_collect votes"] x(1) tl by simp
  show "snd (signed_by c x) = map (protocol_key \<circ> fst) (taken_votes c votes)"
    by (simp add: signed_by_def sel Let_def tv comp_def split_def)
  show "taken_votes c votes \<noteq> [] \<Longrightarrow> \<exists>s. aggregated_signature x = Some s \<and> aggregate_sigs cr (map snd (taken_votes c votes)) = Some s"
    using x(2) by (auto simp: tv aggregated_signature_def comp_def split_def)
qed

lemma new_unverified_ok:
  assumes "committee_wf c" "power_fits c" "fst ` set votes \<subseteq> members c"
    and "quorum_threshold c \<le> sum (voting_power_by_id c) (fst ` set votes)"
    and "\<forall>sigs. sigs \<noteq> [] \<longrightarrow> aggregate_sigs cr sigs \<noteq> None"
  shows "\<exists>x. cert_new_unverified cr now c h votes = Inr x \<and> c_header x = h \<and> signer_ids c x = fst ` set votes \<and>
    fst (signed_by c x) = sum (voting_power_by_id c) (fst ` set votes)"
proof -
  let ?vs = "bt_collect votes"
  note keys = keys_bt_collect[of votes]
  have mem: "auth_id ` set (committee_authorities c) = members c"
    using committee_authorities_ids(2)[OF assms(1)] members_eq[OF assms(1)] by simp
  obtain taken left where tl: "select_votes 0 (committee_authorities c) ?vs = (taken, left)" by force
  have left: "left = []"
    using select_votes_complete[OF committee_authorities_sorted[OF assms(1)] bt_sorted_collect, of votes 0] keys mem assms(3) tl by simp
  have idx: "sorted_wrt (<) (map fst taken)" using select_votes_sorted[of 0 "committee_authorities c" ?vs] tl by simp
  have sel: "select_indices 0 (committee_authorities c) (map fst taken) = map (\<lambda>(j, a, s). a) taken"
    using select_indices_of_votes[of 0 "committee_authorities c" ?vs] tl by simp
  have ids: "auth_id ` set (map (\<lambda>(j, a, s). a) taken) = fst ` set votes"
    using select_votes_keys[of ?vs 0 "committee_authorities c"] tl left keys by (simp add: image_image case_prod_beta)
  have "u64_sum (map voting_power (map (\<lambda>(j, a, s). a) taken)) = sum (voting_power_by_id c) (fst ` set votes)"
    using sum_selected[OF assms(1,2), of "map (\<lambda>(j, a, s). a) taken"] ids
      select_indices_distinct[OF committee_authorities_ids(1)[OF assms(1)], of 0 "map fst taken"]
      select_indices_subset[of 0 "committee_authorities c" "map fst taken"] unfolding sel by simp
  hence w: "u64_sum (map (\<lambda>(i, a, s). voting_power a) taken) = sum (voting_power_by_id c) (fst ` set votes)"
    by (simp add: comp_def split_def)
  have "taken \<noteq> [] \<Longrightarrow> aggregate_sigs cr (map (\<lambda>(i, a, s). s) taken) \<noteq> None" using assms(5) by simp
  hence "\<exists>x. cert_new_unverified cr now c h votes = Inr x"
    using idx left w assms(4) by (cases "taken = []") (auto simp: cert_new_unverified_def cert_new_internal_def tl Let_def split: option.splits)
  then obtain x where x: "cert_new_unverified cr now c h votes = Inr x" by blast
  note s = cert_new_internal_signers[OF x[unfolded cert_new_unverified_def]]
  show ?thesis using x s(1,2) keys signed_by_weight[OF assms(1,2), of x] by auto
qed

end
