(* ===== verification/Certificate_Properties.thy ===== *)
theory Certificate_Properties
  imports Sample_Network Certificate_Assembly
begin

text \<open>
  Properties of committees and certificates: quorum intersection and thresholds, the assembly of
  votes into a certificate, and what verification guarantees.
\<close>

lemma is_ok_iff: "is_ok r \<longleftrightarrow> (\<exists>y. r = Inr y)"
  by (cases r) auto

section \<open>Certificates and quorums\<close>

text \<open>C7: any two quorums of a committee share an authority outside every set of authorities whose
  power is below the validity threshold.\<close>

theorem quorums_share_honest_authority:
  assumes "auths_wf (b_authorities b)" "build b = Some c" "power_fits c"
    and "A \<subseteq> members c" "B \<subseteq> members c"
    and "reached_quorum c (sum (voting_power_by_id c) A)" "reached_quorum c (sum (voting_power_by_id c) B)"
    and "\<not> reached_validity c (sum (voting_power_by_id c) (F \<inter> members c))"
  shows "\<exists>n. n \<in> A \<and> n \<in> B \<and> n \<notin> F"
  using assms build_wf[OF assms(1,2)]
  by (intro cq.quorums_share_correct[of c A B F]) (auto simp: reached_quorum_def reached_validity_def)

theorem quorums_share_honest_authority_witness:
  "reached_quorum sample_committee (sum (voting_power_by_id sample_committee) {1, 2, 3}) \<and>
   reached_quorum sample_committee (sum (voting_power_by_id sample_committee) {2, 3, 4}) \<and>
   \<not> reached_validity sample_committee (sum (voting_power_by_id sample_committee) {2}) \<and>
   (\<exists>n. n \<in> {1, 2, 3 :: nat} \<and> n \<in> {2, 3, 4} \<and> n \<notin> {2})"
  using quorums_share_honest_authority[OF sample_builder_wf sample_committee_built sample_power(1), of "{1, 2, 3}" "{2, 3, 4}" "{2}"]
    sample_power by (simp add: reached_quorum_def reached_validity_def)

text \<open>While the faulty authorities hold less than the validity threshold, the others reach a quorum,
  and the thresholds lie where the protocol needs them: validity above a third, quorum above two
  thirds, both within the total.\<close>

theorem honest_authorities_form_quorum:
  assumes "auths_wf (b_authorities b)" "build b = Some c" "power_fits c" "0 < total_power c"
    and "\<not> reached_validity c (sum (voting_power_by_id c) (F \<inter> members c))"
  shows "reached_quorum c (sum (voting_power_by_id c) (members c - F)) \<and>
    2 * total_power c < 3 * quorum_threshold c \<and> quorum_threshold c \<le> total_power c \<and>
    total_power c \<le> 3 * validity_threshold c \<and> validity_threshold c \<le> quorum_threshold c"
proof -
  have wf: "committee_wf c" by (rule build_wf[OF assms(1,2)])
  have "reached_quorum c (sum (voting_power_by_id c) (members c - F))"
    using cq.correct_nodes_form_quorum[of c F] wf assms(3-5)
    by (simp add: reached_quorum_def reached_validity_def total_power_def)
  thus ?thesis using assms(4) unfolding quorum_threshold_eq[OF wf assms(3)] validity_threshold_eq[OF wf assms(3)]
    by (simp add: quorum_threshold_eq[OF wf assms(3)] validity_threshold_eq[OF wf assms(3)]) presburger
qed

theorem honest_authorities_form_quorum_witness:
  "reached_quorum sample_committee (sum (voting_power_by_id sample_committee) ({1, 2, 3, 4} - {4}))"
  using honest_authorities_form_quorum[OF sample_builder_wf sample_committee_built sample_power(1), of "{4}"]
    sample_power sample_total by (simp add: reached_validity_def)

text \<open>The 64 bit computation of the quorum threshold wraps when the total power reaches half the
  range: a committee of three with that much power has a quorum threshold that a single authority
  exceeds while it holds less than a third.\<close>

theorem quorum_threshold_wraps:
  "\<exists>b c. auths_wf (b_authorities b) \<and> build b = Some c \<and> total_power c = 2 ^ 63 + 3 \<and>
     quorum_threshold c = 3 \<and> (\<exists>i\<in>members c. 3 * voting_power_by_id c i < total_power c \<and> reached_quorum c (voting_power_by_id c i))"
proof -
  let ?b = "fold (\<lambda>(i, p). add_authority (\<lambda>k. k) (10 + i) p ''addr'' i i ''host'') [(1, 2 ^ 62), (2, 2 ^ 62), (3, 3)] (builder_new 0)"
  have wf: "auths_wf (b_authorities ?b)" by (simp add: add_authority_wf builder_new_wf)
  have "build ?b \<noteq> None" by code_simp
  then obtain c where c: "build ?b = Some c" by auto
  have "(case build ?b of None \<Rightarrow> False | Some c \<Rightarrow> sum_list (map voting_power (bt_values (authorities c))) = 2 ^ 63 + 3 \<and>
      quorum_threshold c = 3 \<and> map_of (authorities_by_id c) 3 \<noteq> None \<and> voting_power_by_id c 3 = 3)" by code_simp
  hence "sum_list (map voting_power (bt_values (authorities c))) = 2 ^ 63 + 3" "quorum_threshold c = 3" "3 \<in> members c"
    "voting_power_by_id c 3 = 3" using c by (simp_all add: members_iff is_authority_def)
  thus ?thesis using wf c total_power_sum_list[OF build_wf[OF wf c]]
    by (intro exI[of _ ?b] exI[of _ c]) (auto simp: reached_quorum_def intro!: bexI[of _ 3])
qed

subsection \<open>Assembling a certificate\<close>

text \<open>Votes of a quorum of authorities assemble into a certificate of the header, whose bitmap of
  signers decodes to exactly the voters and whose weight is their power; the assembly fails only
  when the signatures do not aggregate.\<close>

theorem quorum_of_votes_gives_certificate:
  assumes "committee_wf c" "power_fits c" "fst ` set votes \<subseteq> members c"
    and "quorum_threshold c \<le> sum (voting_power_by_id c) (fst ` set votes)"
    and "\<forall>sigs. sigs \<noteq> [] \<longrightarrow> aggregate_sigs cr sigs \<noteq> None"
  shows "\<exists>x. cert_new_unverified cr now c h votes = Inr x \<and> c_header x = h \<and> signer_ids c x = fst ` set votes \<and>
    fst (signed_by c x) = sum (voting_power_by_id c) (fst ` set votes)"
  using new_unverified_ok[OF assms] by metis

theorem quorum_of_votes_gives_certificate_witness:
  "\<exists>x. cert_new_unverified sample_crypto 9 sample_committee (sample_header 1 1) [(3, 5), (1, 5), (2, 5)] = Inr x \<and>
     signer_ids sample_committee x = {1, 2, 3}"
  using quorum_of_votes_gives_certificate[OF sample_committee_wf sample_power(1), of "[(3, 5), (1, 5), (2, 5)]" sample_crypto 9 "sample_header 1 1"]
    sample_power by (auto simp: sample_crypto_def insert_commute)

subsection \<open>Verifying a certificate\<close>

text \<open>C21: a certificate that verification accepts keeps its header and belongs to the epoch of the committee.
  Either it is of round zero and equal to a genesis certificate in digest, round, epoch and author, and then
  it is returned as it came, its signature state included; or it is marked verified, has a member as
  author, a header digest that matches and signers that hold a quorum, and either it was marked verified
  before or its aggregate signature verifies for the keys of those signers.\<close>

theorem accepted_certificate_sound:
  assumes "committee_wf c" "power_fits c" "cert_verify cr c wc x = Inr y"
  shows "c_header y = c_header x \<and> cert_epoch x = c_epoch c \<and>
    (c_round x = 0 \<and> (\<exists>g\<in>set (genesis cr c). cert_eq g x) \<and> y = x \<or>
     is_verified y \<and> c_origin x \<in> members c \<and>
     hash_header cr (c_header x) = cert_digest x \<and>
     quorum_threshold c \<le> sum (voting_power_by_id c) (signer_ids c x) \<and>
     (is_verified x \<or> (\<exists>s. c_state x = Unverified s \<and> verify_aggregate cr s (cert_digest x) (snd (signed_by c x)))))"
proof (cases "c_round x = 0 \<and> list_ex (\<lambda>g. cert_eq g x) (genesis cr c)")
  case True
  thus ?thesis using assms(3) by (auto simp: cert_verify_def list_ex_iff split: if_splits)
next
  case False
  have v: "cert_epoch x = c_epoch c" "header_validate cr c wc (c_header x) = Inr ()" "quorum_threshold c \<le> fst (signed_by c x)"
    "verify_signature cr x (snd (signed_by c x)) = Inr y"
    using assms(3) False by (auto simp: cert_verify_def Let_def split: if_splits sum.splits prod.splits)
  have "is_verified x \<or> (\<exists>s. c_state x = Unverified s \<and> verify_aggregate cr s (cert_digest x) (snd (signed_by c x)))"
    using v(4) by (auto simp: verify_signature_def is_verified_def split: sig_state.splits if_splits)
  thus ?thesis using header_validate_ok[OF v(2)] verify_signature_ok[OF v(4)] v(1,3) signed_by_weight[OF assms(1,2), of x]
    by (simp add: cert_digest_def)
qed

definition sample_worker_cache :: worker_cache where
  "sample_worker_cache = \<lparr> wc_epoch = 0, wc_workers = [] \<rparr>"

definition sample_received :: certificate where
  "sample_received = (sample_cert 1 1)\<lparr> c_state := Unverified 47 \<rparr>"

theorem accepted_certificate_sound_witness:
  "\<exists>y. cert_verify sample_crypto sample_committee sample_worker_cache sample_received = Inr y \<and> is_verified y \<and>
     3 \<le> sum (voting_power_by_id sample_committee) (signer_ids sample_committee sample_received)"
proof -
  have "is_ok (cert_verify sample_crypto sample_committee sample_worker_cache sample_received)" by code_simp
  then obtain y where y: "cert_verify sample_crypto sample_committee sample_worker_cache sample_received = Inr y"
    by (auto simp: is_ok_iff)
  have "0 < c_round sample_received" by (simp add: sample_received_def sample_cert_def sample_header_def)
  with accepted_certificate_sound[OF sample_committee_wf sample_power(1) y] show ?thesis using y sample_power(4) by auto
qed

text \<open>Two accepted certificates have a signer in common outside every set of authorities below the
  validity threshold, so two headers of one author and round are both certified only if a correct
  authority signed both.\<close>

theorem certificates_share_honest_signer:
  assumes "committee_wf c" "power_fits c" "cert_verify cr c wc x = Inr x'" "cert_verify cr c wc y = Inr y'" "0 < c_round x" "0 < c_round y"
    and "\<not> reached_validity c (sum (voting_power_by_id c) (F \<inter> members c))"
  shows "\<exists>n. n \<in> signer_ids c x \<and> n \<in> signer_ids c y \<and> n \<notin> F"
proof -
  have q: "quorum_threshold c \<le> sum (voting_power_by_id c) (signer_ids c z)" if "cert_verify cr c wc z = Inr z'" "0 < c_round z" for z z'
    using that signed_by_weight[OF assms(1,2), of z] by (auto simp: cert_verify_def Let_def split: if_splits sum.splits prod.splits)
  show ?thesis
    using cq.quorums_share_correct[OF _ signer_ids_members[OF assms(1)] signer_ids_members[OF assms(1)] q[OF assms(3,5)] q[OF assms(4,6)], of F]
      assms(1,2,7) by (simp add: reached_validity_def)
qed

theorem certificates_share_honest_signer_witness:
  "\<exists>n. n \<in> signer_ids sample_committee sample_received \<and> n \<in> signer_ids sample_committee sample_received \<and> n \<notin> {4}"
proof -
  have "is_ok (cert_verify sample_crypto sample_committee sample_worker_cache sample_received)" by code_simp
  then obtain y where y: "cert_verify sample_crypto sample_committee sample_worker_cache sample_received = Inr y"
    by (auto simp: is_ok_iff)
  have r: "0 < c_round sample_received" by (simp add: sample_received_def sample_cert_def sample_header_def)
  show ?thesis using certificates_share_honest_signer[OF sample_committee_wf sample_power(1) y y r r, of "{4}"] sample_power
    by (simp add: reached_validity_def)
qed

text \<open>C39: a sub dag whose certificates verify keeps its digest, all its certificates are marked verified,
  and each of them either is a parent of the verified leader or shares its digest with a certificate
  of the sub dag that carries a valid quorum signature itself.\<close>

theorem verified_sub_dag_sound:
  assumes "verify_certificates cr c s = Inr t"
  shows "sub_dag_digest ha t = sub_dag_digest ha s \<and> is_ok (verify_cert cr c (sd_leader s)) \<and>
    (\<forall>x\<in>set (sd_certificates t). is_verified x) \<and>
    (\<forall>x\<in>set (sd_certificates s). cert_digest x \<in> set (c_parents (sd_leader s)) \<or>
       (\<exists>x'\<in>set (sd_certificates s). cert_digest x' = cert_digest x \<and> is_ok (verify_cert cr c x')))"
  using verify_certificates_ok[OF assms] by blast

definition sample_sub_dag :: sub_dag where
  "sample_sub_dag =
     (let l = (sample_cert 2 1)\<lparr> c_state := Unverified 57 \<rparr>
      in sub_dag_new (map (sample_cert 1) [3, 2, 1] @ [l]) l scores_default None)"

theorem verified_sub_dag_sound_witness:
  "\<exists>t. verify_certificates sample_crypto sample_committee sample_sub_dag = Inr t \<and> (\<forall>x\<in>set (sd_certificates t). is_verified x)"
proof -
  have "is_ok (verify_certificates sample_crypto sample_committee sample_sub_dag)" by code_simp
  then obtain t where t: "verify_certificates sample_crypto sample_committee sample_sub_dag = Inr t"
    by (auto simp: is_ok_iff)
  show ?thesis using verified_sub_dag_sound[OF t] t by blast
qed

section \<open>Headers\<close>

lemma radix_inj: "(r :: nat) < n \<Longrightarrow> r' < n \<Longrightarrow> e * n + r = e' * n + r' \<longleftrightarrow> e = e' \<and> r = r'"
  by (metis add.commute div_mult_self3 mod_mult_self3 mod_less div_less add_0 less_nat_zero_code)

text \<open>The nonce that execution uses identifies the epoch and the round of a header: distinct pairs of
  32 bit values give distinct 64 bit nonces.\<close>

theorem nonce_identifies_round:
  assumes "h_epoch h < 2 ^ 32" "h_round h < 2 ^ 32" "h_epoch h' < 2 ^ 32" "h_round h' < 2 ^ 32"
  shows "header_nonce h = header_nonce h' \<longleftrightarrow> h_epoch h = h_epoch h' \<and> h_round h = h_round h'"
proof -
  have "header_nonce h = header_nonce h' \<longleftrightarrow> h_epoch h * 2 ^ 32 + h_round h = h_epoch h' * 2 ^ 32 + h_round h'"
    using header_nonce_unat[OF assms(1,2)] header_nonce_unat[OF assms(3,4)] by (simp add: word_unat_eq_iff)
  thus ?thesis using radix_inj[OF assms(2,4)] by blast
qed

theorem nonce_identifies_round_witness:
  "header_nonce (sample_header 3 1) = header_nonce (sample_header 3 2) \<and> header_nonce (sample_header 3 1) \<noteq> header_nonce (sample_header 4 1)"
  using nonce_identifies_round[of "sample_header 3 1" "sample_header 3 2"] nonce_identifies_round[of "sample_header 3 1" "sample_header 4 1"]
  by (simp add: sample_header_def)

end
