(* ===== verification/Pending_Certs.thy ===== *)
theory Pending_Certs
  imports Consensus_Types "HOL-Library.Product_Lexorder"
begin

text \<open>
  Certificates that wait for missing parents (crates/consensus/primary/src/state_sync/
  pending_cert_manager.rs and error/cert_manager.rs). A hash set of digests is the list of its
  elements; the order in which the program iterates over one is not defined, so it is the argument
  \<open>iter\<close>, of which only \<^verbatim>\<open>hash_order\<close> is assumed. An operation that fails returns the state it has
  reached together with the error.
\<close>

datatype cert_manager_error =
    MCertificate certificate_error
  | MGC string
  | UnverifiedSignature digest
  | MissingParent digest
  | CertificateManagerOneshot
  | PendingCertificateNotFound digest
  | FatalAppendParent
  | FatalForwardAcceptedCertificate
  | JoinError
  | Pending digest
  | MStorage
  | PendingParentsMismatch digest
  | MTNSend string
  | MTooManyFetchedCertificatesReturned nat nat
  | MNoCertificateFetched

definition hash_order :: "(digest list \<Rightarrow> digest list) \<Rightarrow> bool" where
  "hash_order iter = (\<forall>xs. mset (iter xs) = mset xs)"

record pending_certificate =
  pc_certificate :: certificate
  pc_missing :: "digest list"

definition pending_certificate_new :: "certificate \<Rightarrow> digest list \<Rightarrow> pending_certificate" where
  "pending_certificate_new x ms = \<lparr> pc_certificate = x, pc_missing = ms \<rparr>"

definition is_ready :: "pending_certificate \<Rightarrow> bool" where
  "is_ready p = (pc_missing p = [])"

definition remove_parent :: "digest \<Rightarrow> pending_certificate \<Rightarrow> pending_certificate" where
  "remove_parent d p = p\<lparr> pc_missing := removeAll d (pc_missing p) \<rparr>"

record pending_manager =
  pm_pending :: "(digest, pending_certificate) hash_map"
  pm_missing :: "(round \<times> digest, digest list) btree_map"

definition pending_manager_new :: pending_manager where
  "pending_manager_new = \<lparr> pm_pending = [], pm_missing = [] \<rparr>"

definition add_blocked :: "round \<Rightarrow> digest \<Rightarrow> digest \<Rightarrow> pending_manager \<Rightarrow> pending_manager" where
  "add_blocked r child parent m =
     m\<lparr> pm_missing := bt_insert (r, parent)
          (List.insert child (case map_of (pm_missing m) (r, parent) of None \<Rightarrow> [] | Some ds \<Rightarrow> ds)) (pm_missing m) \<rparr>"

definition insert_pending ::
  "certificate \<Rightarrow> digest list \<Rightarrow> pending_manager \<Rightarrow> pending_manager \<times> (cert_manager_error, unit) result" where
  "insert_pending x ms m =
     (let d = cert_digest x;
          parent_round = u32_sub (c_round x) 1;
          m1 = m\<lparr> pm_pending := AList.update d (pending_certificate_new x ms) (pm_pending m) \<rparr>
      in case map_of (pm_pending m) d of
           Some old \<Rightarrow>
             if set (pc_missing old) \<noteq> set ms then (m1, Inl (PendingParentsMismatch d))
             else (fold (add_blocked parent_round d) ms m1, Inr ())
         | None \<Rightarrow> (fold (add_blocked parent_round d) ms m1, Inr ()))"

text \<open>
  The loop over the certificates that wait for a parent: those that wait for nothing else become
  ready and are queued themselves, as parents that are now available.
\<close>

fun unlock_children ::
  "digest \<Rightarrow> digest list \<Rightarrow> (digest, pending_certificate) hash_map \<Rightarrow> (round \<times> digest) list \<Rightarrow> certificate list
    \<Rightarrow> (digest, pending_certificate) hash_map \<times> (cert_manager_error, (round \<times> digest) list \<times> certificate list) result" where
  "unlock_children parent [] pending queue ready = (pending, Inr (queue, ready))"
| "unlock_children parent (d # ds) pending queue ready =
     (case map_of pending d of
        None \<Rightarrow> (pending, Inl (PendingCertificateNotFound d))
      | Some p \<Rightarrow>
          if is_ready (remove_parent parent p)
          then unlock_children parent ds (AList.delete d pending)
                 (queue @ [(c_round (pc_certificate p), d)]) (ready @ [pc_certificate p])
          else unlock_children parent ds (AList.update d (remove_parent parent p) pending) queue ready)"

lemma length_delete_less: "map_of m d = Some p \<Longrightarrow> length (AList.delete d m) < length m"
  unfolding AList.delete_eq by (rule length_filter_less[of "(d, p)"]) (auto dest: map_of_SomeD)

lemma length_update_present: "map_of m d = Some p \<Longrightarrow> length (AList.update d v m) = length m"
  by (induction m) (auto split: if_splits)

lemma unlock_children_length:
  "unlock_children parent ds pending queue ready = (pending', Inr (queue', ready')) \<Longrightarrow>
     length queue' + length pending' \<le> length queue + length pending"
proof (induction parent ds pending queue ready rule: unlock_children.induct)
  case (2 parent d ds pending queue ready)
  then obtain p where p: "map_of pending d = Some p" by (cases "map_of pending d") auto
  show ?case
  proof (cases "is_ready (remove_parent parent p)")
    case True
    thus ?thesis using 2(1)[OF p True] 2(3) p length_delete_less[OF p] by simp
  next
    case False
    thus ?thesis using 2(2)[OF p False] 2(3) p length_update_present[OF p] by simp
  qed
qed simp

function update_loop ::
  "(digest list \<Rightarrow> digest list) \<Rightarrow> (round \<times> digest) list \<Rightarrow> certificate list \<Rightarrow> pending_manager
    \<Rightarrow> pending_manager \<times> (cert_manager_error, certificate list) result" where
  "update_loop iter [] ready m = (m, Inr ready)"
| "update_loop iter (k # queue) ready m =
     (case map_of (pm_missing m) k of
        None \<Rightarrow> update_loop iter queue ready m
      | Some ds \<Rightarrow>
          (case unlock_children (snd k) (iter ds) (pm_pending m) queue ready of
             (pending, Inl e) \<Rightarrow> (m\<lparr> pm_pending := pending, pm_missing := bt_remove k (pm_missing m) \<rparr>, Inl e)
           | (pending, Inr (queue', ready')) \<Rightarrow>
               update_loop iter queue' ready' (m\<lparr> pm_pending := pending, pm_missing := bt_remove k (pm_missing m) \<rparr>)))"
  by pat_completeness auto
termination
  by (relation "measure (\<lambda>(iter, queue, ready, m). length queue + length (pm_pending m))")
    (simp_all, metis unlock_children_length le_imp_less_Suc)

definition update_pending ::
  "(digest list \<Rightarrow> digest list) \<Rightarrow> round \<Rightarrow> digest \<Rightarrow> pending_manager
    \<Rightarrow> pending_manager \<times> (cert_manager_error, certificate list) result" where
  "update_pending iter r d m = update_loop iter [(r, d)] [] m"

definition next_for_gc_round :: "round \<Rightarrow> pending_manager \<Rightarrow> pending_manager \<times> (round \<times> digest) option" where
  "next_for_gc_round gc m =
     (case pm_missing m of
        [] \<Rightarrow> (m, None)
      | (k, _) # _ \<Rightarrow>
          if fst k > gc then (m, None)
          else (case map_of (pm_pending m) (snd k) of
                  Some p \<Rightarrow> (m\<lparr> pm_pending := AList.update (snd k) (p\<lparr> pc_missing := [] \<rparr>) (pm_pending m) \<rparr>, Some k)
                | None \<Rightarrow> (m, Some k)))"

definition is_pending :: "pending_manager \<Rightarrow> digest \<Rightarrow> bool" where
  "is_pending m d = (map_of (pm_pending m) d \<noteq> None)"

definition num_pending :: "pending_manager \<Rightarrow> nat" where
  "num_pending m = length (pm_pending m)"

definition filter_unknown_digests :: "pending_manager \<Rightarrow> digest list \<Rightarrow> digest list" where
  "filter_unknown_digests m ds = filter (\<lambda>d. map_of (pm_pending m) d = None) ds"

section \<open>The invariant\<close>

text \<open>
  The two maps mirror each other. While the certificates that wait for the parent \<open>k\<close> are handled, the
  entry of \<open>k\<close> is gone already and the certificates \<open>ds\<close> that are still to be handled list it as missing.
\<close>

definition waits ::
  "(round \<times> digest) \<Rightarrow> digest list \<Rightarrow> (round \<times> digest, digest list) btree_map \<Rightarrow> digest \<Rightarrow> pending_certificate \<Rightarrow> bool" where
  "waits k ds miss d p = (cert_digest (pc_certificate p) = d \<and> 0 < c_round (pc_certificate p) \<and> pc_missing p \<noteq> [] \<and>
     (\<forall>q\<in>set (pc_missing p). (\<exists>es. map_of miss (c_round (pc_certificate p) - 1, q) = Some es \<and> d \<in> set es) \<or>
        (d \<in> set ds \<and> k = (c_round (pc_certificate p) - 1, q))))"

definition blocked_by :: "(digest, pending_certificate) hash_map \<Rightarrow> round \<times> digest \<Rightarrow> digest \<Rightarrow> bool" where
  "blocked_by pend k d =
     (\<exists>p. map_of pend d = Some p \<and> snd k \<in> set (pc_missing p) \<and> c_round (pc_certificate p) = Suc (fst k))"

definition pending_mirror ::
  "(round \<times> digest) \<Rightarrow> digest list \<Rightarrow> (digest, pending_certificate) hash_map \<Rightarrow> (round \<times> digest, digest list) btree_map \<Rightarrow> bool" where
  "pending_mirror k ds pend miss =
     ((\<forall>d p. map_of pend d = Some p \<longrightarrow> waits k ds miss d p) \<and>
      (\<forall>k' es d. map_of miss k' = Some es \<longrightarrow> d \<in> set es \<longrightarrow> blocked_by pend k' d) \<and>
      (\<forall>d\<in>set ds. blocked_by pend k d) \<and> (ds \<noteq> [] \<longrightarrow> map_of miss k = None))"

lemma mirrorI:
  assumes "\<And>d p. map_of pend d = Some p \<Longrightarrow> waits k ds miss d p"
    and "\<And>k' es d. map_of miss k' = Some es \<Longrightarrow> d \<in> set es \<Longrightarrow> blocked_by pend k' d"
    and "\<And>d. d \<in> set ds \<Longrightarrow> blocked_by pend k d" and "ds \<noteq> [] \<Longrightarrow> map_of miss k = None"
  shows "pending_mirror k ds pend miss"
  using assms unfolding pending_mirror_def by blast

lemma mirrorD:
  assumes "pending_mirror k ds pend miss"
  shows "map_of pend d = Some p \<Longrightarrow> waits k ds miss d p"
    and "map_of miss k' = Some es \<Longrightarrow> d \<in> set es \<Longrightarrow> blocked_by pend k' d"
    and "d \<in> set ds \<Longrightarrow> blocked_by pend k d" and "ds \<noteq> [] \<Longrightarrow> map_of miss k = None"
  using assms unfolding pending_mirror_def by blast+

definition pm_ok :: "pending_manager \<Rightarrow> bool" where
  "pm_ok m = (distinct (map fst (pm_pending m)) \<and> bt_sorted (pm_missing m) \<and>
     (\<forall>k es. map_of (pm_missing m) k = Some es \<longrightarrow> distinct es \<and> es \<noteq> []) \<and> pending_mirror (0, 0) [] (pm_pending m) (pm_missing m))"

lemma pm_ok_new: "pm_ok pending_manager_new"
  by (simp add: pm_ok_def pending_manager_new_def pending_mirror_def bt_sorted_Nil)

lemma mirror_done: "pending_mirror k [] pend miss \<Longrightarrow> pending_mirror k' [] pend miss"
  by (simp add: pending_mirror_def waits_def)

lemma mirror_start:
  assumes "pending_mirror k' [] pend miss" "map_of miss k = Some ds" "set ds' = set ds"
  shows "pending_mirror k ds' pend (bt_remove k miss)"
proof (rule mirrorI)
  fix d p
  assume p: "map_of pend d = Some p"
  have w: "waits k' [] miss d p" by (rule mirrorD(1)[OF assms(1) p])
  have "(\<exists>es. map_of (bt_remove k miss) (c_round (pc_certificate p) - 1, q) = Some es \<and> d \<in> set es) \<or>
        (d \<in> set ds' \<and> k = (c_round (pc_certificate p) - 1, q))" if "q \<in> set (pc_missing p)" for q
    using w that assms(2,3) by (cases "k = (c_round (pc_certificate p) - 1, q)") (auto simp: waits_def map_simps)
  thus "waits k ds' (bt_remove k miss) d p" using w by (simp add: waits_def)
next
  fix k'' es d
  assume "map_of (bt_remove k miss) k'' = Some es" "d \<in> set es"
  thus "blocked_by pend k'' d" using mirrorD(2)[OF assms(1), of k'' es d] by (simp add: map_simps split: if_splits)
next
  fix d
  assume "d \<in> set ds'"
  thus "blocked_by pend k d" using mirrorD(2)[OF assms(1,2)] assms(3) by simp
qed (simp add: map_simps)

lemma mirror_ready:
  assumes m: "pending_mirror k (d # ds) pend miss" and "d \<notin> set ds" "map_of pend d = Some p" "is_ready (remove_parent (snd k) p)"
  shows "pending_mirror k ds (AList.delete d pend) miss"
proof -
  have one: "q = snd k" if "q \<in> set (pc_missing p)" for q
    using assms(4) that by (auto simp: is_ready_def remove_parent_def removeAll_filter_not_eq filter_empty_conv)
  have rp: "c_round (pc_certificate p) = Suc (fst k)" and k: "map_of miss k = None"
    using mirrorD(3)[OF m, of d] mirrorD(4)[OF m] assms(3) by (auto simp: blocked_by_def)
  have gone: "d \<notin> set es" if e: "map_of miss k' = Some es" for k' es
  proof
    assume "d \<in> set es"
    hence "k' = k" using mirrorD(2)[OF m e, of d] one rp assms(3) by (auto simp: blocked_by_def prod_eq_iff)
    thus False using k e by simp
  qed
  have other: "blocked_by (AList.delete d pend) k' d'" if "blocked_by pend k' d'" "d' \<noteq> d" for k' d'
    using that by (auto simp: blocked_by_def map_simps)
  show ?thesis
  proof (rule mirrorI)
    fix d' p'
    assume "map_of (AList.delete d pend) d' = Some p'"
    hence "d' \<noteq> d" "map_of pend d' = Some p'" by (auto simp: map_simps split: if_splits)
    thus "waits k ds miss d' p'" using mirrorD(1)[OF m, of d' p'] by (simp add: waits_def)
  next
    fix k' es d'
    assume "map_of miss k' = Some es" "d' \<in> set es"
    thus "blocked_by (AList.delete d pend) k' d'" using mirrorD(2)[OF m] gone other by metis
  next
    fix d'
    assume "d' \<in> set ds"
    thus "blocked_by (AList.delete d pend) k d'" using mirrorD(3)[OF m, of d'] other[of k d'] assms(2) by auto
  qed (use k in simp)
qed

lemma mirror_not_ready:
  assumes m: "pending_mirror k (d # ds) pend miss" and "d \<notin> set ds" "map_of pend d = Some p" "\<not> is_ready (remove_parent (snd k) p)"
  shows "pending_mirror k ds (AList.update d (remove_parent (snd k) p) pend) miss"
proof -
  have rp: "c_round (pc_certificate p) = Suc (fst k)" and k: "map_of miss k = None"
    using mirrorD(3)[OF m, of d] mirrorD(4)[OF m] assms(3) by (auto simp: blocked_by_def)
  have other: "blocked_by (AList.update d (remove_parent (snd k) p) pend) k' d'" if "blocked_by pend k' d'" "k' \<noteq> k \<or> d' \<noteq> d" for k' d'
    using that assms(3) rp by (auto simp: blocked_by_def map_simps remove_parent_def prod_eq_iff)
  show ?thesis
  proof (rule mirrorI)
    fix d' p'
    assume h: "map_of (AList.update d (remove_parent (snd k) p) pend) d' = Some p'"
    show "waits k ds miss d' p'"
    proof (cases "d' = d")
      case True
      hence "p' = remove_parent (snd k) p" using h by (simp add: map_simps)
      thus ?thesis using mirrorD(1)[OF m assms(3)] assms(4) True by (auto simp: waits_def remove_parent_def is_ready_def)
    next
      case False
      hence "map_of pend d' = Some p'" using h by (simp add: map_simps)
      thus ?thesis using mirrorD(1)[OF m, of d' p'] False by (simp add: waits_def)
    qed
  next
    fix k' es d'
    assume "map_of miss k' = Some es" "d' \<in> set es"
    thus "blocked_by (AList.update d (remove_parent (snd k) p) pend) k' d'" using mirrorD(2)[OF m, of k' es d'] other[of k' d'] k by (cases "k' = k") auto
  next
    fix d'
    assume "d' \<in> set ds"
    thus "blocked_by (AList.update d (remove_parent (snd k) p) pend) k d'" using mirrorD(3)[OF m, of d'] other[of k d'] assms(2) by auto
  qed (use k in simp)
qed

section \<open>Causal order\<close>

text \<open>
  A sequence of certificates is in causal order after the digests \<open>K\<close>: the parents of each are among
  \<open>K\<close> and the certificates before it, unless its parents are at or below the collection round \<open>g\<close>.
\<close>

fun causal :: "round \<Rightarrow> digest set \<Rightarrow> certificate list \<Rightarrow> bool" where
  "causal g K [] = True"
| "causal g K (x # xs) = ((c_round x \<le> g + 1 \<or> set (c_parents x) \<subseteq> K) \<and> causal g (insert (cert_digest x) K) xs)"

abbreviation digests_of :: "certificate list \<Rightarrow> digest set" where
  "digests_of xs \<equiv> cert_digest ` set xs"

abbreviation cert_key :: "certificate \<Rightarrow> round \<times> digest" where
  "cert_key x \<equiv> (c_round x, cert_digest x)"

lemma causal_append: "causal g K (xs @ ys) \<longleftrightarrow> causal g K xs \<and> causal g (K \<union> digests_of xs) ys"
  by (induction xs arbitrary: K) auto

lemma causal_mono: "causal g K xs \<Longrightarrow> K \<subseteq> K' \<Longrightarrow> g \<le> g' \<Longrightarrow> causal g' K' xs"
proof (induction xs arbitrary: K K')
  case (Cons x xs)
  have "causal g' (insert (cert_digest x) K') xs"
    by (rule Cons.IH[of "insert (cert_digest x) K"]) (use Cons.prems in auto)
  thus ?case using Cons.prems by auto
qed simp

definition covered :: "round \<Rightarrow> digest set \<Rightarrow> (digest, pending_certificate) hash_map \<Rightarrow> bool" where
  "covered g K pend = (\<forall>d p. map_of pend d = Some p \<longrightarrow> set (pc_missing p) \<subseteq> set (c_parents (pc_certificate p)) \<and>
     (c_round (pc_certificate p) \<le> g + 1 \<or> set (c_parents (pc_certificate p)) \<subseteq> K \<union> set (pc_missing p)))"

definition pending_all :: "(certificate \<Rightarrow> bool) \<Rightarrow> (digest, pending_certificate) hash_map \<Rightarrow> bool" where
  "pending_all P pend = (\<forall>d p. map_of pend d = Some p \<longrightarrow> P (pc_certificate p))"

text \<open>The state of the cascade: what is ready so far is in causal order and the rest is accounted for.\<close>

definition cascade_ok ::
  "(certificate \<Rightarrow> bool) \<Rightarrow> round \<Rightarrow> digest set \<Rightarrow> (round \<times> digest) list \<Rightarrow> certificate list
    \<Rightarrow> (digest, pending_certificate) hash_map \<Rightarrow> bool" where
  "cascade_ok P g K queue ready pend =
     (covered g (K \<union> digests_of ready) pend \<and> causal g K ready \<and>
      (\<forall>k\<in>set queue. fst k \<le> g \<or> snd k \<in> K \<union> digests_of ready) \<and>
      pending_all P pend \<and> (\<forall>y\<in>set ready. P y))"

lemma cascade_ready:
  assumes c: "cascade_ok P g K queue ready pend" and "map_of pend d = Some p" "waits k ds miss d p"
    and "is_ready (remove_parent (snd k) p)" "c_round (pc_certificate p) = Suc (fst k)"
    and "fst k \<le> g \<or> snd k \<in> K \<union> digests_of ready"
  shows "cascade_ok P g K (queue @ [cert_key (pc_certificate p)]) (ready @ [pc_certificate p]) (AList.delete d pend)"
proof -
  let ?x = "pc_certificate p"
  have "set (pc_missing p) \<subseteq> {snd k}"
    using assms(4) by (auto simp: is_ready_def remove_parent_def removeAll_filter_not_eq filter_empty_conv)
  moreover have cov: "c_round ?x \<le> g + 1 \<or> set (c_parents ?x) \<subseteq> (K \<union> digests_of ready) \<union> set (pc_missing p)"
    using c assms(2) by (simp add: cascade_ok_def covered_def)
  ultimately have "c_round ?x \<le> g + 1 \<or> set (c_parents ?x) \<subseteq> K \<union> digests_of ready" using assms(5,6) by auto
  hence "causal g K (ready @ [?x])" using c by (simp add: cascade_ok_def causal_append)
  moreover have "covered g (K \<union> digests_of (ready @ [?x])) (AList.delete d pend)"
    using c unfolding cascade_ok_def covered_def by (simp add: map_simps) blast
  moreover have "P ?x" "pending_all P (AList.delete d pend)" using c assms(2) by (auto simp: cascade_ok_def pending_all_def map_simps split: if_splits)
  ultimately show ?thesis using c by (auto simp: cascade_ok_def)
qed

lemma cascade_not_ready:
  assumes c: "cascade_ok P g K queue ready pend" and "map_of pend d = Some p" "c_round (pc_certificate p) = Suc (fst k)"
    and "fst k \<le> g \<or> snd k \<in> K \<union> digests_of ready"
  shows "cascade_ok P g K queue ready (AList.update d (remove_parent (snd k) p) pend)"
proof -
  have "c_round (pc_certificate p) \<le> g + 1 \<or> set (c_parents (pc_certificate p)) \<subseteq> (K \<union> digests_of ready) \<union> set (pc_missing p)"
    using c assms(2) by (simp add: cascade_ok_def covered_def)
  hence "c_round (pc_certificate p) \<le> g + 1 \<or> set (c_parents (pc_certificate p)) \<subseteq> (K \<union> digests_of ready) \<union> set (pc_missing (remove_parent (snd k) p))"
    using assms(3,4) by (auto simp: remove_parent_def)
  hence "covered g (K \<union> digests_of ready) (AList.update d (remove_parent (snd k) p) pend)"
    using c assms(2) unfolding cascade_ok_def covered_def by (auto simp: map_simps remove_parent_def)
  moreover have "pending_all P (AList.update d (remove_parent (snd k) p) pend)"
    using c assms(2) by (auto simp: cascade_ok_def pending_all_def map_simps remove_parent_def)
  ultimately show ?thesis using c by (simp add: cascade_ok_def)
qed

lemma unlock_children_ok:
  assumes "pending_mirror k ds pend miss" "distinct ds" "distinct (map fst pend)"
    and "cascade_ok P g K queue ready pend" "fst k \<le> g \<or> snd k \<in> K \<union> digests_of ready"
  shows "\<exists>pend' news. unlock_children (snd k) ds pend queue ready = (pend', Inr (queue @ map cert_key news, ready @ news)) \<and>
    pending_mirror k [] pend' miss \<and> distinct (map fst pend') \<and> cascade_ok P g K (queue @ map cert_key news) (ready @ news) pend' \<and>
    (\<forall>d. map_of pend d \<noteq> None \<longrightarrow> map_of pend' d \<noteq> None \<or> d \<in> digests_of news)"
  using assms
proof (induction ds arbitrary: pend queue ready)
  case (Cons d ds)
  obtain p where p: "map_of pend d = Some p" "snd k \<in> set (pc_missing p)" "c_round (pc_certificate p) = Suc (fst k)"
    using mirrorD(3)[OF Cons.prems(1), of d] by (auto simp: blocked_by_def)
  have w: "waits k (d # ds) miss d p" by (rule mirrorD(1)[OF Cons.prems(1) p(1)])
  hence dg: "cert_digest (pc_certificate p) = d" by (simp add: waits_def)
  have nd: "d \<notin> set ds" "distinct ds" using Cons.prems(2) by auto
  show ?case
  proof (cases "is_ready (remove_parent (snd k) p)")
    case True
    have "\<exists>pend' news. unlock_children (snd k) ds (AList.delete d pend) (queue @ [cert_key (pc_certificate p)]) (ready @ [pc_certificate p])
        = (pend', Inr ((queue @ [cert_key (pc_certificate p)]) @ map cert_key news, (ready @ [pc_certificate p]) @ news)) \<and>
      pending_mirror k [] pend' miss \<and> distinct (map fst pend') \<and>
      cascade_ok P g K ((queue @ [cert_key (pc_certificate p)]) @ map cert_key news) ((ready @ [pc_certificate p]) @ news) pend' \<and>
      (\<forall>e. map_of (AList.delete d pend) e \<noteq> None \<longrightarrow> map_of pend' e \<noteq> None \<or> e \<in> digests_of news)"
      using mirror_ready[OF Cons.prems(1) nd(1) p(1) True] nd(2) Cons.prems(3)
        cascade_ready[OF Cons.prems(4) p(1) w True p(3) Cons.prems(5)] Cons.prems(5)
      by (intro Cons.IH) (auto intro: distinct_delete)
    then obtain pend' news where n: "unlock_children (snd k) ds (AList.delete d pend) (queue @ [cert_key (pc_certificate p)]) (ready @ [pc_certificate p])
        = (pend', Inr ((queue @ [cert_key (pc_certificate p)]) @ map cert_key news, (ready @ [pc_certificate p]) @ news))"
      "pending_mirror k [] pend' miss" "distinct (map fst pend')"
      "cascade_ok P g K ((queue @ [cert_key (pc_certificate p)]) @ map cert_key news) ((ready @ [pc_certificate p]) @ news) pend'"
      and kept: "\<forall>e. map_of (AList.delete d pend) e \<noteq> None \<longrightarrow> map_of pend' e \<noteq> None \<or> e \<in> digests_of news"
      by blast
    have "\<forall>e. map_of pend e \<noteq> None \<longrightarrow> map_of pend' e \<noteq> None \<or> e \<in> digests_of (pc_certificate p # news)"
    proof (intro allI impI)
      fix e
      assume "map_of pend e \<noteq> None"
      thus "map_of pend' e \<noteq> None \<or> e \<in> digests_of (pc_certificate p # news)"
        using kept[rule_format, of e] dg by (cases "e = d") (simp_all add: map_simps)
    qed
    thus ?thesis using n p(1) True dg by (intro exI[of _ pend'] exI[of _ "pc_certificate p # news"]) simp
  next
    case False
    have "\<exists>pend' news. unlock_children (snd k) ds (AList.update d (remove_parent (snd k) p) pend) queue ready
        = (pend', Inr (queue @ map cert_key news, ready @ news)) \<and> pending_mirror k [] pend' miss \<and> distinct (map fst pend') \<and>
      cascade_ok P g K (queue @ map cert_key news) (ready @ news) pend' \<and>
      (\<forall>e. map_of (AList.update d (remove_parent (snd k) p) pend) e \<noteq> None \<longrightarrow> map_of pend' e \<noteq> None \<or> e \<in> digests_of news)"
      using mirror_not_ready[OF Cons.prems(1) nd(1) p(1) False] nd(2) Cons.prems(3)
        cascade_not_ready[OF Cons.prems(4) p(1) p(3) Cons.prems(5)] Cons.prems(5)
      by (intro Cons.IH) (auto intro: distinct_update)
    then obtain pend' news where n: "unlock_children (snd k) ds (AList.update d (remove_parent (snd k) p) pend) queue ready
        = (pend', Inr (queue @ map cert_key news, ready @ news))" "pending_mirror k [] pend' miss" "distinct (map fst pend')"
      "cascade_ok P g K (queue @ map cert_key news) (ready @ news) pend'"
      and kept: "\<forall>e. map_of (AList.update d (remove_parent (snd k) p) pend) e \<noteq> None \<longrightarrow> map_of pend' e \<noteq> None \<or> e \<in> digests_of news"
      by blast
    have "map_of pend' e \<noteq> None \<or> e \<in> digests_of news" if "map_of pend e \<noteq> None" for e
      using kept[rule_format, of e] that by (cases "e = d") (simp_all add: map_simps)
    moreover have "unlock_children (snd k) (d # ds) pend queue ready = (pend', Inr (queue @ map cert_key news, ready @ news))"
      using n(1) p(1) False by simp
    ultimately show ?thesis using n(2-) by blast
  qed
qed auto

lemma update_loop_ok:
  assumes "pm_ok m" "cascade_ok P g K queue ready (pm_pending m)" "hash_order iter"
    and "\<forall>y\<in>set ready. cert_key y \<in> set queue \<or> map_of (pm_missing m) (cert_key y) = None"
  shows "\<exists>m' news. update_loop iter queue ready m = (m', Inr (ready @ news)) \<and> pm_ok m' \<and>
    cascade_ok P g K [] (ready @ news) (pm_pending m') \<and>
    (\<forall>k es. map_of (pm_missing m') k = Some es \<longrightarrow> k \<notin> set queue \<and> map_of (pm_missing m) k = Some es) \<and>
    (\<forall>y\<in>set (ready @ news). map_of (pm_missing m') (cert_key y) = None) \<and>
    (\<forall>d. map_of (pm_pending m) d \<noteq> None \<longrightarrow> map_of (pm_pending m') d \<noteq> None \<or> d \<in> digests_of news)"
  using assms
proof (induction iter queue ready m rule: update_loop.induct)
  case (1 iter ready m)
  thus ?case by auto
next
  case (2 iter k queue ready m)
  have ok: "distinct (map fst (pm_pending m))" "bt_sorted (pm_missing m)" "\<And>k es. map_of (pm_missing m) k = Some es \<Longrightarrow> distinct es \<and> es \<noteq> []"
    "pending_mirror (0, 0) [] (pm_pending m) (pm_missing m)"
    using "2.prems"(1) by (auto simp: pm_ok_def)
  have cas: "cascade_ok P g K queue ready (pm_pending m)" "fst k \<le> g \<or> snd k \<in> K \<union> digests_of ready"
    using "2.prems"(2) by (auto simp: cascade_ok_def)
  show ?case
  proof (cases "map_of (pm_missing m) k")
    case None
    hence "\<forall>y\<in>set ready. cert_key y \<in> set queue \<or> map_of (pm_missing m) (cert_key y) = None" using "2.prems"(4) by auto
    then obtain m' news where "update_loop iter queue ready m = (m', Inr (ready @ news))" "pm_ok m'" "cascade_ok P g K [] (ready @ news) (pm_pending m')"
      "\<forall>k es. map_of (pm_missing m') k = Some es \<longrightarrow> k \<notin> set queue \<and> map_of (pm_missing m) k = Some es"
      "\<forall>y\<in>set (ready @ news). map_of (pm_missing m') (cert_key y) = None"
      "\<forall>d. map_of (pm_pending m) d \<noteq> None \<longrightarrow> map_of (pm_pending m') d \<noteq> None \<or> d \<in> digests_of news"
      using "2.IH"(1)[OF None "2.prems"(1) cas(1) "2.prems"(3)] by blast
    thus ?thesis using None by (intro exI[of _ m'] exI[of _ news]) auto
  next
    case (Some ds)
    have it: "set (iter ds) = set ds" "distinct (iter ds)"
      using "2.prems"(3) ok(3)[OF Some] mset_eq_setD[of "iter ds" ds] mset_eq_imp_distinct_iff[of "iter ds" ds] by (auto simp: hash_order_def)
    let ?miss = "bt_remove k (pm_missing m)"
    obtain pend' new1 where u: "unlock_children (snd k) (iter ds) (pm_pending m) queue ready = (pend', Inr (queue @ map cert_key new1, ready @ new1))"
      "pending_mirror k [] pend' ?miss" "distinct (map fst pend')" "cascade_ok P g K (queue @ map cert_key new1) (ready @ new1) pend'"
      "\<forall>d. map_of (pm_pending m) d \<noteq> None \<longrightarrow> map_of pend' d \<noteq> None \<or> d \<in> digests_of new1"
      using unlock_children_ok[OF mirror_start[OF ok(4) Some it(1)] it(2) ok(1) cas] by blast
    let ?m = "m\<lparr> pm_pending := pend', pm_missing := ?miss \<rparr>"
    have "pm_ok ?m" using u(2,3) ok(2,3) by (auto simp: pm_ok_def bt_sorted_remove map_simps dest: mirror_done split: if_splits)
    moreover have "\<forall>y\<in>set (ready @ new1). cert_key y \<in> set (queue @ map cert_key new1) \<or> map_of (pm_missing ?m) (cert_key y) = None"
      using "2.prems"(4) by (auto simp: map_simps)
    ultimately obtain m' news where l: "update_loop iter (queue @ map cert_key new1) (ready @ new1) ?m = (m', Inr ((ready @ new1) @ news))" "pm_ok m'"
      "cascade_ok P g K [] ((ready @ new1) @ news) (pm_pending m')"
      "\<forall>k es. map_of (pm_missing m') k = Some es \<longrightarrow> k \<notin> set (queue @ map cert_key new1) \<and> map_of (pm_missing ?m) k = Some es"
      "\<forall>y\<in>set ((ready @ new1) @ news). map_of (pm_missing m') (cert_key y) = None"
      "\<forall>d. map_of pend' d \<noteq> None \<longrightarrow> map_of (pm_pending m') d \<noteq> None \<or> d \<in> digests_of news"
      using "2.IH"(2)[OF Some u(1)[symmetric] HOL.refl HOL.refl] u(4) "2.prems"(3) by auto
    have "update_loop iter (k # queue) ready m = (m', Inr (ready @ (new1 @ news)))" using Some u(1) l(1) by simp
    moreover have "\<forall>k' es. map_of (pm_missing m') k' = Some es \<longrightarrow> k' \<notin> set (k # queue) \<and> map_of (pm_missing m) k' = Some es"
    proof (intro allI impI)
      fix k' es
      assume "map_of (pm_missing m') k' = Some es"
      hence "k' \<notin> set queue \<and> map_of ?miss k' = Some es" using l(4)[rule_format, of k' es] by simp
      thus "k' \<notin> set (k # queue) \<and> map_of (pm_missing m) k' = Some es" by (simp add: map_simps split: if_splits)
    qed
    moreover have "\<forall>d. map_of (pm_pending m) d \<noteq> None \<longrightarrow> map_of (pm_pending m') d \<noteq> None \<or> d \<in> digests_of (new1 @ news)"
      using u(5) l(6) by (metis UnCI image_Un set_append)
    ultimately show ?thesis using l(2,3,5) by (intro exI[of _ m'] exI[of _ "new1 @ news"]) simp
  qed
qed

section \<open>The operations keep the invariant\<close>

lemma update_loop_shrinks:
  "length (pm_missing (fst (update_loop iter queue ready m))) \<le> length (pm_missing m)"
proof (induction iter queue ready m rule: update_loop.induct)
  case (2 iter k queue ready m)
  have le: "length (bt_remove k (pm_missing m)) \<le> length (pm_missing m)" by (simp add: bt_remove_def)
  show ?case
  proof (cases "map_of (pm_missing m) k")
    case None
    thus ?thesis using 2(1) by simp
  next
    case (Some ds)
    obtain pend r where u: "unlock_children (snd k) (iter ds) (pm_pending m) queue ready = (pend, r)" by force
    show ?thesis
    proof (cases r)
      case (Inl e)
      thus ?thesis using Some u le by simp
    next
      case (Inr b)
      thus ?thesis using 2(2)[OF Some u[symmetric] Inr surjective_pairing[symmetric]] Some u le by (cases b) simp
    qed
  qed
qed simp

lemma update_pending_shrinks:
  assumes "map_of (pm_missing m) (r, d) = Some ds"
  shows "length (pm_missing (fst (update_pending iter r d m))) < length (pm_missing m)"
proof -
  have lt: "length (bt_remove (r, d) (pm_missing m)) < length (pm_missing m)"
    unfolding bt_remove_def by (rule length_filter_less[of "((r, d), ds)"]) (use assms in \<open>auto dest: map_of_SomeD\<close>)
  obtain pend x where u: "unlock_children d (iter ds) (pm_pending m) [] [] = (pend, x)" by force
  show ?thesis
  proof (cases x)
    case (Inl e)
    thus ?thesis using assms u lt by (simp add: update_pending_def)
  next
    case (Inr b)
    let ?m = "m\<lparr> pm_pending := pend, pm_missing := bt_remove (r, d) (pm_missing m) \<rparr>"
    have "length (pm_missing (fst (update_loop iter (fst b) (snd b) ?m))) < length (pm_missing m)"
      using update_loop_shrinks[of iter "fst b" "snd b" ?m] lt by simp
    thus ?thesis using assms u Inr by (cases b) (simp add: update_pending_def)
  qed
qed

lemma next_for_gc_round_missing: "pm_missing (fst (next_for_gc_round gc m)) = pm_missing m"
  by (simp add: next_for_gc_round_def split: list.splits option.splits)

lemma next_for_gc_round_key:
  "snd (next_for_gc_round gc m) = Some k \<Longrightarrow> fst k \<le> gc \<and> (\<exists>ds. map_of (pm_missing m) k = Some ds)"
  by (auto simp: next_for_gc_round_def split: list.splits option.splits if_splits)

lemma fold_add_blocked:
  "pm_pending (fold (add_blocked r d) ms m) = pm_pending m"
  "map_of (pm_missing (fold (add_blocked r d) ms m)) k =
     (if fst k = r \<and> snd k \<in> set ms then Some (List.insert d (case map_of (pm_missing m) k of None \<Rightarrow> [] | Some ds \<Rightarrow> ds))
      else map_of (pm_missing m) k)"
  "bt_sorted (pm_missing m) \<Longrightarrow> bt_sorted (pm_missing (fold (add_blocked r d) ms m))"
proof (induction ms arbitrary: m)
  case (Cons q ms)
  { case 1 show ?case using Cons(1)[of "add_blocked r d q m"] by (simp add: add_blocked_def)
  next
    case 2 show ?case using Cons(2)[of "add_blocked r d q m"] by (auto simp: add_blocked_def map_simps split: option.splits)
  next
    case 3 thus ?case using Cons(3)[of "add_blocked r d q m"] by (simp add: add_blocked_def bt_sorted_insert) }
qed simp_all

lemma insert_pending_ok:
  assumes "pm_ok m" "\<not> is_pending m (cert_digest x)" "0 < c_round x" "ms \<noteq> []"
  shows "\<exists>m'. insert_pending x ms m = (m', Inr ()) \<and> pm_ok m' \<and>
    pm_pending m' = AList.update (cert_digest x) (pending_certificate_new x ms) (pm_pending m) \<and>
    (\<forall>k. map_of (pm_missing m') k \<noteq> None \<longleftrightarrow> map_of (pm_missing m) k \<noteq> None \<or> (fst k = c_round x - 1 \<and> snd k \<in> set ms))"
proof -
  let ?d = "cert_digest x" and ?p = "pending_certificate_new x ms"
  let ?pend = "AList.update ?d ?p (pm_pending m)"
  let ?m = "fold (add_blocked (c_round x - 1) ?d) ms (m\<lparr> pm_pending := ?pend \<rparr>)"
  have none: "map_of (pm_pending m) ?d = None" using assms(2) by (simp add: is_pending_def)
  have f: "pm_pending ?m = ?pend" "\<And>k. map_of (pm_missing ?m) k =
     (if fst k = c_round x - 1 \<and> snd k \<in> set ms then Some (List.insert ?d (case map_of (pm_missing m) k of None \<Rightarrow> [] | Some ds \<Rightarrow> ds))
      else map_of (pm_missing m) k)" using fold_add_blocked(1,2)[where m = "m\<lparr> pm_pending := ?pend \<rparr>"] by simp_all
  have ok: "distinct (map fst (pm_pending m))" "bt_sorted (pm_missing m)" "\<And>k es. map_of (pm_missing m) k = Some es \<Longrightarrow> distinct es \<and> es \<noteq> []"
    and mir: "pending_mirror (0, 0) [] (pm_pending m) (pm_missing m)" using assms(1) by (auto simp: pm_ok_def)
  have grow: "\<exists>es'. map_of (pm_missing ?m) k = Some es' \<and> d \<in> set es'" if "map_of (pm_missing m) k = Some es \<and> d \<in> set es" for k es d
    using that unfolding f(2) by auto
  have keep: "blocked_by ?pend k d" if "blocked_by (pm_pending m) k d" for k d
    using that none by (auto simp: blocked_by_def map_simps)
  have "pending_mirror (0, 0) [] ?pend (pm_missing ?m)"
  proof (rule mirrorI)
    fix d p
    assume h: "map_of ?pend d = Some p"
    show "waits (0, 0) [] (pm_missing ?m) d p"
    proof (cases "d = ?d")
      case True
      hence "p = ?p" using h by (simp add: map_simps)
      moreover have "\<exists>es. map_of (pm_missing ?m) (c_round x - 1, q) = Some es \<and> ?d \<in> set es" if "q \<in> set ms" for q
        using f(2)[of "(c_round x - 1, q)"] that by simp
      ultimately show ?thesis using True assms(3,4) by (simp add: waits_def pending_certificate_new_def)
    next
      case False
      hence "waits (0, 0) [] (pm_missing m) d p" using h mirrorD(1)[OF mir, of d p] by (simp add: map_simps)
      thus ?thesis using grow unfolding waits_def by blast
    qed
  next
    fix k es d
    assume h: "map_of (pm_missing ?m) k = Some es" "d \<in> set es"
    show "blocked_by ?pend k d"
    proof (cases "d = ?d \<and> fst k = c_round x - 1 \<and> snd k \<in> set ms")
      case True
      thus ?thesis using assms(3) by (simp add: blocked_by_def map_simps pending_certificate_new_def)
    next
      case False
      then obtain es' where "map_of (pm_missing m) k = Some es'" "d \<in> set es'"
        using h unfolding f(2) by (auto split: if_splits option.splits)
      thus ?thesis using keep mirrorD(2)[OF mir] by blast
    qed
  qed auto
  moreover have "distinct es \<and> es \<noteq> []" if "map_of (pm_missing ?m) k = Some es" for k es
    using that ok(3)[of k] unfolding f(2) by (auto simp: List.insert_def split: if_splits option.splits)
  moreover have "bt_sorted (pm_missing ?m)" using fold_add_blocked(3)[where m = "m\<lparr> pm_pending := ?pend \<rparr>"] ok(2) by simp
  moreover have "distinct (map fst ?pend)" using ok(1) by (rule distinct_update)
  ultimately have "pm_ok ?m" unfolding pm_ok_def f(1) by blast
  moreover have "insert_pending x ms m = (?m, Inr ())" using none assms(3) by (simp add: insert_pending_def u32_sub_exact Let_def)
  ultimately show ?thesis using f by (intro exI[of _ ?m]) auto
qed

end
