(* ===== verification/Database.thy ===== *)
theory Database
  imports Rust_Collections
begin

text \<open>
  The storage back ends (crates/storage/src/mem_db.rs and layered_db.rs). A table is an ordered map
  from keys to values: keys are encoded so that the order of their bytes is the order of the keys,
  so a table is kept by key. A table that was never opened is \<^const>\<open>None\<close>. The layered database
  answers from memory and sends every write to a background thread, which applies it to the
  persistent database, inside a transaction while one is open. The persistent database is modelled
  by what its interface documents: writes of a transaction take effect together at its commit, and an
  operation that fails has no effect. The thread logs a failure and goes on, so whether the operation
  of a message succeeds is an argument of its step. The write in memory and the message to the thread
  are two steps of a client, between which other clients run.
\<close>

type_synonym ('t, 'k, 'v) tables = "'t \<Rightarrow> ('k, 'v) btree_map option"

section \<open>The database in memory\<close>

definition mem_open_table :: "'t \<Rightarrow> ('t, 'k, 'v) tables \<Rightarrow> ('t, 'k, 'v) tables" where
  "mem_open_table t db = db(t := Some [])"

definition mem_get :: "('t, 'k, 'v) tables \<Rightarrow> 't \<Rightarrow> 'k \<Rightarrow> 'v option" where
  "mem_get db t k = (case db t of None \<Rightarrow> None | Some m \<Rightarrow> map_of m k)"

definition mem_contains_key :: "('t, 'k, 'v) tables \<Rightarrow> 't \<Rightarrow> 'k \<Rightarrow> bool" where
  "mem_contains_key db t k = (case db t of None \<Rightarrow> False | Some m \<Rightarrow> map_of m k \<noteq> None)"

definition mem_insert :: "'t \<Rightarrow> 'k::linorder \<Rightarrow> 'v \<Rightarrow> ('t, 'k, 'v) tables \<Rightarrow> ('t, 'k, 'v) tables" where
  "mem_insert t k v db = (case db t of None \<Rightarrow> db | Some m \<Rightarrow> db(t := Some (bt_insert k v m)))"

definition mem_remove :: "'t \<Rightarrow> 'k \<Rightarrow> ('t, 'k, 'v) tables \<Rightarrow> ('t, 'k, 'v) tables" where
  "mem_remove t k db = (case db t of None \<Rightarrow> db | Some m \<Rightarrow> db(t := Some (bt_remove k m)))"

definition mem_clear_table :: "'t \<Rightarrow> ('t, 'k, 'v) tables \<Rightarrow> ('t, 'k, 'v) tables" where
  "mem_clear_table t db = (case db t of None \<Rightarrow> db | Some m \<Rightarrow> db(t := Some []))"

definition mem_is_empty :: "('t, 'k, 'v) tables \<Rightarrow> 't \<Rightarrow> bool" where
  "mem_is_empty db t = (case db t of None \<Rightarrow> False | Some m \<Rightarrow> m = [])"

text \<open>Iterating over a table that is not open panics; seeking in one is an error.\<close>

definition mem_iter :: "('t, 'k, 'v) tables \<Rightarrow> 't \<Rightarrow> ('k \<times> 'v) list option" where
  "mem_iter db t = db t"

definition mem_skip_to :: "('t, 'k::linorder, 'v) tables \<Rightarrow> 't \<Rightarrow> 'k \<Rightarrow> (string, ('k \<times> 'v) list) result" where
  "mem_skip_to db t k =
     (case db t of None \<Rightarrow> Inl ''Invalid table'' | Some m \<Rightarrow> Inr (dropWhile (\<lambda>e. fst e < k) m))"

definition mem_reverse_iter :: "('t, 'k, 'v) tables \<Rightarrow> 't \<Rightarrow> ('k \<times> 'v) list option" where
  "mem_reverse_iter db t = map_option rev (db t)"

fun last_before :: "'k::linorder \<Rightarrow> ('k \<times> 'v) option \<Rightarrow> ('k \<times> 'v) list \<Rightarrow> ('k \<times> 'v) option" where
  "last_before k acc [] = acc"
| "last_before k acc (e # es) = (if fst e \<ge> k then acc else last_before k (Some e) es)"

definition mem_record_prior_to :: "('t, 'k::linorder, 'v) tables \<Rightarrow> 't \<Rightarrow> 'k \<Rightarrow> ('k \<times> 'v) option" where
  "mem_record_prior_to db t k = (case db t of None \<Rightarrow> None | Some m \<Rightarrow> last_before k None m)"

definition mem_last_record :: "('t, 'k, 'v) tables \<Rightarrow> 't \<Rightarrow> ('k \<times> 'v) option" where
  "mem_last_record db t = (case db t of None \<Rightarrow> None | Some m \<Rightarrow> if m = [] then None else Some (last m))"

definition mem_multi_get :: "('t, 'k, 'v) tables \<Rightarrow> 't \<Rightarrow> 'k list \<Rightarrow> 'v option list" where
  "mem_multi_get db t ks = map (mem_get db t) ks"

definition tables_wf :: "('t, 'k::linorder, 'v) tables \<Rightarrow> bool" where
  "tables_wf db = (\<forall>t m. db t = Some m \<longrightarrow> bt_sorted m)"

lemma tables_wf_ops:
  assumes "tables_wf db"
  shows "tables_wf (mem_insert t k v db)" "tables_wf (mem_remove t k db)" "tables_wf (mem_clear_table t db)"
    "tables_wf (mem_open_table t db)"
  using assms
  by (auto simp: tables_wf_def mem_insert_def mem_remove_def mem_clear_table_def mem_open_table_def bt_sorted_insert
      bt_sorted_remove bt_sorted_Nil split: option.splits if_splits)

lemma last_before_spec:
  assumes "sorted_wrt (<) (map fst m)"
  shows "last_before k acc m = (case filter (\<lambda>e. fst e < k) m of [] \<Rightarrow> acc | es \<Rightarrow> Some (last es))"
  using assms
proof (induction m arbitrary: acc)
  case (Cons e es)
  show ?case
  proof (cases "fst e < k")
    case True
    thus ?thesis using Cons by (auto split: list.splits)
  next
    case False
    hence "filter (\<lambda>e. fst e < k) es = []" using Cons.prems by (auto simp: filter_empty_conv)
    thus ?thesis using False by (simp add: not_less del: last_before.simps(1)) (metis False)
  qed
qed simp

lemma skip_to_spec:
  assumes "tables_wf db" "db t = Some m"
  shows "mem_skip_to db t k = Inr (filter (\<lambda>e. k \<le> fst e) m)"
proof -
  have "dropWhile (\<lambda>e. fst e < k) m = filter (\<lambda>e. k \<le> fst e) m" if "sorted_wrt (<) (map fst m)"
    using that
  proof (induction m)
    case (Cons e es)
    show ?case
    proof (cases "fst e < k")
      case False
      hence "\<forall>x\<in>set es. k \<le> fst x" using Cons.prems by force
      thus ?thesis using False by (simp add: not_less)
    qed (use Cons in simp)
  qed simp
  thus ?thesis using assms by (simp add: mem_skip_to_def tables_wf_def bt_sorted_def)
qed

section \<open>The layered database\<close>

datatype ('t, 'k, 'v) db_message =
    StartTxn
  | CommitTxn
  | DbInsert 't 'k 'v
  | DbRemove 't 'k
  | DbClear 't
  | DbShutdown

text \<open>The effect of a write on tables; the other messages write nothing.\<close>

definition db_write :: "('t, 'k::linorder, 'v) db_message \<Rightarrow> ('t, 'k, 'v) tables \<Rightarrow> ('t, 'k, 'v) tables" where
  "db_write msg db =
     (case msg of DbInsert t k v \<Rightarrow> mem_insert t k v db | DbRemove t k \<Rightarrow> mem_remove t k db
      | DbClear t \<Rightarrow> mem_clear_table t db | _ \<Rightarrow> db)"

text \<open>
  The background thread: the persistent tables, the open transaction with its writes and the number
  of clients that share it, and whether the loop still runs.
\<close>

record ('t, 'k, 'v) db_thread =
  th_db :: "('t, 'k, 'v) tables"
  th_txn :: "(('t, 'k, 'v) db_message list \<times> nat) option"
  th_live :: bool

definition db_step :: "bool \<Rightarrow> ('t, 'k::linorder, 'v) db_message \<Rightarrow> ('t, 'k, 'v) db_thread \<Rightarrow> ('t, 'k, 'v) db_thread" where
  "db_step ok msg s =
     (if \<not> th_live s then s
      else case msg of
        StartTxn \<Rightarrow>
          (case th_txn s of
             Some (ops, n) \<Rightarrow> s\<lparr> th_txn := Some (ops, n + 1) \<rparr>
           | None \<Rightarrow> if ok then s\<lparr> th_txn := Some ([], 1) \<rparr> else s)
      | CommitTxn \<Rightarrow>
          (case th_txn s of
             Some (ops, n) \<Rightarrow>
               if n \<le> 1 then (if ok then s\<lparr> th_db := fold db_write ops (th_db s), th_txn := None \<rparr> else s\<lparr> th_txn := None \<rparr>)
               else s\<lparr> th_txn := Some (ops, n - 1) \<rparr>
           | None \<Rightarrow> s)
      | DbShutdown \<Rightarrow> s\<lparr> th_live := False \<rparr>
      | _ \<Rightarrow>
          if \<not> ok then s
          else (case th_txn s of
             Some (ops, n) \<Rightarrow> s\<lparr> th_txn := Some (ops @ [msg], n) \<rparr>
           | None \<Rightarrow> s\<lparr> th_db := db_write msg (th_db s) \<rparr>))"

text \<open>The thread handles the messages in the order of the channel, each with the outcome of its operation.\<close>

definition db_run :: "(bool \<times> ('t, 'k::linorder, 'v) db_message) list \<Rightarrow> ('t, 'k, 'v) db_thread \<Rightarrow> ('t, 'k, 'v) db_thread" where
  "db_run msgs s = fold (\<lambda>(ok, msg). db_step ok msg) msgs s"

text \<open>
  What the handles of the database share: the tables in memory, the writes that are done in memory and not
  sent yet, the messages sent, and whether the thread still receives.
\<close>

record ('t, 'k, 'v) layered_db =
  l_mem :: "('t, 'k, 'v) tables"
  l_flight :: "('t, 'k, 'v) db_message list"
  l_sent :: "('t, 'k, 'v) db_message list"
  l_open :: bool

definition layered_send ::
  "('t, 'k, 'v) db_message \<Rightarrow> ('t, 'k, 'v) layered_db \<Rightarrow> ('t, 'k, 'v) layered_db \<times> (string, unit) result" where
  "layered_send msg l =
     (if l_open l then (l\<lparr> l_sent := l_sent l @ [msg] \<rparr>, Inr ()) else (l, Inl ''DB thread gone, FATAL!''))"

definition layered_open :: "('t, 'k, 'v) tables \<Rightarrow> ('t, 'k, 'v) layered_db" where
  "layered_open db = \<lparr> l_mem = (\<lambda>_. None), l_flight = [], l_sent = [], l_open = True \<rparr>"

text \<open>Opening a table copies the persistent rows into memory; None is the panic of a missing table.\<close>

definition layered_open_table ::
  "('t, 'k::linorder, 'v) tables \<Rightarrow> 't \<Rightarrow> ('t, 'k, 'v) layered_db \<Rightarrow> ('t, 'k, 'v) layered_db option" where
  "layered_open_table db t l =
     map_option (\<lambda>rows. l\<lparr> l_mem := fold (\<lambda>(k, v). mem_insert t k v) rows (mem_open_table t (l_mem l)) \<rparr>) (mem_iter db t)"

definition layered_write_txn :: "('t, 'k, 'v) layered_db \<Rightarrow> ('t, 'k, 'v) layered_db \<times> (string, unit) result" where
  "layered_write_txn l = layered_send StartTxn l"

definition layered_commit :: "('t, 'k, 'v) layered_db \<Rightarrow> ('t, 'k, 'v) layered_db \<times> (string, unit) result" where
  "layered_commit l = layered_send CommitTxn l"

text \<open>The two steps of a write: in memory, and to the thread. When the second fails, memory keeps the write.\<close>

definition layered_mem_write :: "('t, 'k::linorder, 'v) db_message \<Rightarrow> ('t, 'k, 'v) layered_db \<Rightarrow> ('t, 'k, 'v) layered_db" where
  "layered_mem_write msg l = l\<lparr> l_mem := db_write msg (l_mem l), l_flight := l_flight l @ [msg] \<rparr>"

definition layered_send_write ::
  "('t, 'k, 'v) db_message \<Rightarrow> ('t, 'k, 'v) layered_db \<Rightarrow> ('t, 'k, 'v) layered_db \<times> (string, unit) result" where
  "layered_send_write msg l = layered_send msg (l\<lparr> l_flight := remove1 msg (l_flight l) \<rparr>)"

definition layered_insert ::
  "'t \<Rightarrow> 'k::linorder \<Rightarrow> 'v \<Rightarrow> ('t, 'k, 'v) layered_db \<Rightarrow> ('t, 'k, 'v) layered_db \<times> (string, unit) result" where
  "layered_insert t k v l = layered_send_write (DbInsert t k v) (layered_mem_write (DbInsert t k v) l)"

definition layered_remove ::
  "'t \<Rightarrow> 'k::linorder \<Rightarrow> ('t, 'k, 'v) layered_db \<Rightarrow> ('t, 'k, 'v) layered_db \<times> (string, unit) result" where
  "layered_remove t k l = layered_send_write (DbRemove t k) (layered_mem_write (DbRemove t k) l)"

definition layered_clear_table ::
  "'t \<Rightarrow> ('t, 'k::linorder, 'v) layered_db \<Rightarrow> ('t, 'k, 'v) layered_db \<times> (string, unit) result" where
  "layered_clear_table t l = layered_send_write (DbClear t) (layered_mem_write (DbClear t) l)"

text \<open>Dropping the last of the handles stops the background thread.\<close>

definition layered_drop :: "nat \<Rightarrow> ('t, 'k, 'v) layered_db \<Rightarrow> ('t, 'k, 'v) layered_db" where
  "layered_drop handles l = (if handles = 1 then (fst (layered_send DbShutdown l))\<lparr> l_open := False \<rparr> else l)"

definition layered_get :: "('t, 'k, 'v) layered_db \<Rightarrow> 't \<Rightarrow> 'k \<Rightarrow> 'v option" where
  "layered_get l t k = mem_get (l_mem l) t k"

section \<open>Writes that do not clash\<close>

fun msg_table :: "('t, 'k, 'v) db_message \<Rightarrow> 't option" where
  "msg_table (DbInsert t k v) = Some t"
| "msg_table (DbRemove t k) = Some t"
| "msg_table (DbClear t) = Some t"
| "msg_table _ = None"

fun msg_key :: "('t, 'k, 'v) db_message \<Rightarrow> 'k option" where
  "msg_key (DbInsert t k v) = Some k"
| "msg_key (DbRemove t k) = Some k"
| "msg_key _ = None"

definition is_write :: "('t, 'k, 'v) db_message \<Rightarrow> bool" where
  "is_write msg = (msg_table msg \<noteq> None)"

text \<open>Two writes clash when they are to one row of a table, or to one table that one of them clears.\<close>

definition clash :: "('t, 'k, 'v) db_message \<Rightarrow> ('t, 'k, 'v) db_message \<Rightarrow> bool" where
  "clash m m' = (msg_table m = msg_table m' \<and> (msg_key m = msg_key m' \<or> msg_key m = None \<or> msg_key m' = None))"

text \<open>A write as a change of one table.\<close>

fun row_write :: "('t, 'k::linorder, 'v) db_message \<Rightarrow> ('k, 'v) btree_map \<Rightarrow> ('k, 'v) btree_map" where
  "row_write (DbInsert t k v) m = bt_insert k v m"
| "row_write (DbRemove t k) m = bt_remove k m"
| "row_write (DbClear t) m = []"
| "row_write _ m = m"

lemma db_write_table:
  "db_write msg db = (case msg_table msg of None \<Rightarrow> db | Some t \<Rightarrow> (case db t of None \<Rightarrow> db | Some m \<Rightarrow> db(t := Some (row_write msg m))))"
  by (cases msg) (auto simp: db_write_def mem_insert_def mem_remove_def mem_clear_table_def split: option.splits)

lemma tables_wf_write: "tables_wf db \<Longrightarrow> tables_wf (db_write msg db)"
  by (cases msg) (simp_all add: db_write_def tables_wf_ops)

lemma tables_wf_writes: "tables_wf db \<Longrightarrow> tables_wf (fold db_write msgs db)"
  by (induction msgs arbitrary: db) (simp_all add: tables_wf_write)

lemma bt_sorted_unique:
  assumes "bt_sorted m" "bt_sorted m'" "\<And>k. map_of m k = map_of m' k"
  shows "m = m'"
proof -
  have d: "distinct (map fst m)" "distinct (map fst m')" by (simp_all add: bt_sorted_distinct assms(1,2))
  have "set m = set m'" using assms(3) map_of_eq_Some_iff[OF d(1)] map_of_eq_Some_iff[OF d(2)] by auto
  moreover have "sorted (map fst m)" "sorted (map fst m')" using assms(1,2) by (simp_all add: bt_sorted_def strict_sorted_iff)
  moreover have "inj_on fst (set m \<union> set m')" using d(1) \<open>set m = set m'\<close> by (simp add: distinct_map)
  ultimately show ?thesis using map_sorted_distinct_set_unique[of fst m m'] d by blast
qed

lemma row_writes_commute:
  assumes "bt_sorted m" "msg_key a \<noteq> msg_key b" "msg_key a \<noteq> None" "msg_key b \<noteq> None"
  shows "row_write a (row_write b m) = row_write b (row_write a m)"
proof (rule bt_sorted_unique)
  have s: "bt_sorted (row_write c n)" if "bt_sorted n" for c :: "('t, 'k::linorder, 'v) db_message" and n :: "('k, 'v) btree_map"
    using that by (cases c) (simp_all add: bt_sorted_insert bt_sorted_remove bt_sorted_Nil)
  show "bt_sorted (row_write a (row_write b m))" "bt_sorted (row_write b (row_write a m))" by (intro s assms(1))+
  show "map_of (row_write a (row_write b m)) k = map_of (row_write b (row_write a m)) k" for k
    using assms s[OF assms(1)] by (cases a; cases b) (auto simp: map_simps)
qed

lemma db_writes_commute:
  assumes "tables_wf db" "\<not> clash a b"
  shows "db_write a (db_write b db) = db_write b (db_write a db)"
proof (cases "msg_table a = msg_table b")
  case True
  hence k: "msg_key a \<noteq> msg_key b" "msg_key a \<noteq> None" "msg_key b \<noteq> None" using assms(2) by (auto simp: clash_def)
  have "bt_sorted m" if "db t = Some m" for t m using assms(1) that by (simp add: tables_wf_def)
  thus ?thesis using row_writes_commute[OF _ k] True by (auto simp: db_write_table split: option.splits)
qed (auto simp: db_write_table fun_upd_twist split: option.splits)

text \<open>A write that clashes with none of those before it can be done first.\<close>

lemma write_first:
  assumes "tables_wf db" "msg \<in> set ms" "\<And>m. m \<in> set ms \<Longrightarrow> m \<noteq> msg \<Longrightarrow> \<not> clash m msg"
  shows "fold db_write (msg # remove1 msg ms) db = fold db_write ms db"
  using assms
proof (induction ms arbitrary: db)
  case (Cons m ms)
  show ?case
  proof (cases "m = msg")
    case False
    hence "fold db_write (msg # remove1 msg ms) (db_write m db) = fold db_write ms (db_write m db)"
      using Cons by (auto intro!: Cons.IH tables_wf_write)
    moreover have "db_write msg (db_write m db) = db_write m (db_write msg db)" using db_writes_commute Cons.prems False by fastforce
    ultimately show ?thesis using False by simp
  qed simp
qed simp

section \<open>The background thread follows the memory\<close>

text \<open>What the thread will hold once its open transaction is committed.\<close>

definition pending_db :: "('t, 'k::linorder, 'v) db_thread \<Rightarrow> ('t, 'k, 'v) tables" where
  "pending_db s = (case th_txn s of None \<Rightarrow> th_db s | Some (ops, n) \<Rightarrow> fold db_write ops (th_db s))"

text \<open>A transaction that cannot be started loses nothing: the writes are then made one by one.\<close>

definition op_kept :: "bool \<times> ('t, 'k, 'v) db_message \<Rightarrow> bool" where
  "op_kept e = ((fst e \<or> snd e = StartTxn) \<and> snd e \<noteq> DbShutdown)"

lemma pending_db_step:
  "th_live s \<Longrightarrow> op_kept (ok, msg) \<Longrightarrow> pending_db (db_step ok msg s) = db_write msg (pending_db s) \<and> th_live (db_step ok msg s)"
  by (cases msg) (auto simp: db_step_def pending_db_def db_write_def op_kept_def split: option.splits)

lemma pending_db_run:
  "th_live s \<Longrightarrow> \<forall>e\<in>set msgs. op_kept e \<Longrightarrow> pending_db (db_run msgs s) = fold db_write (map snd msgs) (pending_db s) \<and> th_live (db_run msgs s)"
proof (induction msgs arbitrary: s)
  case (Cons e msgs)
  obtain ok m where e: "e = (ok, m)" by fastforce
  have "th_live (db_step ok m s)" "pending_db (db_step ok m s) = db_write m (pending_db s)"
    using pending_db_step[of s ok m] Cons.prems by (auto simp: e)
  thus ?case using Cons.IH[of "db_step ok m s"] Cons.prems by (simp add: db_run_def e)
qed (simp add: db_run_def)

text \<open>
  The steps of the clients, on any number of handles: the two steps of a write, and the start and the end of
  transactions. The argument says whether a client waits before a write that clashes with one of
  another client that is between its two steps.
\<close>

inductive layered_step :: "bool \<Rightarrow> ('t, 'k::linorder, 'v) layered_db \<Rightarrow> ('t, 'k, 'v) layered_db \<Rightarrow> bool" for excl where
  start_txn: "layered_step excl l (fst (layered_write_txn l))"
| commit_txn: "layered_step excl l (fst (layered_commit l))"
| in_memory: "is_write msg \<Longrightarrow> (excl \<longrightarrow> (\<forall>m\<in>set (l_flight l). \<not> clash m msg)) \<Longrightarrow> layered_step excl l (layered_mem_write msg l)"
| to_thread: "msg \<in> set (l_flight l) \<Longrightarrow> layered_step excl l (fst (layered_send_write msg l))"

definition no_clash :: "('t, 'k, 'v) db_message list \<Rightarrow> bool" where
  "no_clash ms = (distinct ms \<and> (\<forall>m\<in>set ms. \<forall>m'\<in>set ms. m \<noteq> m' \<longrightarrow> \<not> clash m m'))"

text \<open>Memory is what the messages sent, and then the writes in flight, make of the tables at the start.\<close>

definition in_step :: "('t, 'k::linorder, 'v) tables \<Rightarrow> ('t, 'k, 'v) layered_db \<Rightarrow> bool" where
  "in_step db l =
     (tables_wf db \<and> l_open l \<and> DbShutdown \<notin> set (l_flight l @ l_sent l) \<and> no_clash (l_flight l) \<and>
      l_mem l = fold db_write (l_sent l @ l_flight l) db)"

lemma clash_self: "clash m m"
  by (simp add: clash_def)

lemma clash_sym: "clash m m' = clash m' m"
  by (auto simp: clash_def)

lemma in_step_txn:
  assumes "in_step db l" "msg \<in> {StartTxn, CommitTxn}"
  shows "in_step db (fst (layered_send msg l))"
  using assms by (auto simp: in_step_def layered_send_def db_write_def)

lemma in_step_memory:
  assumes "in_step db l" "is_write msg" "\<forall>m\<in>set (l_flight l). \<not> clash m msg"
  shows "in_step db (layered_mem_write msg l)"
proof -
  have "no_clash (l_flight l @ [msg])" using assms clash_self clash_sym unfolding no_clash_def in_step_def by fastforce
  moreover have "msg \<noteq> DbShutdown" using assms(2) by (auto simp: is_write_def)
  ultimately show ?thesis using assms(1) by (simp add: in_step_def layered_mem_write_def)
qed

lemma in_step_send:
  assumes "in_step db l" "msg \<in> set (l_flight l)"
  shows "in_step db (fst (layered_send_write msg l))"
proof -
  have i: "tables_wf db" "l_open l" "DbShutdown \<notin> set (l_flight l @ l_sent l)" "no_clash (l_flight l)"
    "l_mem l = fold db_write (l_flight l) (fold db_write (l_sent l) db)"
    using assms(1) by (simp_all add: in_step_def)
  have "fold db_write (msg # remove1 msg (l_flight l)) (fold db_write (l_sent l) db) = l_mem l"
    unfolding i(5) using i(4) assms(2) by (intro write_first tables_wf_writes i(1)) (auto simp: no_clash_def)
  moreover have "no_clash (remove1 msg (l_flight l))" using i(4) by (auto simp: no_clash_def)
  ultimately show ?thesis using i(1-3) assms(2) set_remove1_subset[of msg "l_flight l"]
    by (auto simp: in_step_def layered_send_write_def layered_send_def)
qed

lemma in_step_step: "in_step db l \<Longrightarrow> layered_step True l l' \<Longrightarrow> in_step db l'"
  by (erule layered_step.cases) (auto simp: layered_write_txn_def layered_commit_def intro: in_step_txn in_step_memory in_step_send)

interpretation layered: step_system "\<lambda>l. tables_wf db \<and> l = \<lparr> l_mem = db, l_flight = [], l_sent = [], l_open = True \<rparr>"
  "layered_step True" "in_step db" for db
proof (unfold_locales, goal_cases)
  case (1 l)
  thus ?case by (simp add: in_step_def no_clash_def)
next
  case (2 l l')
  thus ?case by (rule in_step_step)
qed

text \<open>A write without interruption by other clients is a run of these steps.\<close>

lemma layered_ops_steps:
  assumes "excl \<longrightarrow> l_flight l = []"
  shows "(layered_step excl)\<^sup>*\<^sup>* l (fst (layered_insert t k v l))" "(layered_step excl)\<^sup>*\<^sup>* l (fst (layered_remove t k l))"
    "(layered_step excl)\<^sup>*\<^sup>* l (fst (layered_clear_table t l))"
proof -
  have "(layered_step excl)\<^sup>*\<^sup>* l (fst (layered_send_write msg (layered_mem_write msg l)))" if "is_write msg" for msg
  proof -
    have "layered_step excl l (layered_mem_write msg l)" using that assms by (auto intro: layered_step.in_memory)
    moreover have "layered_step excl (layered_mem_write msg l) (fst (layered_send_write msg (layered_mem_write msg l)))"
      by (rule layered_step.to_thread) (simp add: layered_mem_write_def)
    ultimately show ?thesis by (meson converse_rtranclp_into_rtranclp r_into_rtranclp)
  qed
  thus "(layered_step excl)\<^sup>*\<^sup>* l (fst (layered_insert t k v l))" "(layered_step excl)\<^sup>*\<^sup>* l (fst (layered_remove t k l))"
    "(layered_step excl)\<^sup>*\<^sup>* l (fst (layered_clear_table t l))"
    unfolding layered_insert_def layered_remove_def layered_clear_table_def by (simp_all add: is_write_def)
qed

text \<open>Opening a table gives memory exactly the persistent rows.\<close>

lemma bt_insert_last: "\<forall>e\<in>set m. fst e < k \<Longrightarrow> bt_insert k v m = m @ [(k, v)]"
  by (induction k v m rule: bt_insert.induct) auto

lemma fold_insert_sorted:
  "bt_sorted (m @ es) \<Longrightarrow> db t = Some m \<Longrightarrow> fold (\<lambda>(k, v). mem_insert t k v) es db = db(t := Some (m @ es))"
proof (induction es arbitrary: m db)
  case (Cons e es)
  have "\<forall>x\<in>set m. fst x < fst e" using Cons.prems(1) by (auto simp: bt_sorted_def sorted_wrt_append)
  hence "mem_insert t (fst e) (snd e) db = db(t := Some (m @ [e]))" using Cons.prems(2)
    by (simp add: mem_insert_def bt_insert_last)
  moreover have "fold (\<lambda>(k, v). mem_insert t k v) es (db(t := Some (m @ [e]))) = (db(t := Some (m @ [e])))(t := Some ((m @ [e]) @ es))"
    by (rule Cons.IH) (use Cons.prems(1) in simp_all)
  ultimately show ?case by (cases e) (simp only: fold_simps case_prod_conv fun_upd_upd append_assoc append_Cons append_Nil fst_conv snd_conv)
qed auto

lemma layered_open_table_rows:
  assumes "db t = Some rows" "bt_sorted rows"
  shows "layered_open_table db t l = Some (l\<lparr> l_mem := (l_mem l)(t := Some rows) \<rparr>)"
  using fold_insert_sorted[of "[]" rows "mem_open_table t (l_mem l)" t] assms
  by (simp add: layered_open_table_def mem_iter_def mem_open_table_def)

text \<open>C11: the layered database is durable under two conditions: no operation of the persistent database fails,
  other than the start of a transaction, and a client waits before a write that clashes with one of
  another client that is done in memory and not sent yet. Then, however the clients are interleaved, once
  nothing is in flight, the background thread has handled every message and no transaction is open, the
  persistent tables are the tables in memory. The code enforces neither condition: the thread logs a
  failure and memory keeps the write, and nothing orders the memory writes and the messages of two clients.\<close>

theorem layered_db_durable:
  assumes "tables_wf db" "(layered_step True)\<^sup>*\<^sup>* \<lparr> l_mem = db, l_flight = [], l_sent = [], l_open = True \<rparr> l" "l_flight l = []"
    and "map snd handled = l_sent l" "\<forall>(ok, msg)\<in>set handled. ok \<or> msg = StartTxn"
    and "th_txn (db_run handled \<lparr> th_db = db, th_txn = None, th_live = True \<rparr>) = None"
  shows "th_db (db_run handled \<lparr> th_db = db, th_txn = None, th_live = True \<rparr>) = l_mem l"
proof -
  let ?s = "\<lparr> th_db = db, th_txn = None, th_live = True \<rparr>"
  have inv: "in_step db l" using layered.inv_reachable[OF _ assms(2)] assms(1) by blast
  hence "DbShutdown \<notin> set (map snd handled)" using assms(4) by (simp add: in_step_def)
  hence "\<forall>e\<in>set handled. op_kept e" using assms(5) by (force simp: op_kept_def)
  from pending_db_run[OF _ this, of ?s] have "pending_db (db_run handled ?s) = fold db_write (l_sent l) db"
    using assms(4) by (simp add: pending_db_def)
  thus ?thesis using inv assms(3,6) by (simp add: in_step_def pending_db_def)
qed

theorem layered_db_durable_witness:
  "\<exists>l. (layered_step True)\<^sup>*\<^sup>* \<lparr> l_mem = (\<lambda>_ :: unit. Some []), l_flight = [], l_sent = [], l_open = True \<rparr> l \<and>
     l_sent l = [StartTxn, DbInsert () (2 :: nat) ''b'', DbInsert () 1 ''a'', CommitTxn] \<and>
     th_db (db_run (map (Pair True) (l_sent l)) \<lparr> th_db = (\<lambda>_. Some []), th_txn = None, th_live = True \<rparr>) = l_mem l \<and>
     l_mem l () = Some [(1, ''a''), (2, ''b'')]"
proof -
  let ?a = "DbInsert () (1 :: nat) ''a''" and ?b = "DbInsert () (2 :: nat) ''b''"
  let ?s = "\<lparr> l_mem = (\<lambda>_ :: unit. Some []), l_flight = [], l_sent = [], l_open = True \<rparr> :: (unit, nat, string) layered_db"
  let ?l1 = "fst (layered_write_txn ?s)"
  let ?l2 = "layered_mem_write ?a ?l1"
  let ?l3 = "layered_mem_write ?b ?l2"
  let ?l4 = "fst (layered_send_write ?b ?l3)"
  let ?l5 = "fst (layered_send_write ?a ?l4)"
  let ?l = "fst (layered_commit ?l5)"
  note defs = layered_write_txn_def layered_commit_def layered_mem_write_def layered_send_write_def layered_send_def
  have "layered_step True ?s ?l1" by (rule layered_step.start_txn)
  moreover have "layered_step True ?l1 ?l2" by (rule layered_step.in_memory) (simp_all add: defs is_write_def)
  moreover have "layered_step True ?l2 ?l3" by (rule layered_step.in_memory) (simp_all add: defs is_write_def clash_def)
  moreover have "layered_step True ?l3 ?l4" "layered_step True ?l4 ?l5" by (rule layered_step.to_thread; simp add: defs)+
  moreover have "layered_step True ?l5 ?l" by (rule layered_step.commit_txn)
  ultimately have run: "(layered_step True)\<^sup>*\<^sup>* ?s ?l" by (meson converse_rtranclp_into_rtranclp rtranclp.rtrancl_refl)
  have l: "l_flight ?l = []" "l_sent ?l = [StartTxn, ?b, ?a, CommitTxn]" "l_mem ?l () = Some [(1, ''a''), (2, ''b'')]"
    by (simp_all add: defs db_write_def mem_insert_def)
  have wf: "tables_wf (\<lambda>_ :: unit. Some ([] :: (nat \<times> string) list))" by (simp add: tables_wf_def bt_sorted_Nil)
  have "th_txn (db_run (map (Pair True) (l_sent ?l)) \<lparr> th_db = (\<lambda>_. Some []), th_txn = None, th_live = True \<rparr>) = None"
    unfolding l(2) by (simp add: db_run_def db_step_def)
  from layered_db_durable[OF wf run l(1) _ _ this] have "th_db (db_run (map (Pair True) (l_sent ?l)) \<lparr> th_db = (\<lambda>_. Some []), th_txn = None, th_live = True \<rparr>) = l_mem ?l"
    by (auto simp: comp_def)
  thus ?thesis using run l(2,3) by (intro exI[of _ ?l]) simp
qed

section \<open>What is lost\<close>

text \<open>
  Without the first condition a write is lost: one that fails leaves the persistent tables as they were, and
  a commit that fails drops every write of its transaction, while memory answers with them.
\<close>

lemma failed_write_lost:
  assumes "th_live s" "is_write msg"
  shows "db_step False msg s = s"
  using assms by (cases msg) (simp_all add: db_step_def is_write_def)

lemma failed_commit_lost:
  assumes "th_live s" "th_txn s = Some (ops, 1)"
  shows "db_step False CommitTxn s = s\<lparr> th_txn := None \<rparr>"
  using assms by (simp add: db_step_def)

text \<open>
  Without the second condition memory and the persistent tables end with different values of one row: two
  clients write the row in memory in one order and send their messages in the other.
\<close>

lemma racing_clients_diverge:
  "\<exists>l. (layered_step False)\<^sup>*\<^sup>* \<lparr> l_mem = (\<lambda>_ :: unit. Some []), l_flight = [], l_sent = [], l_open = True \<rparr> l \<and> l_flight l = [] \<and>
     layered_get l () (1 :: nat) = Some ''b'' \<and>
     mem_get (th_db (db_run (map (Pair True) (l_sent l)) \<lparr> th_db = (\<lambda>_. Some []), th_txn = None, th_live = True \<rparr>)) () 1 = Some ''a''"
proof -
  let ?a = "DbInsert () (1 :: nat) ''a''" and ?b = "DbInsert () (1 :: nat) ''b''"
  let ?s = "\<lparr> l_mem = (\<lambda>_ :: unit. Some []), l_flight = [], l_sent = [], l_open = True \<rparr> :: (unit, nat, string) layered_db"
  let ?l1 = "layered_mem_write ?a ?s"
  let ?l2 = "layered_mem_write ?b ?l1"
  let ?l3 = "fst (layered_send_write ?b ?l2)"
  let ?l = "fst (layered_send_write ?a ?l3)"
  note defs = layered_mem_write_def layered_send_write_def layered_send_def
  have "layered_step False ?s ?l1" "layered_step False ?l1 ?l2" by (rule layered_step.in_memory; simp add: is_write_def)+
  moreover have "layered_step False ?l2 ?l3" "layered_step False ?l3 ?l" by (rule layered_step.to_thread; simp add: defs)+
  ultimately have "(layered_step False)\<^sup>*\<^sup>* ?s ?l" by (meson converse_rtranclp_into_rtranclp rtranclp.rtrancl_refl)
  moreover have "l_flight ?l = []" "l_sent ?l = [?b, ?a]" "layered_get ?l () 1 = Some ''b''"
    by (simp_all add: defs layered_get_def mem_get_def db_write_def mem_insert_def)
  ultimately show ?thesis
    by (intro exI[of _ ?l]) (simp add: db_run_def db_step_def db_write_def mem_insert_def mem_get_def)
qed

text \<open>A transaction that is started and never committed keeps every later write out of the persistent tables.\<close>

fun balanced_from :: "nat \<Rightarrow> ('t, 'k, 'v) db_message list \<Rightarrow> bool" where
  "balanced_from n [] = True"
| "balanced_from n (StartTxn # ms) = balanced_from (Suc n) ms"
| "balanced_from n (CommitTxn # ms) = (n \<noteq> 0 \<and> balanced_from (n - 1) ms)"
| "balanced_from n (_ # ms) = balanced_from n ms"

lemma dead_run: "\<not> th_live s \<Longrightarrow> db_run msgs s = s"
  by (induction msgs) (auto simp: db_run_def db_step_def)

lemma open_txn_blocks:
  assumes "balanced_from n (map snd msgs)" "th_txn s = Some (ops, Suc n)"
  shows "th_db (db_run msgs s) = th_db s"
proof (cases "th_live s")
  case True
  show ?thesis using assms True
  proof (induction msgs arbitrary: n s ops)
    case (Cons e msgs)
    obtain ok m where e: "e = (ok, m)" by fastforce
    show ?case
    proof (cases m)
      case CommitTxn
      then obtain k where "n = Suc k" using Cons.prems(1) e by (cases n) auto
      thus ?thesis using CommitTxn Cons.IH[of k "db_step ok m s" ops] Cons.prems by (simp add: db_run_def db_step_def e)
    next
      case DbShutdown
      thus ?thesis using dead_run[of "db_step ok m s" msgs] Cons.prems(2,3) by (simp add: db_run_def db_step_def e)
    next
      case StartTxn
      thus ?thesis using Cons.IH[of "Suc n" "db_step ok m s" ops] Cons.prems by (simp add: db_run_def db_step_def e)
    qed (use Cons.IH[of n "db_step ok m s" "if ok then ops @ [m] else ops"] Cons.prems in \<open>simp_all add: db_run_def db_step_def e split: if_splits\<close>)
  qed (simp add: db_run_def)
qed (simp add: dead_run)

text \<open>A write transaction that is started and never committed keeps every later write, of any client,
  out of the persistent tables, although reads see them: later transactions only nest into it.\<close>

theorem unfinished_txn_blocks:
  assumes "th_live s" "th_txn s = None" "balanced_from 0 (map snd msgs)" "\<forall>e\<in>set msgs. op_kept e"
  shows "th_db (db_run ((True, StartTxn) # msgs) s) = th_db s \<and>
    pending_db (db_run ((True, StartTxn) # msgs) s) = fold db_write (map snd msgs) (th_db s)"
proof -
  let ?s = "db_step True StartTxn s"
  have t: "th_txn ?s = Some ([], Suc 0)" "th_db ?s = th_db s" "th_live ?s" "pending_db ?s = th_db s"
    using assms(1,2) by (simp_all add: db_step_def pending_db_def)
  have run: "db_run ((True, StartTxn) # msgs) s = db_run msgs ?s" by (simp add: db_run_def)
  show ?thesis unfolding run using open_txn_blocks[OF assms(3) t(1)] pending_db_run[OF t(3) assms(4)] t(2,4) by simp
qed

theorem unfinished_txn_blocks_witness:
  "th_db (db_run (map (Pair True) [StartTxn, StartTxn, DbInsert () (1 :: nat) ''a'', CommitTxn])
     \<lparr> th_db = (\<lambda>_. Some []), th_txn = None, th_live = True \<rparr>) () = Some []"
  using unfinished_txn_blocks[of "\<lparr> th_db = (\<lambda>_. Some []), th_txn = None, th_live = True \<rparr>" "map (Pair True) [StartTxn, DbInsert () (1 :: nat) ''a'', CommitTxn]"]
  by (simp add: op_kept_def)

end
