(* ===== verification/Cert_Store.thy ===== *)
theory Cert_Store
  imports Database Consensus_Types "HOL-Library.Product_Lexorder"
begin

text \<open>
  The certificate store (crates/storage/src/stores/certificate_store.rs): the certificates by digest
  and the two indexes of their digests, by round and origin and by origin and round. Keys that are
  pairs are ordered by the first component first, as their encoding is. The three tables are opened
  when the node opens its database, so they exist. Writing a certificate also drops the rounds that
  are too far below it.
\<close>

record cert_store =
  cs_certs :: "(digest, certificate) btree_map"
  cs_by_round :: "(round \<times> authority_id, digest) btree_map"
  cs_by_origin :: "(authority_id \<times> round, digest) btree_map"

datatype store_error = MissingCertificate digest

definition ROUNDS_TO_KEEP :: nat where
  "ROUNDS_TO_KEEP = 64"

definition cert_store_empty :: cert_store where
  "cert_store_empty = \<lparr> cs_certs = [], cs_by_round = [], cs_by_origin = [] \<rparr>"

section \<open>Writing\<close>

definition save_cert :: "certificate \<Rightarrow> cert_store \<Rightarrow> cert_store" where
  "save_cert x s =
     s\<lparr> cs_certs := bt_insert (cert_digest x) x (cs_certs s),
        cs_by_round := bt_insert (c_round x, c_origin x) (cert_digest x) (cs_by_round s),
        cs_by_origin := bt_insert (c_origin x, c_round x) (cert_digest x) (cs_by_origin s) \<rparr>"

definition gc_remove :: "(round \<times> authority_id) \<times> digest \<Rightarrow> cert_store \<Rightarrow> cert_store" where
  "gc_remove e s =
     s\<lparr> cs_certs := bt_remove (snd e) (cs_certs s), cs_by_round := bt_remove (fst e) (cs_by_round s),
        cs_by_origin := bt_remove (snd (fst e), fst (fst e)) (cs_by_origin s) \<rparr>"

definition gc_rounds :: "round \<Rightarrow> cert_store \<Rightarrow> cert_store" where
  "gc_rounds target s =
     (if target \<le> ROUNDS_TO_KEEP then s
      else fold gc_remove (takeWhile (\<lambda>e. fst (fst e) < target - ROUNDS_TO_KEEP) (cs_by_round s)) s)"

definition store_write :: "certificate \<Rightarrow> cert_store \<Rightarrow> cert_store" where
  "store_write x s = gc_rounds (c_round x) (save_cert x s)"

definition store_write_all :: "certificate list \<Rightarrow> cert_store \<Rightarrow> cert_store" where
  "store_write_all xs s = gc_rounds (fold (\<lambda>x r. max r (c_round x)) xs 0) (fold save_cert xs s)"

section \<open>Reading\<close>

definition store_read :: "cert_store \<Rightarrow> digest \<Rightarrow> certificate option" where
  "store_read s d = map_of (cs_certs s) d"

definition read_by_index :: "cert_store \<Rightarrow> authority_id \<Rightarrow> round \<Rightarrow> certificate option" where
  "read_by_index s a r =
     (case map_of (cs_by_origin s) (a, r) of Some d \<Rightarrow> store_read s d | None \<Rightarrow> None)"

definition store_contains :: "cert_store \<Rightarrow> digest \<Rightarrow> bool" where
  "store_contains s d = (map_of (cs_certs s) d \<noteq> None)"

definition multi_contains :: "cert_store \<Rightarrow> digest list \<Rightarrow> bool list" where
  "multi_contains s ds = map (store_contains s) ds"

definition store_read_all :: "cert_store \<Rightarrow> digest list \<Rightarrow> certificate option list" where
  "store_read_all s ds = map (store_read s) ds"

section \<open>Deleting\<close>

text \<open>
  The second component is whether the write transaction that the operation starts is committed: both
  return early, leaving it open, when the certificate is not there. What was removed before stays
  removed in memory. Neither touches the index by origin.
\<close>

definition delete_entry :: "certificate \<Rightarrow> digest \<Rightarrow> cert_store \<Rightarrow> cert_store" where
  "delete_entry x d s =
     s\<lparr> cs_certs := bt_remove d (cs_certs s), cs_by_round := bt_remove (c_round x, c_origin x) (cs_by_round s) \<rparr>"

definition store_delete :: "digest \<Rightarrow> cert_store \<Rightarrow> cert_store \<times> bool" where
  "store_delete d s =
     (case store_read s d of None \<Rightarrow> (s, False) | Some x \<Rightarrow> (delete_entry x d s, True))"

fun store_delete_all :: "digest list \<Rightarrow> cert_store \<Rightarrow> cert_store \<times> bool" where
  "store_delete_all [] s = (s, True)"
| "store_delete_all (d # ds) s =
     (case store_read s d of None \<Rightarrow> (s, False) | Some x \<Rightarrow> store_delete_all ds (delete_entry x d s))"

definition store_clear :: "cert_store \<Rightarrow> cert_store" where
  "store_clear s = s\<lparr> cs_certs := [], cs_by_round := [], cs_by_origin := [] \<rparr>"

section \<open>Ranges\<close>

definition from_round :: "cert_store \<Rightarrow> round \<Rightarrow> ((round \<times> authority_id) \<times> digest) list" where
  "from_round s r =
     (if r > 0 then dropWhile (\<lambda>e. fst e < (r - 1, 0)) (cs_by_round s) else cs_by_round s)"

fun collect_certs ::
  "cert_store \<Rightarrow> round \<Rightarrow> ((round \<times> authority_id) \<times> digest) list \<Rightarrow> (store_error, certificate list) result" where
  "collect_certs s r [] = Inr []"
| "collect_certs s r (e # es) =
     (if fst (fst e) \<ge> r
      then (case store_read s (snd e) of
              Some x \<Rightarrow> (case collect_certs s r es of Inl err \<Rightarrow> Inl err | Inr xs \<Rightarrow> Inr (x # xs))
            | None \<Rightarrow> Inl (MissingCertificate (snd e)))
      else collect_certs s r es)"

definition after_round :: "cert_store \<Rightarrow> round \<Rightarrow> (store_error, certificate list) result" where
  "after_round s r = collect_certs s r (from_round s r)"

definition add_origin ::
  "(round \<times> authority_id) \<times> digest \<Rightarrow> (round, authority_id list) btree_map \<Rightarrow> (round, authority_id list) btree_map" where
  "add_origin e m =
     bt_insert (fst (fst e)) ((case map_of m (fst (fst e)) of None \<Rightarrow> [] | Some os \<Rightarrow> os) @ [snd (fst e)]) m"

definition origins_after_round :: "cert_store \<Rightarrow> round \<Rightarrow> (round, authority_id list) btree_map" where
  "origins_after_round s r = fold add_origin (filter (\<lambda>e. \<not> fst (fst e) < r) (from_round s r)) []"

fun last_two_loop ::
  "cert_store \<Rightarrow> round \<Rightarrow> certificate list \<Rightarrow> ((round \<times> authority_id) \<times> digest) list
    \<Rightarrow> (store_error, certificate list) result" where
  "last_two_loop s r acc [] = Inr acc"
| "last_two_loop s r acc (e # es) =
     (if r \<noteq> 0 \<and> fst (fst e) < r - 1 then Inr acc
      else case store_read s (snd e) of
             None \<Rightarrow> Inl (MissingCertificate (snd e))
           | Some x \<Rightarrow> last_two_loop s (if r = 0 then fst (fst e) else r) (acc @ [x]) es)"

definition last_two_rounds_certs :: "cert_store \<Rightarrow> (store_error, certificate list) result" where
  "last_two_rounds_certs s = last_two_loop s 0 [] (rev (cs_by_round s))"

definition store_last_round :: "cert_store \<Rightarrow> authority_id \<Rightarrow> certificate option" where
  "store_last_round s a =
     (case last_before (a, u32_max - 1) None (cs_by_origin s) of
        Some ((n, _), d) \<Rightarrow> if n = a then store_read s d else None
      | None \<Rightarrow> None)"

definition highest_round_number :: "cert_store \<Rightarrow> round" where
  "highest_round_number s = (case rev (cs_by_round s) of [] \<Rightarrow> 0 | e # _ \<Rightarrow> fst (fst e))"

definition last_round_number :: "cert_store \<Rightarrow> authority_id \<Rightarrow> round option" where
  "last_round_number s a =
     (case last_before (a, u32_max - 1) None (cs_by_origin s) of
        Some ((n, r), _) \<Rightarrow> if n = a then Some r else None
      | None \<Rightarrow> None)"

definition next_round_number :: "cert_store \<Rightarrow> authority_id \<Rightarrow> round \<Rightarrow> round option" where
  "next_round_number s a r =
     (case dropWhile (\<lambda>e. fst e < (a, u32_add r 1)) (cs_by_origin s) of
        ((n, r'), _) # _ \<Rightarrow> if n = a then Some r' else None
      | [] \<Rightarrow> None)"

definition is_empty_certs :: "cert_store \<Rightarrow> bool" where
  "is_empty_certs s = (cs_certs s = [])"

section \<open>The store invariant\<close>

definition store_sorted :: "cert_store \<Rightarrow> bool" where
  "store_sorted s = (bt_sorted (cs_certs s) \<and> bt_sorted (cs_by_round s) \<and> bt_sorted (cs_by_origin s))"

definition round_index_ok :: "cert_store \<Rightarrow> bool" where
  "round_index_ok s =
     (\<forall>r a d. map_of (cs_by_round s) (r, a) = Some d \<longrightarrow>
        (\<exists>x. store_read s d = Some x \<and> c_round x = r \<and> c_origin x = a \<and> cert_digest x = d))"

definition keyed_by_digest :: "cert_store \<Rightarrow> bool" where
  "keyed_by_digest s = (\<forall>d x. store_read s d = Some x \<longrightarrow> cert_digest x = d)"

definition store_ok :: "cert_store \<Rightarrow> bool" where
  "store_ok s = (store_sorted s \<and> keyed_by_digest s \<and> round_index_ok s)"

text \<open>The two indexes hold the same entries; only deleting breaks this.\<close>

definition origin_index_ok :: "cert_store \<Rightarrow> bool" where
  "origin_index_ok s = (\<forall>r a. map_of (cs_by_origin s) (a, r) = map_of (cs_by_round s) (r, a))"

lemmas store_ok_defs = store_ok_def store_sorted_def keyed_by_digest_def round_index_ok_def store_read_def

lemma store_ok_empty: "store_ok cert_store_empty"
  by (simp add: store_ok_defs cert_store_empty_def bt_sorted_Nil)

lemma origin_index_empty: "origin_index_ok cert_store_empty"
  by (simp add: origin_index_ok_def cert_store_empty_def)

text \<open>A digest identifies the round and the author of its certificate, as a collision-free hash does.\<close>

definition digests_identify :: "certificate set \<Rightarrow> bool" where
  "digests_identify X = (\<forall>x\<in>X. \<forall>y\<in>X. cert_digest x = cert_digest y \<longrightarrow> c_round x = c_round y \<and> c_origin x = c_origin y)"

definition stored_certs :: "cert_store \<Rightarrow> certificate set" where
  "stored_certs s = ran (store_read s)"

lemma stored_certsI: "store_read s d = Some x \<Longrightarrow> x \<in> stored_certs s"
  by (auto simp: stored_certs_def ran_def)

lemma digests_identifyD:
  "digests_identify X \<Longrightarrow> x \<in> X \<Longrightarrow> y \<in> X \<Longrightarrow> cert_digest x = cert_digest y \<Longrightarrow> c_round x = c_round y \<and> c_origin x = c_origin y"
  unfolding digests_identify_def by blast

lemma digests_identify_mono: "digests_identify Y \<Longrightarrow> X \<subseteq> Y \<Longrightarrow> digests_identify X"
  unfolding digests_identify_def by blast

lemma store_read_save: "store_read (save_cert x s) d = (if d = cert_digest x then Some x else store_read s d)"
  by (simp add: store_read_def save_cert_def map_simps)

lemma stored_save: "stored_certs (save_cert x s) \<subseteq> insert x (stored_certs s)"
  by (auto simp: stored_certs_def ran_def store_read_save split: if_splits)

lemma round_index_save:
  assumes "round_index_ok s" "digests_identify (insert x (stored_certs s))"
  shows "round_index_ok (save_cert x s)"
  unfolding round_index_ok_def
proof (intro allI impI)
  fix r a d
  assume h: "map_of (cs_by_round (save_cert x s)) (r, a) = Some d"
  show "\<exists>y. store_read (save_cert x s) d = Some y \<and> c_round y = r \<and> c_origin y = a \<and> cert_digest y = d"
  proof (cases "(r, a) = (c_round x, c_origin x)")
    case True
    moreover have "d = cert_digest x" using h True by (simp add: save_cert_def map_simps)
    ultimately show ?thesis by (simp add: store_read_save)
  next
    case False
    hence "map_of (cs_by_round s) (r, a) = Some d" using h by (simp add: save_cert_def map_simps split: if_splits)
    then obtain y where y: "store_read s d = Some y" "c_round y = r" "c_origin y = a" "cert_digest y = d"
      using assms(1) unfolding round_index_ok_def by blast
    have "d \<noteq> cert_digest x"
      using digests_identifyD[OF assms(2), of y x] stored_certsI[OF y(1)] y False by auto
    thus ?thesis using y by (simp add: store_read_save)
  qed
qed

lemma store_ok_save:
  assumes "store_ok s" "digests_identify (insert x (stored_certs s))"
  shows "store_ok (save_cert x s)"
  using assms round_index_save[of s x]
  by (simp add: store_ok_def store_sorted_def keyed_by_digest_def store_read_save)
    (simp add: save_cert_def bt_sorted_insert)

lemma store_ok_save_all:
  "store_ok s \<Longrightarrow> digests_identify (set xs \<union> stored_certs s) \<Longrightarrow> store_ok (fold save_cert xs s)"
proof (induction xs arbitrary: s)
  case (Cons x xs)
  have "digests_identify (insert x (stored_certs s))"
    by (rule digests_identify_mono[OF Cons.prems(2)]) auto
  moreover have "digests_identify (set xs \<union> stored_certs (save_cert x s))"
    by (rule digests_identify_mono[OF Cons.prems(2)]) (use stored_save[of x s] in auto)
  ultimately show ?case using Cons.IH[of "save_cert x s"] store_ok_save[of s x] Cons.prems(1) by simp
qed simp

lemma origin_index_save: "origin_index_ok s \<Longrightarrow> origin_index_ok (save_cert x s)"
  by (auto simp: origin_index_ok_def save_cert_def map_simps)

section \<open>Garbage collection\<close>

lemma gc_remove_fields:
  "store_read (gc_remove e s) d = (if d = snd e then None else store_read s d)"
  "map_of (cs_by_round (gc_remove e s)) k = (if k = fst e then None else map_of (cs_by_round s) k)"
  "map_of (cs_by_origin (gc_remove e s)) (a, r) = (if (r, a) = fst e then None else map_of (cs_by_origin s) (a, r))"
  by (cases e; auto simp: store_read_def gc_remove_def map_simps)+

lemma gc_fold_fields:
  "store_read (fold gc_remove es s) d = (if d \<in> snd ` set es then None else store_read s d)"
  "map_of (cs_by_round (fold gc_remove es s)) k = (if k \<in> fst ` set es then None else map_of (cs_by_round s) k)"
  "map_of (cs_by_origin (fold gc_remove es s)) (a, r) = (if (r, a) \<in> fst ` set es then None else map_of (cs_by_origin s) (a, r))"
  by (induction es arbitrary: s) (simp_all add: gc_remove_fields)

lemma gc_fold_sorted: "store_sorted s \<Longrightarrow> store_sorted (fold gc_remove es s)"
  by (induction es arbitrary: s) (simp_all add: store_sorted_def gc_remove_def bt_sorted_remove)

lemma takeWhile_rounds:
  fixes m :: "(round \<times> authority_id, digest) btree_map"
  assumes "bt_sorted m"
  shows "takeWhile (\<lambda>e. fst (fst e) < t) m = filter (\<lambda>e. fst (fst e) < t) m"
  using assms
proof (induction m)
  case (Cons e m)
  have "fst (fst e) \<le> fst (fst x)" if "x \<in> set m" for x
    using Cons.prems that by (fastforce simp: bt_sorted_def less_prod_def less_eq_prod_def)
  hence "filter (\<lambda>e. fst (fst e) < t) m = []" if "\<not> fst (fst e) < t"
    using that by (force simp: filter_empty_conv)
  thus ?case using Cons by (auto simp: bt_sorted_def)
qed simp

text \<open>The entries that the collection removes: the rounds more than \<open>ROUNDS_TO_KEEP\<close> below the target.\<close>

definition gc_victims :: "round \<Rightarrow> cert_store \<Rightarrow> ((round \<times> authority_id) \<times> digest) list" where
  "gc_victims t s = filter (\<lambda>e. fst (fst e) + ROUNDS_TO_KEEP < t) (cs_by_round s)"

lemma gc_rounds_fold: "store_sorted s \<Longrightarrow> gc_rounds t s = fold gc_remove (gc_victims t s) s"
proof -
  assume "store_sorted s"
  hence "takeWhile (\<lambda>e. fst (fst e) < t - ROUNDS_TO_KEEP) (cs_by_round s) = filter (\<lambda>e. fst (fst e) < t - ROUNDS_TO_KEEP) (cs_by_round s)"
    by (intro takeWhile_rounds) (simp add: store_sorted_def)
  moreover have "(fst (fst e) < t - ROUNDS_TO_KEEP) = (fst (fst e) + ROUNDS_TO_KEEP < t)" for e :: "(round \<times> authority_id) \<times> digest"
    by auto
  ultimately show ?thesis by (auto simp: gc_rounds_def gc_victims_def)
qed

lemma victims_iff:
  assumes "store_sorted s"
  shows "(r, a) \<in> fst ` set (gc_victims t s) \<longleftrightarrow> map_of (cs_by_round s) (r, a) \<noteq> None \<and> r + ROUNDS_TO_KEEP < t"
    and "d \<in> snd ` set (gc_victims t s) \<longleftrightarrow> (\<exists>r a. map_of (cs_by_round s) (r, a) = Some d \<and> r + ROUNDS_TO_KEEP < t)"
proof -
  have "((r, a), d) \<in> set (cs_by_round s) \<longleftrightarrow> map_of (cs_by_round s) (r, a) = Some d" for r a d
    using bt_sorted_distinct[of "cs_by_round s"] assms by (auto simp: store_sorted_def)
  thus "(r, a) \<in> fst ` set (gc_victims t s) \<longleftrightarrow> map_of (cs_by_round s) (r, a) \<noteq> None \<and> r + ROUNDS_TO_KEEP < t"
    "d \<in> snd ` set (gc_victims t s) \<longleftrightarrow> (\<exists>r a. map_of (cs_by_round s) (r, a) = Some d \<and> r + ROUNDS_TO_KEEP < t)"
    by (force simp: gc_victims_def)+
qed

lemma store_read_gc:
  "store_sorted s \<Longrightarrow> store_read (gc_rounds t s) d =
     (if \<exists>r a. map_of (cs_by_round s) (r, a) = Some d \<and> r + ROUNDS_TO_KEEP < t then None else store_read s d)"
  by (simp add: gc_rounds_fold gc_fold_fields victims_iff)

lemma round_index_gc:
  "store_sorted s \<Longrightarrow> map_of (cs_by_round (gc_rounds t s)) (r, a) =
     (if r + ROUNDS_TO_KEEP < t then None else map_of (cs_by_round s) (r, a))"
  by (auto simp: gc_rounds_fold gc_fold_fields victims_iff)

lemma store_ok_gc:
  assumes "store_ok s"
  shows "store_ok (gc_rounds t s)"
proof -
  have so: "store_sorted s" "round_index_ok s" "keyed_by_digest s" using assms by (auto simp: store_ok_def)
  have "round_index_ok (gc_rounds t s)"
    unfolding round_index_ok_def
  proof (intro allI impI)
    fix r a d
    assume "map_of (cs_by_round (gc_rounds t s)) (r, a) = Some d"
    hence h: "map_of (cs_by_round s) (r, a) = Some d" "\<not> r + ROUNDS_TO_KEEP < t"
      using round_index_gc[OF so(1)] by (auto split: if_splits)
    then obtain x where x: "store_read s d = Some x" "c_round x = r" "c_origin x = a" "cert_digest x = d"
      using so(2) unfolding round_index_ok_def by blast
    moreover have "r' = r" if "map_of (cs_by_round s) (r', a') = Some d" for r' a'
      using so(2) that x unfolding round_index_ok_def by fastforce
    ultimately show "\<exists>x. store_read (gc_rounds t s) d = Some x \<and> c_round x = r \<and> c_origin x = a \<and> cert_digest x = d"
      using h(2) store_read_gc[OF so(1), of t d] by auto
  qed
  moreover have "store_sorted (gc_rounds t s)" using so(1) by (simp add: gc_rounds_fold gc_fold_sorted)
  moreover have "keyed_by_digest (gc_rounds t s)" using so(1,3) by (simp add: keyed_by_digest_def store_read_gc)
  ultimately show ?thesis by (simp add: store_ok_def)
qed

lemma origin_index_gc: "store_sorted s \<Longrightarrow> origin_index_ok s \<Longrightarrow> origin_index_ok (gc_rounds t s)"
  by (simp add: origin_index_ok_def gc_rounds_fold gc_fold_fields)

section \<open>What the operations promise\<close>

lemma store_ok_write_all:
  "store_ok s \<Longrightarrow> digests_identify (set xs \<union> stored_certs s) \<Longrightarrow> store_ok (store_write_all xs s)"
  by (simp add: store_write_all_def store_ok_gc store_ok_save_all)

lemma store_write_is_write_all: "store_write x s = store_write_all [x] s"
  by (simp add: store_write_def store_write_all_def)

lemma origin_index_save_all: "origin_index_ok s \<Longrightarrow> origin_index_ok (fold save_cert xs s)"
  by (induction xs arbitrary: s) (simp_all add: origin_index_save)

lemma store_read_save_all: "store_read (fold save_cert xs s) d = (case find (\<lambda>x. cert_digest x = d) (rev xs) of Some x \<Rightarrow> Some x | None \<Rightarrow> store_read s d)"
proof (induction xs rule: rev_induct)
  case (snoc x xs)
  thus ?case by (auto simp: store_read_save)
qed simp

lemma store_read_write_all:
  assumes "store_sorted s" "store_read (store_write_all xs s) d = Some x"
  shows "(x \<in> set xs \<and> cert_digest x = d) \<or> store_read s d = Some x"
proof -
  have "store_sorted (fold save_cert xs s)" using assms(1)
    by (induction xs arbitrary: s) (simp_all add: store_sorted_def save_cert_def bt_sorted_insert)
  hence "store_read (fold save_cert xs s) d = Some x"
    using assms(2) by (simp add: store_write_all_def store_read_gc split: if_splits)
  thus ?thesis unfolding store_read_save_all by (auto split: option.splits dest: find_Some_iff_mem)
qed

lemma store_contains_read: "store_contains s d \<longleftrightarrow> (\<exists>x. store_read s d = Some x)"
  by (auto simp: store_contains_def store_read_def)

lemma delete_entry_ok:
  assumes "store_ok s" "store_read s d = Some x"
  shows "store_ok (delete_entry x d s)"
proof -
  have rd: "store_read (delete_entry x d s) d' = (if d' = d then None else store_read s d')" for d'
    by (simp add: store_read_def delete_entry_def map_simps)
  have "round_index_ok (delete_entry x d s)"
    unfolding round_index_ok_def
  proof (intro allI impI)
    fix r a d'
    assume "map_of (cs_by_round (delete_entry x d s)) (r, a) = Some d'"
    hence h: "map_of (cs_by_round s) (r, a) = Some d'" "(r, a) \<noteq> (c_round x, c_origin x)"
      by (auto simp: delete_entry_def map_simps split: if_splits)
    then obtain y where y: "store_read s d' = Some y" "c_round y = r" "c_origin y = a" "cert_digest y = d'"
      using assms(1) unfolding store_ok_def round_index_ok_def by blast
    have "d' \<noteq> d" using y(1-3) h(2) assms(2) by auto
    thus "\<exists>y. store_read (delete_entry x d s) d' = Some y \<and> c_round y = r \<and> c_origin y = a \<and> cert_digest y = d'"
      using y rd by simp
  qed
  moreover have "keyed_by_digest (delete_entry x d s)" using assms(1) rd by (simp add: store_ok_def keyed_by_digest_def)
  moreover have "store_sorted (delete_entry x d s)" using assms(1)
    by (simp add: store_ok_def store_sorted_def delete_entry_def bt_sorted_remove)
  ultimately show ?thesis by (simp add: store_ok_def)
qed

lemma store_delete_ok: "store_ok s \<Longrightarrow> store_ok (fst (store_delete d s))"
  by (simp add: store_delete_def delete_entry_ok split: option.split)

lemma store_delete_all_ok: "store_ok s \<Longrightarrow> store_ok (fst (store_delete_all ds s))"
  by (induction ds s rule: store_delete_all.induct) (auto simp: delete_entry_ok split: option.splits)

lemma from_round_filter:
  assumes "store_sorted s"
  shows "filter (\<lambda>e. r \<le> fst (fst e)) (from_round s r) = filter (\<lambda>e. r \<le> fst (fst e)) (cs_by_round s)"
proof -
  have "filter (\<lambda>e. r \<le> fst (fst e)) (dropWhile (\<lambda>e. fst e < (r - 1, 0)) m) = filter (\<lambda>e. r \<le> fst (fst e)) m"
    for m :: "(round \<times> authority_id, digest) btree_map"
    by (induction m) (auto simp: less_prod_def)
  thus ?thesis by (simp add: from_round_def)
qed

lemma collect_certs_filter:
  "collect_certs s r es = collect_certs s r (filter (\<lambda>e. r \<le> fst (fst e)) es)"
  by (induction es) (auto split: option.splits sum.splits)

lemma collect_certs_ok:
  "\<forall>e\<in>set es. r \<le> fst (fst e) \<and> store_read s (snd e) \<noteq> None \<Longrightarrow>
     collect_certs s r es = Inr (map (\<lambda>e. the (store_read s (snd e))) es)"
  by (induction es) auto

lemma index_entry:
  assumes "store_ok s" "e \<in> set (cs_by_round s)"
  obtains x where "store_read s (snd e) = Some x" "c_round x = fst (fst e)" "c_origin x = snd (fst e)" "cert_digest x = snd e"
proof -
  have "distinct (map fst (cs_by_round s))" using assms(1) bt_sorted_distinct by (auto simp: store_ok_def store_sorted_def)
  hence "map_of (cs_by_round s) (fst (fst e), snd (fst e)) = Some (snd e)" using assms(2) by simp
  thus thesis using assms(1) that unfolding store_ok_def round_index_ok_def by blast
qed

text \<open>The certificates of the index: those a reader of ranges of rounds sees.\<close>

definition indexed_certs :: "cert_store \<Rightarrow> certificate list" where
  "indexed_certs s = map (\<lambda>e. the (store_read s (snd e))) (cs_by_round s)"

lemma index_entry_the:
  "store_ok s \<Longrightarrow> e \<in> set (cs_by_round s) \<Longrightarrow> (c_round (the (store_read s (snd e))), c_origin (the (store_read s (snd e)))) = fst e"
  by (erule index_entry) auto

lemma after_round_filter:
  assumes "store_ok s"
  shows "after_round s r = Inr (filter (\<lambda>x. r \<le> c_round x) (indexed_certs s))"
proof -
  let ?es = "filter (\<lambda>e. r \<le> fst (fst e)) (cs_by_round s)"
  have so: "store_sorted s" using assms by (simp add: store_ok_def)
  have "collect_certs s r ?es = Inr (map (\<lambda>e. the (store_read s (snd e))) ?es)"
    by (rule collect_certs_ok) (auto elim: index_entry[OF assms])
  moreover have "map (\<lambda>e. the (store_read s (snd e))) ?es = filter (\<lambda>x. r \<le> c_round x) (indexed_certs s)"
  proof -
    have "filter (\<lambda>e. r \<le> fst (fst e)) (cs_by_round s) = filter (\<lambda>e. r \<le> c_round (the (store_read s (snd e)))) (cs_by_round s)"
      by (rule filter_cong[OF HOL.refl]) (use index_entry_the[OF assms] in \<open>auto simp: prod_eq_iff\<close>)
    thus ?thesis by (simp add: indexed_certs_def filter_map comp_def)
  qed
  ultimately show ?thesis
    using collect_certs_filter[of s r "from_round s r"] by (simp add: after_round_def from_round_filter[OF so])
qed

lemma indexed_certs_sorted:
  assumes "store_ok s"
  shows "sorted_wrt (\<lambda>x y. (c_round x, c_origin x) < (c_round y, c_origin y)) (indexed_certs s)"
proof -
  have k: "map (\<lambda>x. (c_round x, c_origin x)) (indexed_certs s) = map fst (cs_by_round s)"
    using index_entry_the[OF assms] by (simp add: indexed_certs_def)
  have "sorted_wrt (<) (map (\<lambda>x. (c_round x, c_origin x)) (indexed_certs s))"
    unfolding k using assms by (simp add: store_ok_def store_sorted_def bt_sorted_def)
  thus ?thesis by (simp add: sorted_wrt_map)
qed

lemma store_read_kept:
  assumes "store_ok s" "store_read s d = Some x" "t \<le> c_round x + ROUNDS_TO_KEEP"
  shows "store_read (gc_rounds t s) d = Some x"
proof -
  have "\<not> (\<exists>r a. map_of (cs_by_round s) (r, a) = Some d \<and> r + ROUNDS_TO_KEEP < t)"
    using assms unfolding store_ok_def round_index_ok_def by fastforce
  thus ?thesis using assms by (simp add: store_read_gc store_ok_def)
qed

lemma last_before_origin:
  fixes m :: "(authority_id \<times> round, digest) btree_map"
  assumes "bt_sorted m" "\<forall>e\<in>set m. snd (fst e) < b"
  shows "(case last_before (a, b) None m of Some ((n, r), _) \<Rightarrow> if n = a then Some r else None | None \<Rightarrow> None) =
    (if \<exists>r. map_of m (a, r) \<noteq> None then Some (Max {r. map_of m (a, r) \<noteq> None}) else None)"
proof -
  define R where "R = {r. map_of m (a, r) \<noteq> None}"
  define es where "es = filter (\<lambda>e. fst e < (a, b)) m"
  have in_R: "r \<in> R \<longleftrightarrow> (a, r) \<in> fst ` set m" for r unfolding R_def by (simp add: map_of_eq_None_iff)
  have spec: "last_before (a, b) None m = (if es = [] then None else Some (last es))"
    using last_before_spec[of m "(a, b)" None] assms(1) unfolding es_def bt_sorted_def by (simp split: list.split)
  have srt: "sorted_wrt (<) (map fst es)" using bt_sorted_filter[OF assms(1)] by (simp add: bt_sorted_def es_def)
  have last: "last es \<in> set m" "fst (last es) < (a, b)" if "es \<noteq> []"
    using last_in_set[OF that] by (simp_all add: es_def)
  have eq: "(case last_before (a, b) None m of Some ((n, r), _) \<Rightarrow> if n = a then Some r else None | None \<Rightarrow> None) =
      (if es \<noteq> [] \<and> fst (fst (last es)) = a then Some (snd (fst (last es))) else None)"
    unfolding spec by (simp add: case_prod_beta)
  show ?thesis
  proof (cases "R = {}")
    case True
    have "\<not> (es \<noteq> [] \<and> fst (fst (last es)) = a)"
    proof
      assume h: "es \<noteq> [] \<and> fst (fst (last es)) = a"
      hence "(a, snd (fst (last es))) \<in> fst ` set m" using last(1) by (metis imageI prod.collapse)
      thus False using in_R True by blast
    qed
    thus ?thesis unfolding eq using True by (simp add: R_def)
  next
    case False
    have fin: "finite R" by (rule finite_subset[of _ "snd ` fst ` set m"]) (use in_R in \<open>force+\<close>)
    have r: "Max R \<in> R" by (rule Max_in[OF fin False])
    then obtain e where e: "e \<in> set m" "fst e = (a, Max R)" using in_R by (metis imageE)
    hence ees: "e \<in> set es" using assms(2) by (force simp: es_def less_prod_def)
    hence ne: "es \<noteq> []" by auto
    have "fst e \<le> fst (last es)"
    proof -
      have "es = butlast es @ [last es]" using ne by simp
      hence "e \<in> set (butlast es) \<or> e = last es" using ees by (metis Un_iff set_append set_ConsD empty_set list.set(1) empty_iff)
      moreover have "sorted_wrt (<) (map fst (butlast es @ [last es]))" using srt ne by simp
      ultimately show ?thesis by (auto simp: sorted_wrt_append intro: less_imp_le)
    qed
    hence n: "fst (fst (last es)) = a" "Max R \<le> snd (fst (last es))"
      using e(2) last(2)[OF ne] by (auto simp: less_eq_prod_def less_prod_def)
    have "(a, snd (fst (last es))) \<in> fst ` set m" using last(1)[OF ne] n(1) by (metis imageI prod.collapse)
    hence "snd (fst (last es)) \<le> Max R" using Max_ge[OF fin] in_R by blast
    hence "snd (fst (last es)) = Max R" using n(2) by simp
    thus ?thesis unfolding eq using ne n(1) False by (simp add: R_def)
  qed
qed

end
