(* ===== verification/Aggregators.thy ===== *)
theory Aggregators
  imports Certificate_Assembly
begin

text \<open>
  The aggregators of the primary (crates/consensus/primary/src/aggregators): votes for a proposed header
  until they form a certificate, and certificates of a round until they hold a quorum, when they are
  handed to the proposer as parents. The check of a single BLS signature is the argument
  \<open>verify_one\<close>. A set of authorities is kept as the list of its elements.
\<close>

section \<open>Votes\<close>

record votes_aggregator =
  va_weight :: voting_power
  va_votes :: "(authority_id \<times> signature) list"
  va_seen :: "authority_id list"

definition votes_aggregator_new :: votes_aggregator where
  "votes_aggregator_new = \<lparr> va_weight = 0, va_votes = [], va_seen = [] \<rparr>"

text \<open>
  After a failed verification: keep the votes whose signature is valid and subtract the power of the
  members whose signature is not.
\<close>

fun retain_valid ::
  "(signature \<Rightarrow> bls_pk \<Rightarrow> bool) \<Rightarrow> committee \<Rightarrow> (authority_id \<times> signature) list \<Rightarrow> voting_power
    \<Rightarrow> voting_power \<times> (authority_id \<times> signature) list" where
  "retain_valid ok c [] w = (w, [])"
| "retain_valid ok c ((i, sig) # vs) w =
     (case committee_authority c i of
        Some a \<Rightarrow>
          if \<not> ok sig (protocol_key a) then retain_valid ok c vs (u64_sub w (voting_power_by_key c (protocol_key a)))
          else (let (w', vs') = retain_valid ok c vs w in (w', (i, sig) # vs'))
      | None \<Rightarrow> retain_valid ok c vs w)"

definition va_append ::
  "(signature \<Rightarrow> digest \<Rightarrow> bls_pk \<Rightarrow> bool) \<Rightarrow> crypto \<Rightarrow> timestamp \<Rightarrow> committee \<Rightarrow> header \<Rightarrow> vote
    \<Rightarrow> votes_aggregator \<Rightarrow> votes_aggregator \<times> (dag_error, certificate option) result" where
  "va_append verify_one cr now c h v agg =
     (if v_author v \<in> set (va_seen agg) then (agg, Inl (AuthorityReuse (v_author v)))
      else
        (let agg1 = agg\<lparr> va_seen := v_author v # va_seen agg,
                         va_votes := va_votes agg @ [(v_author v, v_signature v)],
                         va_weight := u64_add (va_weight agg) (voting_power_by_id c (v_author v)) \<rparr>
         in if va_weight agg1 \<ge> quorum_threshold c then
              (case cert_new_unverified cr now c h (va_votes agg1) of
                 Inl e \<Rightarrow> (agg1, Inl e)
               | Inr x \<Rightarrow>
                   (case aggregated_signature x of
                      None \<Rightarrow> (agg1, Inl DInvalidSignature)
                    | Some s \<Rightarrow>
                        if \<not> verify_aggregate cr s (cert_digest x) (snd (signed_by c x)) then
                          (let (w, vs) = retain_valid (\<lambda>sig pk. verify_one sig (cert_digest x) pk) c
                                           (va_votes agg1) (va_weight agg1)
                           in (agg1\<lparr> va_weight := w, va_votes := vs \<rparr>, Inr None))
                        else (agg1, Inr (Some (x\<lparr> c_state := VerifiedDirectly s \<rparr>)))))
            else (agg1, Inr None)))"

section \<open>Certificates of a round\<close>

record certificates_aggregator =
  ca_weight :: voting_power
  ca_certificates :: "certificate list"
  ca_seen :: "authority_id list"

definition certificates_aggregator_new :: certificates_aggregator where
  "certificates_aggregator_new = \<lparr> ca_weight = 0, ca_certificates = [], ca_seen = [] \<rparr>"

definition ca_append ::
  "committee \<Rightarrow> certificate \<Rightarrow> certificates_aggregator \<Rightarrow> certificates_aggregator \<times> certificate list option" where
  "ca_append c x agg =
     (if c_origin x \<in> set (ca_seen agg) then (agg, None)
      else
        (let agg1 = agg\<lparr> ca_seen := c_origin x # ca_seen agg, ca_certificates := ca_certificates agg @ [x],
                         ca_weight := u64_add (ca_weight agg) (voting_power_by_id c (c_origin x)) \<rparr>
         in if ca_weight agg1 \<ge> quorum_threshold c
            then (agg1\<lparr> ca_certificates := [] \<rparr>, Some (ca_certificates agg1))
            else (agg1, None)))"

type_synonym aggregator_manager = "(round, certificates_aggregator) btree_map"

text \<open>The aggregator manager returns the message for the proposer, if any: the parents and their round.\<close>

definition append_certificate ::
  "committee \<Rightarrow> certificate \<Rightarrow> aggregator_manager \<Rightarrow> aggregator_manager \<times> (certificate list \<times> round) option" where
  "append_certificate c x m =
     (let (agg, q) = ca_append c x (case map_of m (c_round x) of None \<Rightarrow> certificates_aggregator_new | Some agg \<Rightarrow> agg)
      in (bt_insert (c_round x) agg m, map_option (\<lambda>ps. (ps, c_round x)) q))"

definition aggregators_garbage_collect :: "round \<Rightarrow> aggregator_manager \<Rightarrow> aggregator_manager" where
  "aggregators_garbage_collect gc m = bt_retain (\<lambda>k _. k > gc) m"

section \<open>The weight of distinct members\<close>

lemma weight_bound:
  assumes "committee_wf c" "power_fits c" "distinct ids"
  shows "sum_list (map (voting_power_by_id c) ids) \<le> total_power c"
    and "2 * total_power c < u64_max"
proof -
  have "sum_list (map (voting_power_by_id c) ids) = sum (voting_power_by_id c) (set ids)"
    using assms(3) by (simp add: sum_list_distinct_conv_sum_set)
  also have "\<dots> = sum (voting_power_by_id c) (set ids \<inter> members c)"
    by (rule sum.mono_neutral_right) (auto simp: power_non_member)
  also have "\<dots> \<le> total_power c" unfolding total_power_def by (rule sum_mono2) auto
  finally show "sum_list (map (voting_power_by_id c) ids) \<le> total_power c" .
  show "2 * total_power c < u64_max" using assms(2) total_power_sum_list[OF assms(1)] by (simp add: power_fits_def)
qed

lemma weight_add:
  assumes "committee_wf c" "power_fits c" "distinct (ids @ [i])"
  shows "u64_add (sum_list (map (voting_power_by_id c) ids)) (voting_power_by_id c i) = sum_list (map (voting_power_by_id c) (ids @ [i]))"
  using weight_bound[OF assms] by (simp add: u64_add_exact)

section \<open>Votes form a certificate\<close>

text \<open>The aggregator counts every voter it keeps once, and never keeps an author it has not seen.\<close>

definition va_inv :: "committee \<Rightarrow> votes_aggregator \<Rightarrow> bool" where
  "va_inv c agg = (distinct (map fst (va_votes agg)) \<and> fst ` set (va_votes agg) \<subseteq> set (va_seen agg) \<and>
     va_weight agg = sum_list (map (voting_power_by_id c \<circ> fst) (va_votes agg)))"

lemma va_inv_new: "va_inv c votes_aggregator_new"
  by (simp add: va_inv_def votes_aggregator_new_def)

definition valid_vote :: "(signature \<Rightarrow> bls_pk \<Rightarrow> bool) \<Rightarrow> committee \<Rightarrow> authority_id \<times> signature \<Rightarrow> bool" where
  "valid_vote ok c v = (case committee_authority c (fst v) of None \<Rightarrow> False | Some a \<Rightarrow> ok (snd v) (protocol_key a))"

lemma power_by_key:
  assumes "committee_wf c" "committee_authority c i = Some a"
  shows "voting_power_by_key c (protocol_key a) = voting_power_by_id c i"
proof -
  have "a \<in> set (bt_values (authorities c))" "auth_id a = i" using committee_authority_iff[OF assms(1)] assms(2) by auto
  moreover from this obtain k where "(k, a) \<in> set (authorities c)" by (auto simp: bt_values_def)
  ultimately have "map_of (authorities c) (protocol_key a) = Some a"
    using assms(1) by (auto simp: committee_wf_def auths_wf_def bt_sorted_distinct)
  thus ?thesis using assms(2) by (simp add: voting_power_by_key_def voting_power_by_id_def committee_authority_def)
qed

lemma retain_valid_spec:
  assumes "committee_wf c" "sum_list (map (voting_power_by_id c \<circ> fst) vs) \<le> w" "w < u64_max"
  shows "retain_valid ok c vs w =
    (w - sum_list (map (voting_power_by_id c \<circ> fst) (filter (\<lambda>v. \<not> valid_vote ok c v) vs)), filter (valid_vote ok c) vs)"
  using assms(2,3)
proof (induction vs arbitrary: w)
  case (Cons v vs)
  obtain i sig where v: "v = (i, sig)" by force
  have le: "sum_list (map (voting_power_by_id c \<circ> fst) (filter (\<lambda>v. \<not> valid_vote ok c v) vs)) \<le> sum_list (map (voting_power_by_id c \<circ> fst) vs)"
    by (rule sum_list_map_filter_le)
  show ?case
  proof (cases "committee_authority c i")
    case None
    hence "voting_power_by_id c i = 0" by (simp add: voting_power_by_id_def committee_authority_def)
    thus ?thesis using Cons None by (simp add: v valid_vote_def)
  next
    case (Some a)
    note p = power_by_key[OF assms(1) Some]
    show ?thesis
    proof (cases "ok sig (protocol_key a)")
      case True
      thus ?thesis using Cons Some by (simp add: v valid_vote_def)
    next
      case False
      have "u64_sub w (voting_power_by_id c i) = w - voting_power_by_id c i"
        using Cons.prems by (intro u64_sub_exact) (auto simp: v)
      thus ?thesis using Cons.IH[of "w - voting_power_by_id c i"] Cons.prems False Some p
        by (simp add: v valid_vote_def)
    qed
  qed
qed simp

text \<open>The aggregator after a new voter was counted, before the quorum is looked at.\<close>

definition va_counted :: "committee \<Rightarrow> vote \<Rightarrow> votes_aggregator \<Rightarrow> votes_aggregator" where
  "va_counted c v agg =
     agg\<lparr> va_seen := v_author v # va_seen agg, va_votes := va_votes agg @ [(v_author v, v_signature v)],
          va_weight := u64_add (va_weight agg) (voting_power_by_id c (v_author v)) \<rparr>"

lemma va_counted_inv:
  assumes "committee_wf c" "power_fits c" "va_inv c agg" "v_author v \<notin> set (va_seen agg)"
  shows "va_inv c (va_counted c v agg)"
    and "va_weight (va_counted c v agg) = va_weight agg + voting_power_by_id c (v_author v)"
proof -
  have d: "distinct (map fst (va_votes agg) @ [v_author v])" using assms(3,4) by (auto simp: va_inv_def)
  have w: "va_weight agg = sum_list (map (voting_power_by_id c) (map fst (va_votes agg)))"
    using assms(3) by (simp add: va_inv_def)
  have a: "va_weight (va_counted c v agg) = sum_list (map (voting_power_by_id c) (map fst (va_votes agg) @ [v_author v]))"
    using weight_add[OF assms(1,2) d] by (simp add: va_counted_def w)
  thus "va_weight (va_counted c v agg) = va_weight agg + voting_power_by_id c (v_author v)" by (simp add: w)
  show "va_inv c (va_counted c v agg)" using a d assms(3) by (auto simp: va_inv_def va_counted_def)
qed

lemma va_inv_bound:
  assumes "committee_wf c" "power_fits c" "va_inv c agg"
  shows "va_weight agg < u64_max" "va_weight agg = sum (voting_power_by_id c) (fst ` set (va_votes agg))"
proof -
  have w: "va_weight agg = sum_list (map (voting_power_by_id c) (map fst (va_votes agg)))" "distinct (map fst (va_votes agg))"
    using assms(3) by (simp_all add: va_inv_def)
  show "va_weight agg < u64_max" using weight_bound[OF assms(1,2) w(2)] w(1) by simp
  show "va_weight agg = sum (voting_power_by_id c) (fst ` set (va_votes agg))"
    unfolding w(1) using w(2) by (subst sum_list_distinct_conv_sum_set) auto
qed

lemma va_append_cases:
  assumes "committee_wf c" "power_fits c" "va_inv c agg"
  obtains (reuse) "v_author v \<in> set (va_seen agg)" "va_append vf cr now c h v agg = (agg, Inl (AuthorityReuse (v_author v)))"
  | (waiting) "v_author v \<notin> set (va_seen agg)" "va_weight (va_counted c v agg) < quorum_threshold c"
      "va_append vf cr now c h v agg = (va_counted c v agg, Inr None)"
  | (failed) e where "v_author v \<notin> set (va_seen agg)" "va_append vf cr now c h v agg = (va_counted c v agg, Inl e)"
      "quorum_threshold c \<le> va_weight (va_counted c v agg)"
  | (dropped) x s where "v_author v \<notin> set (va_seen agg)" "quorum_threshold c \<le> va_weight (va_counted c v agg)"
      "cert_new_unverified cr now c h (va_votes (va_counted c v agg)) = Inr x" "aggregated_signature x = Some s"
      "\<not> verify_aggregate cr s (cert_digest x) (snd (signed_by c x))"
      "va_append vf cr now c h v agg =
        ((va_counted c v agg)\<lparr> va_weight := va_weight (va_counted c v agg) -
             sum_list (map (voting_power_by_id c \<circ> fst) (filter (\<lambda>e. \<not> valid_vote (\<lambda>sg pk. vf sg (cert_digest x) pk) c e) (va_votes (va_counted c v agg)))),
           va_votes := filter (valid_vote (\<lambda>sg pk. vf sg (cert_digest x) pk) c) (va_votes (va_counted c v agg)) \<rparr>, Inr None)"
  | (formed) x s where "v_author v \<notin> set (va_seen agg)" "quorum_threshold c \<le> va_weight (va_counted c v agg)"
      "cert_new_unverified cr now c h (va_votes (va_counted c v agg)) = Inr x" "aggregated_signature x = Some s"
      "verify_aggregate cr s (cert_digest x) (snd (signed_by c x))"
      "va_append vf cr now c h v agg = (va_counted c v agg, Inr (Some (x\<lparr> c_state := VerifiedDirectly s \<rparr>)))"
proof (cases "v_author v \<in> set (va_seen agg)")
  case True
  thus thesis using reuse by (simp add: va_append_def)
next
  case False
  let ?a = "va_counted c v agg"
  have eq: "va_append vf cr now c h v agg = (if va_weight ?a \<ge> quorum_threshold c then
              (case cert_new_unverified cr now c h (va_votes ?a) of
                 Inl e \<Rightarrow> (?a, Inl e)
               | Inr x \<Rightarrow> (case aggregated_signature x of None \<Rightarrow> (?a, Inl DInvalidSignature)
                    | Some s \<Rightarrow> if \<not> verify_aggregate cr s (cert_digest x) (snd (signed_by c x)) then
                          (let (w, vs) = retain_valid (\<lambda>sig pk. vf sig (cert_digest x) pk) c (va_votes ?a) (va_weight ?a)
                           in (?a\<lparr> va_weight := w, va_votes := vs \<rparr>, Inr None))
                        else (?a, Inr (Some (x\<lparr> c_state := VerifiedDirectly s \<rparr>)))))
            else (?a, Inr None))"
    using False by (simp only: va_append_def va_counted_def Let_def if_False)
  note inv = va_counted_inv(1)[OF assms False]
  have r: "retain_valid ok c (va_votes ?a) (va_weight ?a) = (va_weight ?a - sum_list (map (voting_power_by_id c \<circ> fst) (filter (\<lambda>e. \<not> valid_vote ok c e) (va_votes ?a))), filter (valid_vote ok c) (va_votes ?a))" for ok
    using retain_valid_spec[OF assms(1), of "va_votes ?a" "va_weight ?a"] va_inv_bound(1)[OF assms(1,2) inv] inv by (simp add: va_inv_def)
  show thesis
  proof (cases "quorum_threshold c \<le> va_weight ?a")
    case q: True
    show thesis
    proof (cases "cert_new_unverified cr now c h (va_votes ?a)")
      case (Inl e)
      thus thesis using failed False q by (simp add: eq)
    next
      case (Inr x)
      show thesis
      proof (cases "aggregated_signature x")
        case None
        thus thesis using failed[OF False] q Inr by (simp add: eq)
      next
        case (Some s)
        show thesis
        proof (cases "verify_aggregate cr s (cert_digest x) (snd (signed_by c x))")
          case True
          thus thesis using formed[OF False q Inr Some] q Inr Some by (simp add: eq)
        next
          case nv: False
          show thesis by (rule dropped[OF False q Inr Some nv]) (use q Inr Some nv r in \<open>simp add: eq\<close>)
        qed
      qed
    qed
  qed (use waiting False in \<open>simp add: eq\<close>)
qed

lemma sum_list_member_le: "x \<in> set xs \<Longrightarrow> f x \<le> (sum_list (map f xs) :: nat)"
  by (induction xs) auto

lemma sum_list_filter_split:
  "sum_list (map f (filter P xs)) + sum_list (map f (filter (\<lambda>x. \<not> P x) xs)) = (sum_list (map f xs) :: nat)"
  by (induction xs) auto

lemma va_append_inv:
  assumes "committee_wf c" "power_fits c" "va_inv c agg"
  shows "va_inv c (fst (va_append vf cr now c h v agg))"
proof (rule va_append_cases[OF assms, of v vf cr now h])
  fix x s
  let ?ok = "valid_vote (\<lambda>sg pk. vf sg (cert_digest x) pk) c"
  assume new: "v_author v \<notin> set (va_seen agg)"
    and eq: "va_append vf cr now c h v agg =
        ((va_counted c v agg)\<lparr> va_weight := va_weight (va_counted c v agg) - sum_list (map (voting_power_by_id c \<circ> fst) (filter (\<lambda>e. \<not> ?ok e) (va_votes (va_counted c v agg)))),
           va_votes := filter ?ok (va_votes (va_counted c v agg)) \<rparr>, Inr None)"
  have i: "va_inv c (va_counted c v agg)" by (rule va_counted_inv(1)[OF assms new])
  show ?thesis using i sum_list_filter_split[of "voting_power_by_id c \<circ> fst" ?ok "va_votes (va_counted c v agg)"]
    by (auto simp: eq va_inv_def distinct_map_filter)
qed (use va_counted_inv(1)[OF assms] assms(3) in auto)

lemma va_append_sound:
  assumes "committee_wf c" "power_fits c" "va_inv c agg"
    and "snd (va_append vf cr now c h v agg) = Inr (Some y)"
  shows "c_header y = h \<and> is_verified y \<and> quorum_threshold c \<le> sum (voting_power_by_id c) (signer_ids c y) \<and>
    signer_ids c y \<subseteq> insert (v_author v) (fst ` set (va_votes agg)) \<and>
    (\<exists>s. aggregated_signature y = Some s \<and> verify_aggregate cr s (h_digest h) (snd (signed_by c y)))"
proof (rule va_append_cases[OF assms(1-3), of v vf cr now h])
  fix x s
  assume x: "cert_new_unverified cr now c h (va_votes (va_counted c v agg)) = Inr x" "aggregated_signature x = Some s"
    "verify_aggregate cr s (cert_digest x) (snd (signed_by c x))"
    and eq: "va_append vf cr now c h v agg = (va_counted c v agg, Inr (Some (x\<lparr> c_state := VerifiedDirectly s \<rparr>)))"
  note sg = cert_new_internal_signers[OF x(1)[unfolded cert_new_unverified_def]]
  have y: "y = x\<lparr> c_state := VerifiedDirectly s \<rparr>" using assms(4) eq by simp
  have same: "signer_ids c y = signer_ids c x" "signed_by c y = signed_by c x" by (simp_all add: y signer_ids_def signed_by_def)
  have "fst ` set (bt_collect (va_votes (va_counted c v agg))) = insert (v_author v) (fst ` set (va_votes agg))"
    unfolding keys_bt_collect by (simp add: va_counted_def)
  thus ?thesis using sg x(3) same signed_by_weight[OF assms(1,2), of x]
    by (auto simp: y is_verified_def aggregated_signature_def cert_digest_def)
qed (use assms(4) in auto)

text \<open>What is assumed of the signatures: they aggregate, and valid ones aggregate to a valid one.\<close>

definition bls_complete :: "(signature \<Rightarrow> digest \<Rightarrow> bls_pk \<Rightarrow> bool) \<Rightarrow> crypto \<Rightarrow> bool" where
  "bls_complete vf cr = ((\<forall>sigs. sigs \<noteq> [] \<longrightarrow> aggregate_sigs cr sigs \<noteq> None) \<and>
     (\<forall>sigs pks d s. list_all2 (\<lambda>sg pk. vf sg d pk) sigs pks \<longrightarrow> aggregate_sigs cr sigs = Some s \<longrightarrow> verify_aggregate cr s d pks))"

abbreviation vote_entry :: "vote \<Rightarrow> authority_id \<times> signature" where
  "vote_entry v \<equiv> (v_author v, v_signature v)"

lemma set_bt_collect: "distinct (map fst es) \<Longrightarrow> set (bt_collect es) = set es"
proof -
  assume d: "distinct (map fst es)"
  have "(k, v) \<in> set (bt_collect es) \<longleftrightarrow> (k, v) \<in> set es" for k v
    using map_of_bt_collect[OF d] d bt_sorted_distinct[OF bt_sorted_collect[of es]]
    by (metis map_of_eq_Some_iff)
  thus ?thesis by auto
qed

lemma all_valid_verifies:
  assumes "committee_wf c" "bls_complete vf cr" "distinct (map fst votes)" "votes \<noteq> []"
    and "cert_new_unverified cr now c h votes = Inr x" "aggregated_signature x = Some s"
    and "\<forall>e\<in>set votes. valid_vote (\<lambda>sg pk. vf sg (cert_digest x) pk) c e"
  shows "verify_aggregate cr s (cert_digest x) (snd (signed_by c x))"
proof -
  note ns = new_unverified_signature[OF assms(5)]
  have mem: "vf sg (cert_digest x) (protocol_key a)" if "(a, sg) \<in> set (taken_votes c votes)" for a sg
  proof -
    have "a \<in> set (committee_authorities c)" "(auth_id a, sg) \<in> set votes"
      using taken_votes_mem[OF that] set_bt_collect[OF assms(3)] by auto
    moreover have "committee_authority c (auth_id a) = Some a"
      using calculation(1) committee_authorities_ids(2)[OF assms(1)] committee_authority_iff[OF assms(1)] by auto
    ultimately show ?thesis using assms(7) by (auto simp: valid_vote_def)
  qed
  have "taken_votes c votes \<noteq> []"
  proof
    assume "taken_votes c votes = []"
    hence "signer_ids c x = {}" using select_indices_of_votes[of 0 "committee_authorities c" "bt_collect votes"] assms(5)
      by (auto simp: taken_votes_def signer_ids_def cert_new_unverified_def cert_new_internal_def Let_def split: prod.splits if_splits list.splits option.splits)
    moreover have "signer_ids c x = fst ` set votes"
      using cert_new_internal_signers(2)[OF assms(5)[unfolded cert_new_unverified_def]] keys_bt_collect by simp
    ultimately show False using assms(4) by simp
  qed
  hence "aggregate_sigs cr (map snd (taken_votes c votes)) = Some s" using ns(2) assms(6) by auto
  moreover have "list_all2 (\<lambda>sg pk. vf sg (cert_digest x) pk) (map snd (taken_votes c votes)) (snd (signed_by c x))"
    unfolding ns(1) list_all2_map1 list_all2_map2 using mem by (auto simp: list.rel_refl_strong intro: list.rel_refl_strong)
  ultimately show ?thesis using assms(2) unfolding bls_complete_def by blast
qed

definition valid_power :: "(signature \<Rightarrow> bls_pk \<Rightarrow> bool) \<Rightarrow> committee \<Rightarrow> (authority_id \<times> signature) list \<Rightarrow> nat" where
  "valid_power ok c es = sum_list (map (voting_power_by_id c \<circ> fst) (filter (valid_vote ok c) es))"

lemma valid_power_simps [simp]:
  "valid_power ok c [] = 0"
  "valid_power ok c (es @ es') = valid_power ok c es + valid_power ok c es'"
  "valid_power ok c (filter (valid_vote ok c) es) = valid_power ok c es"
  by (simp_all add: valid_power_def)

text \<open>A new vote of a member is never refused.\<close>

lemma va_append_accepts:
  assumes "committee_wf c" "power_fits c" "bls_complete vf cr" "va_inv c agg" "set (va_seen agg) \<subseteq> members c"
    and "v_author v \<in> members c - set (va_seen agg)"
  shows "snd (va_append vf cr now c h v agg) \<noteq> Inl e"
proof (rule va_append_cases[OF assms(1,2,4), of v vf cr now h])
  fix e
  let ?a = "va_counted c v agg"
  assume e: "va_append vf cr now c h v agg = (?a, Inl e)" "quorum_threshold c \<le> va_weight ?a"
  have inv: "va_inv c ?a" using va_counted_inv(1)[OF assms(1,2,4)] assms(6) by blast
  have "fst ` set (va_votes ?a) \<subseteq> members c" using inv assms(5,6) by (auto simp: va_inv_def va_counted_def)
  moreover have "quorum_threshold c \<le> sum (voting_power_by_id c) (fst ` set (va_votes ?a))"
    using e(2) va_inv_bound(2)[OF assms(1,2) inv] by simp
  moreover have "\<forall>sigs. sigs \<noteq> [] \<longrightarrow> aggregate_sigs cr sigs \<noteq> None" using assms(3) by (simp add: bls_complete_def)
  ultimately obtain x where x: "cert_new_unverified cr now c h (va_votes ?a) = Inr x"
    using new_unverified_ok[OF assms(1,2), of "va_votes ?a" cr now h] by blast
  have "aggregated_signature x \<noteq> None"
    using x by (auto simp: cert_new_unverified_def cert_new_internal_def aggregated_signature_def Let_def
        split: prod.splits if_splits list.splits option.splits)
  thus ?thesis using e x assms(6) by (auto simp: va_append_def va_counted_def Let_def split: option.splits if_splits prod.splits)
qed (use assms(6) in auto)

text \<open>
  With equal powers a failed attempt leaves less than a quorum: the new vote brought the power of one
  authority and at least as much was dropped. So the power of the valid votes is kept, below a quorum, until a
  certificate is formed.
\<close>

lemma va_append_progress:
  assumes "committee_wf c" "power_fits c" "bls_complete vf cr" "\<forall>i\<in>members c. voting_power_by_id c i = p"
    and "va_inv c agg" "va_weight agg < quorum_threshold c" "set (va_seen agg) \<subseteq> members c"
    and "v_author v \<in> members c - set (va_seen agg)"
  obtains (formed) x agg' where "va_append vf cr now c h v agg = (agg', Inr (Some x))"
  | (going) agg' where "va_append vf cr now c h v agg = (agg', Inr None)" "va_inv c agg'" "va_weight agg' < quorum_threshold c"
      "va_seen agg' = v_author v # va_seen agg" "valid_power (\<lambda>sg pk. vf sg (h_digest h) pk) c (va_votes agg') = valid_power (\<lambda>sg pk. vf sg (h_digest h) pk) c (va_votes agg @ [vote_entry v])"
proof -
  let ?ok = "\<lambda>sg pk. vf sg (h_digest h) pk"
  let ?a = "va_counted c v agg"
  have new: "v_author v \<notin> set (va_seen agg)" and mem: "v_author v \<in> members c" using assms(8) by auto
  note inv = va_counted_inv[OF assms(1,2,5) new]
  have votes: "va_votes ?a = va_votes agg @ [vote_entry v]" "va_seen ?a = v_author v # va_seen agg" by (simp_all add: va_counted_def)
  show thesis
  proof (rule va_append_cases[OF assms(1,2,5), of v vf cr now h])
    assume "va_weight ?a < quorum_threshold c" "va_append vf cr now c h v agg = (?a, Inr None)"
    thus ?thesis using going[of ?a] inv(1) votes by simp
  next
    fix e
    assume "va_append vf cr now c h v agg = (?a, Inl e)"
    thus ?thesis using va_append_accepts[OF assms(1-3,5,7,8), of now h e] by simp
  next
    fix x s
    let ?v = "valid_vote (\<lambda>sg pk. vf sg (cert_digest x) pk) c"
    let ?a' = "?a\<lparr> va_weight := va_weight ?a - sum_list (map (voting_power_by_id c \<circ> fst) (filter (\<lambda>e. \<not> ?v e) (va_votes ?a))), va_votes := filter ?v (va_votes ?a) \<rparr>"
    assume d: "cert_new_unverified cr now c h (va_votes ?a) = Inr x" "aggregated_signature x = Some s"
      "\<not> verify_aggregate cr s (cert_digest x) (snd (signed_by c x))" "va_append vf cr now c h v agg = (?a', Inr None)"
    have dg: "cert_digest x = h_digest h"
      using cert_new_internal_signers(1)[OF d(1)[unfolded cert_new_unverified_def]] by (simp add: cert_digest_def)
    have "distinct (map fst (va_votes ?a))" "va_votes ?a \<noteq> []" using inv(1) votes(1) by (auto simp: va_inv_def)
    then obtain e where e: "e \<in> set (va_votes ?a)" "\<not> ?v e"
      using all_valid_verifies[OF assms(1,3) _ _ d(1,2)] d(3) by blast
    have "fst e \<in> members c" using e(1) inv(1) assms(7) mem votes(2) by (auto simp: va_inv_def)
    hence one: "(voting_power_by_id c \<circ> fst) e = p" using assms(4) by simp
    have "p \<le> sum_list (map (voting_power_by_id c \<circ> fst) (filter (\<lambda>e. \<not> ?v e) (va_votes ?a)))"
      using sum_list_member_le[of e "filter (\<lambda>e. \<not> ?v e) (va_votes ?a)" "voting_power_by_id c \<circ> fst"] e one by simp
    hence "va_weight ?a' < quorum_threshold c" using inv(2) mem assms(4,6) by simp
    moreover have "va_inv c ?a'" using va_append_inv[OF assms(1,2,5), of vf cr now h v] d(4) by simp
    moreover have "valid_power ?ok c (va_votes ?a') = valid_power ?ok c (va_votes ?a)" by (simp add: dg)
    ultimately show ?thesis using going[of ?a'] d(4) votes by simp
  qed (use new formed in auto)
qed

section \<open>Certificates form the parents of a round\<close>

text \<open>
  An aggregator keeps the certificates it has not handed out yet, one for each author it has seen when
  the quorum was not reached, and counts the power of all authors seen.
\<close>

definition ca_inv :: "committee \<Rightarrow> certificates_aggregator \<Rightarrow> bool" where
  "ca_inv c agg = (distinct (ca_seen agg) \<and> ca_weight agg = sum_list (map (voting_power_by_id c) (ca_seen agg)) \<and>
     distinct (map c_origin (ca_certificates agg)) \<and> c_origin ` set (ca_certificates agg) \<subseteq> set (ca_seen agg) \<and>
     (if ca_weight agg < quorum_threshold c then c_origin ` set (ca_certificates agg) = set (ca_seen agg)
      else ca_certificates agg = []))"

lemma ca_inv_new: "0 < quorum_threshold c \<Longrightarrow> ca_inv c certificates_aggregator_new"
  by (simp add: ca_inv_def certificates_aggregator_new_def)

lemma ca_append_new:
  assumes "committee_wf c" "power_fits c" "ca_inv c agg" "c_origin x \<notin> set (ca_seen agg)"
  shows "ca_append c x agg =
    (let agg1 = agg\<lparr> ca_seen := c_origin x # ca_seen agg, ca_certificates := ca_certificates agg @ [x],
                      ca_weight := ca_weight agg + voting_power_by_id c (c_origin x) \<rparr>
     in if quorum_threshold c \<le> ca_weight agg1 then (agg1\<lparr> ca_certificates := [] \<rparr>, Some (ca_certificates agg1)) else (agg1, None))"
proof -
  have d: "distinct (ca_seen agg @ [c_origin x])" using assms(3,4) by (simp add: ca_inv_def)
  have "ca_weight agg = sum_list (map (voting_power_by_id c) (ca_seen agg))" using assms(3) by (simp add: ca_inv_def)
  hence "u64_add (ca_weight agg) (voting_power_by_id c (c_origin x)) = ca_weight agg + voting_power_by_id c (c_origin x)"
    using weight_add[OF assms(1,2) d] by simp
  thus ?thesis using assms(4) by (simp add: ca_append_def Let_def)
qed

lemma ca_append_inv:
  assumes "committee_wf c" "power_fits c" "ca_inv c agg"
  shows "ca_inv c (fst (ca_append c x agg))"
proof (cases "c_origin x \<in> set (ca_seen agg)")
  case False
  thus ?thesis using assms(3) unfolding ca_append_new[OF assms False] Let_def
    by (auto simp: ca_inv_def split: if_splits)
qed (use assms(3) in \<open>simp add: ca_append_def\<close>)

lemma ca_append_out:
  assumes "committee_wf c" "power_fits c" "ca_inv c agg" "snd (ca_append c x agg) = Some ps"
  shows "distinct (map c_origin ps)"
    and "ca_weight agg < quorum_threshold c \<Longrightarrow> ps = ca_certificates agg @ [x] \<and> quorum_threshold c \<le> sum (voting_power_by_id c) (c_origin ` set ps)"
    and "\<not> ca_weight agg < quorum_threshold c \<Longrightarrow> ps = [x]"
proof -
  have new: "c_origin x \<notin> set (ca_seen agg)" using assms(4) by (auto simp: ca_append_def)
  have ps: "ps = ca_certificates agg @ [x]" "quorum_threshold c \<le> ca_weight agg + voting_power_by_id c (c_origin x)"
    using assms(4) unfolding ca_append_new[OF assms(1-3) new] Let_def by (auto split: if_splits)
  show d: "distinct (map c_origin ps)" using ps(1) assms(3) new by (auto simp: ca_inv_def)
  show "ps = [x]" if "\<not> ca_weight agg < quorum_threshold c" using ps(1) that assms(3) by (simp add: ca_inv_def)
  show "ps = ca_certificates agg @ [x] \<and> quorum_threshold c \<le> sum (voting_power_by_id c) (c_origin ` set ps)" if "ca_weight agg < quorum_threshold c"
  proof -
    have "ca_weight agg = sum (voting_power_by_id c) (set (ca_seen agg))"
      using assms(3) by (simp add: ca_inv_def sum_list_distinct_conv_sum_set)
    moreover have "c_origin ` set ps = insert (c_origin x) (set (ca_seen agg))" using ps(1) that assms(3) by (simp add: ca_inv_def)
    ultimately show ?thesis using ps new by (simp add: add.commute)
  qed
qed

end
