(* ===== verification/Cert_Manager.thy ===== *)
theory Cert_Manager
  imports Pending_Certs Cert_Store Aggregators
begin

text \<open>
  The task that accepts verified certificates (crates/consensus/primary/src/state_sync/cert_manager.rs)
  with the garbage collector it polls (gc.rs). The state holds the pending certificates, the
  aggregators, the shared rounds, the certificate store and what was sent on each channel; a channel
  whose receiver is gone makes a send fail. The committee \<open>c\<close> and the digests \<open>gen\<close> of the genesis
  certificates come from the configuration.
\<close>

datatype fetcher_command = Ancestors certificate | Kick

record cert_manager =
  cm_pending :: pending_manager
  cm_parents :: aggregator_manager
  cm_gc_round :: round
  cm_highest_processed :: round
  cm_store :: cert_store
  cm_to_proposer :: "(certificate list \<times> round) list"
  cm_to_consensus :: "certificate list"
  cm_to_fetcher :: "fetcher_command list"
  cm_proposer_open :: bool
  cm_consensus_open :: bool
  cm_fetcher_open :: bool

type_synonym 'a cm_result = "cert_manager \<times> (cert_manager_error, 'a) result"

definition cert_manager_new :: "round \<Rightarrow> round \<Rightarrow> cert_store \<Rightarrow> cert_manager" where
  "cert_manager_new gc hp st =
     \<lparr> cm_pending = pending_manager_new, cm_parents = [], cm_gc_round = gc, cm_highest_processed = hp, cm_store = st,
       cm_to_proposer = [], cm_to_consensus = [], cm_to_fetcher = [],
       cm_proposer_open = True, cm_consensus_open = True, cm_fetcher_open = True \<rparr>"

section \<open>Accepting certificates\<close>

definition get_missing_parents :: "digest list \<Rightarrow> certificate \<Rightarrow> cert_manager \<Rightarrow> digest list cm_result" where
  "get_missing_parents gen x s =
     (if c_round x = 1 then
        (case List.find (\<lambda>d. d \<notin> set gen) (c_parents x) of
           Some d \<Rightarrow> (s, Inl (MCertificate (CHeader (InvalidGenesisParent d))))
         | None \<Rightarrow> (s, Inr []))
      else
        (let existence = multi_contains (cm_store s) (c_parents x);
             missing = map fst (filter (\<lambda>e. \<not> snd e) (zip (c_parents x) existence))
         in if missing \<noteq> [] then
              (if cm_fetcher_open s then (s\<lparr> cm_to_fetcher := cm_to_fetcher s @ [Ancestors x] \<rparr>, Inr missing)
               else (s, Inl (MTNSend ''certificate fetcher'')))
            else (s, Inr missing)))"

text \<open>Appending to the parents of the round of a certificate, with the send to the proposer.\<close>

definition append_parent :: "committee \<Rightarrow> certificate \<Rightarrow> cert_manager \<Rightarrow> unit cm_result" where
  "append_parent c x s =
     (let (m, out) = append_certificate c x (cm_parents s); s1 = s\<lparr> cm_parents := m \<rparr>
      in case out of
           None \<Rightarrow> (s1, Inr ())
         | Some msg \<Rightarrow>
             if cm_proposer_open s then (s1\<lparr> cm_to_proposer := cm_to_proposer s @ [msg] \<rparr>, Inr ())
             else (s1, Inl (MTNSend ''parents'')))"

fun accept_loop :: "committee \<Rightarrow> certificate list \<Rightarrow> cert_manager \<Rightarrow> unit cm_result" where
  "accept_loop c [] s = (s, Inr ())"
| "accept_loop c (x # xs) s =
     (case append_parent c x (s\<lparr> cm_highest_processed := max (cm_highest_processed s) (c_round x) \<rparr>) of
        (s1, Inl e) \<Rightarrow> (s1, Inl FatalAppendParent)
      | (s1, Inr _) \<Rightarrow>
          if cm_consensus_open s1 then accept_loop c xs (s1\<lparr> cm_to_consensus := cm_to_consensus s1 @ [x] \<rparr>)
          else (s1, Inl FatalForwardAcceptedCertificate))"

definition accept_verified_certificates :: "committee \<Rightarrow> certificate list \<Rightarrow> cert_manager \<Rightarrow> unit cm_result" where
  "accept_verified_certificates c xs s = accept_loop c xs (s\<lparr> cm_store := store_write_all xs (cm_store s) \<rparr>)"

fun process_verified ::
  "(digest list \<Rightarrow> digest list) \<Rightarrow> committee \<Rightarrow> digest list \<Rightarrow> (cert_manager_error, unit) result \<Rightarrow> certificate list
    \<Rightarrow> cert_manager \<Rightarrow> unit cm_result" where
  "process_verified iter c gen res [] s = (s, res)"
| "process_verified iter c gen res (x # xs) s =
     (if \<not> is_verified x then (s, Inl (UnverifiedSignature (cert_digest x)))
      else if is_pending (cm_pending s) (cert_digest x)
      then process_verified iter c gen (Inl (Pending (cert_digest x))) xs s
      else
        (case (if c_round x > u32_add (cm_gc_round s) 1 then get_missing_parents gen x s else (s, Inr [])) of
           (s1, Inl e) \<Rightarrow> (s1, Inl e)
         | (s1, Inr missing) \<Rightarrow>
             if missing \<noteq> [] then
               (case insert_pending x missing (cm_pending s1) of
                  (m, Inl e) \<Rightarrow> (s1\<lparr> cm_pending := m \<rparr>, Inl e)
                | (m, Inr _) \<Rightarrow>
                    process_verified iter c gen (Inl (Pending (cert_digest x))) xs (s1\<lparr> cm_pending := m \<rparr>))
             else
               (case update_pending iter (c_round x) (cert_digest x) (cm_pending s1) of
                  (m, Inl e) \<Rightarrow> (s1\<lparr> cm_pending := m \<rparr>, Inl e)
                | (m, Inr unlocked) \<Rightarrow>
                    (case accept_verified_certificates c (x # unlocked) (s1\<lparr> cm_pending := m \<rparr>) of
                       (s2, Inl e) \<Rightarrow> (s2, Inl e)
                     | (s2, Inr _) \<Rightarrow> process_verified iter c gen res xs s2))))"

definition process_verified_certificates ::
  "(digest list \<Rightarrow> digest list) \<Rightarrow> committee \<Rightarrow> digest list \<Rightarrow> certificate list \<Rightarrow> cert_manager \<Rightarrow> unit cm_result" where
  "process_verified_certificates iter c gen xs s = process_verified iter c gen (Inr ()) xs s"

section \<open>Garbage collection\<close>

lemma append_parent_keeps: "cm_pending (fst (append_parent c x s)) = cm_pending s"
  by (simp add: append_parent_def Let_def split: prod.splits option.splits)

lemma accept_loop_keeps: "cm_pending (fst (accept_loop c xs s)) = cm_pending s"
proof (induction xs arbitrary: s)
  case (Cons x xs)
  obtain s1 r where a: "append_parent c x (s\<lparr> cm_highest_processed := max (cm_highest_processed s) (c_round x) \<rparr>) = (s1, r)" by force
  have "cm_pending s1 = cm_pending s" using append_parent_keeps[of c x "s\<lparr> cm_highest_processed := max (cm_highest_processed s) (c_round x) \<rparr>"] a by simp
  thus ?case using Cons.IH a by (cases r) simp_all
qed simp

lemma accept_keeps: "cm_pending (fst (accept_verified_certificates c xs s)) = cm_pending s"
  by (simp add: accept_verified_certificates_def accept_loop_keeps)

lemma gc_step_shrinks:
  assumes "(m, Some (a, b)) = next_for_gc_round g p" "(m', r) = update_pending iter a b m"
    and "(s2, r') = accept_verified_certificates c unlocked (s\<lparr> cm_pending := m' \<rparr>)"
  shows "length (pm_missing (cm_pending s2)) < length (pm_missing p)"
proof -
  have "cm_pending s2 = m'" using accept_keeps[of c unlocked "s\<lparr> cm_pending := m' \<rparr>"] by (simp add: assms(3)[symmetric])
  moreover have "pm_missing m = pm_missing p" using next_for_gc_round_missing[of g p] by (simp add: assms(1)[symmetric])
  moreover obtain ds where "map_of (pm_missing p) (a, b) = Some ds"
    using next_for_gc_round_key[of g p "(a, b)"] by (auto simp: assms(1)[symmetric])
  ultimately show ?thesis using update_pending_shrinks[of m a b ds iter] by (simp add: assms(2)[symmetric])
qed

function process_gc_round ::
  "(digest list \<Rightarrow> digest list) \<Rightarrow> committee \<Rightarrow> cert_manager \<Rightarrow> unit cm_result" where
  "process_gc_round iter c s =
     (case next_for_gc_round (cm_gc_round s) (cm_pending s) of
        (m, None) \<Rightarrow> (s\<lparr> cm_pending := m \<rparr>, Inr ())
      | (m, Some k) \<Rightarrow>
          (case update_pending iter (fst k) (snd k) m of
             (m', Inl e) \<Rightarrow> (s\<lparr> cm_pending := m' \<rparr>, Inl e)
           | (m', Inr unlocked) \<Rightarrow>
               (case accept_verified_certificates c unlocked (s\<lparr> cm_pending := m' \<rparr>) of
                  (s2, Inl e) \<Rightarrow> (s2, Inl e)
                | (s2, Inr _) \<Rightarrow> process_gc_round iter c s2)))"
  by pat_completeness auto
termination
  by (relation "measure (\<lambda>(iter, c, s). length (pm_missing (cm_pending s)))") (auto intro: gc_step_shrinks)

declare process_gc_round.simps [simp del]

datatype gc_error = ConsensusRoundWatchChannel | GCTNSend string | GCTimeout

definition process_next_round :: "round \<Rightarrow> cert_manager \<Rightarrow> cert_manager" where
  "process_next_round new s = s\<lparr> cm_gc_round := new \<rparr>"

definition process_max_round_timeout :: "cert_manager \<Rightarrow> cert_manager \<times> (gc_error, unit) result" where
  "process_max_round_timeout s =
     (if cm_fetcher_open s then (s\<lparr> cm_to_fetcher := cm_to_fetcher s @ [Kick] \<rparr>, Inr ())
      else (s, Inl (GCTNSend ''certificate fetcher'')))"

text \<open>What the collector waits for: its timer, or a change of the watched round (closed: None).\<close>

datatype gc_event = GcTick | GcUpdate "round option"

definition gc_ready :: "gc_event \<Rightarrow> cert_manager \<Rightarrow> cert_manager \<times> (gc_error, unit) result" where
  "gc_ready ev s =
     (case ev of
        GcTick \<Rightarrow> (case process_max_round_timeout s of (s1, Inl e) \<Rightarrow> (s1, Inl e) | (s1, Inr _) \<Rightarrow> (s1, Inl GCTimeout))
      | GcUpdate None \<Rightarrow> (s, Inl ConsensusRoundWatchChannel)
      | GcUpdate (Some r) \<Rightarrow> (process_next_round r s, Inr ()))"

section \<open>The task\<close>

fun recover_loop :: "committee \<Rightarrow> certificate list \<Rightarrow> cert_manager \<Rightarrow> unit cm_result" where
  "recover_loop c [] s = (s, Inr ())"
| "recover_loop c (x # xs) s =
     (case append_parent c x s of (s1, Inl e) \<Rightarrow> (s1, Inl e) | (s1, Inr _) \<Rightarrow> recover_loop c xs s1)"

text \<open>A store whose index names a missing certificate makes the recovery panic: \<^const>\<open>None\<close>.\<close>

definition recover_state :: "committee \<Rightarrow> cert_manager \<Rightarrow> unit cm_result option" where
  "recover_state c s =
     (case last_two_rounds_certs (cm_store s) of Inl _ \<Rightarrow> None | Inr xs \<Rightarrow> Some (recover_loop c xs s))"

datatype cm_command =
    ProcessVerifiedCertificates "certificate list"
  | FilterUnkownDigests "digest list"

datatype cm_event = CmCommand cm_command | CmGc gc_event | CmShutdown

datatype cm_reply =
    Processed "(cert_manager_error, unit) result"
  | Filtered "digest list"
  | NoReply

text \<open>One turn of the loop: the reply, or \<^const>\<open>Inl\<close> with the result the task ends with.\<close>

definition cm_run_step ::
  "(digest list \<Rightarrow> digest list) \<Rightarrow> committee \<Rightarrow> digest list \<Rightarrow> cm_event \<Rightarrow> cert_manager
    \<Rightarrow> cert_manager \<times> ((cert_manager_error, unit) result, cm_reply) result" where
  "cm_run_step iter c gen ev s =
     (case ev of
        CmCommand (ProcessVerifiedCertificates xs) \<Rightarrow>
          (case process_verified_certificates iter c gen xs s of
             (s1, Inl FatalAppendParent) \<Rightarrow> (s1, Inl (Inl FatalAppendParent))
           | (s1, Inl FatalForwardAcceptedCertificate) \<Rightarrow> (s1, Inl (Inl FatalForwardAcceptedCertificate))
           | (s1, r) \<Rightarrow> (s1, Inr (Processed r)))
      | CmCommand (FilterUnkownDigests ds) \<Rightarrow> (s, Inr (Filtered (filter_unknown_digests (cm_pending s) ds)))
      | CmGc g \<Rightarrow>
          (case gc_ready g s of
             (s1, Inr _) \<Rightarrow> (case process_gc_round iter c s1 of (s2, Inl e) \<Rightarrow> (s2, Inl (Inl e)) | (s2, Inr _) \<Rightarrow> (s2, Inr NoReply))
           | (s1, Inl GCTimeout) \<Rightarrow> (s1, Inr NoReply)
           | (s1, Inl e) \<Rightarrow> (s1, Inl (Inl (MGC ''gc''))))
      | CmShutdown \<Rightarrow> (s, Inl (Inr ())))"

section \<open>The invariant of the manager\<close>

text \<open>
  The certificates in play are from a set \<open>X\<close> in which a digest identifies round and author and the
  parents of a certificate are of the round before, as the headers a quorum votes for have them.
  \<open>K\<close> holds the digests that were known at the start: those of the genesis certificates and of the
  store that was recovered.
\<close>

definition parent_rounds :: "certificate set \<Rightarrow> bool" where
  "parent_rounds X = (\<forall>x\<in>X. \<forall>y\<in>X. cert_digest y \<in> set (c_parents x) \<longrightarrow> c_round x = Suc (c_round y))"

definition cert_world :: "certificate set \<Rightarrow> bool" where
  "cert_world X = (digests_identify X \<and> parent_rounds X)"

definition store_known :: "certificate set \<Rightarrow> digest set \<Rightarrow> cert_store \<Rightarrow> bool" where
  "store_known X K st = (store_ok st \<and> stored_certs st \<subseteq> X \<and> (\<forall>d. store_contains st d \<longrightarrow> d \<in> K))"

definition waiting_ok :: "cert_store \<Rightarrow> pending_manager \<Rightarrow> bool" where
  "waiting_ok st m = (\<forall>d p q. map_of (pm_pending m) d = Some p \<longrightarrow> q \<in> set (pc_missing p) \<longrightarrow> \<not> store_contains st q)"

definition cm_inv :: "certificate set \<Rightarrow> digest set \<Rightarrow> cert_manager \<Rightarrow> bool" where
  "cm_inv X K s =
     (pm_ok (cm_pending s) \<and>
      covered (cm_gc_round s) (K \<union> digests_of (cm_to_consensus s)) (pm_pending (cm_pending s)) \<and>
      pending_all (\<lambda>x. x \<in> X \<and> is_verified x) (pm_pending (cm_pending s)) \<and>
      causal (cm_gc_round s) K (cm_to_consensus s) \<and>
      (\<forall>x\<in>set (cm_to_consensus s). x \<in> X \<and> is_verified x) \<and>
      store_known X (K \<union> digests_of (cm_to_consensus s)) (cm_store s) \<and>
      waiting_ok (cm_store s) (cm_pending s) \<and>
      cm_proposer_open s \<and> cm_consensus_open s)"

subsection \<open>Accepting\<close>

lemma append_parent_open:
  assumes "cm_proposer_open s"
  shows "\<exists>m ps. append_parent c x s = (s\<lparr> cm_parents := m, cm_to_proposer := ps \<rparr>, Inr ())"
proof -
  obtain m out where o: "append_certificate c x (cm_parents s) = (m, out)" by force
  show ?thesis
  proof (cases out)
    case None
    thus ?thesis using o by (intro exI[of _ m] exI[of _ "cm_to_proposer s"]) (simp add: append_parent_def)
  next
    case (Some msg)
    thus ?thesis using o assms by (intro exI[of _ m] exI[of _ "cm_to_proposer s @ [msg]"]) (simp add: append_parent_def)
  qed
qed

lemma accept_loop_open:
  assumes "cm_proposer_open s" "cm_consensus_open s"
  shows "\<exists>s'. accept_loop c xs s = (s', Inr ()) \<and> cm_to_consensus s' = cm_to_consensus s @ xs \<and> cm_pending s' = cm_pending s \<and>
    cm_gc_round s' = cm_gc_round s \<and> cm_store s' = cm_store s \<and> cm_proposer_open s' \<and> cm_consensus_open s' \<and>
    cm_fetcher_open s' = cm_fetcher_open s"
  using assms
proof (induction xs arbitrary: s)
  case (Cons x xs)
  let ?s = "s\<lparr> cm_highest_processed := max (cm_highest_processed s) (c_round x) \<rparr>"
  obtain m ps where a: "append_parent c x ?s = (?s\<lparr> cm_parents := m, cm_to_proposer := ps \<rparr>, Inr ())"
    using append_parent_open[of ?s c x] Cons.prems(1) by auto
  show ?case using Cons.IH[of "?s\<lparr> cm_parents := m, cm_to_proposer := ps, cm_to_consensus := cm_to_consensus s @ [x] \<rparr>"] Cons.prems a by simp
qed simp

lemma store_known_write_all:
  assumes "cert_world X" "store_known X K st" "set xs \<subseteq> X"
  shows "store_known X (K \<union> digests_of xs) (store_write_all xs st)"
proof -
  have ok: "store_ok st" "stored_certs st \<subseteq> X" "\<forall>d. store_contains st d \<longrightarrow> d \<in> K" using assms(2) by (auto simp: store_known_def)
  have "digests_identify X" using assms(1) by (simp add: cert_world_def)
  hence "digests_identify (set xs \<union> stored_certs st)" by (rule digests_identify_mono) (use ok(2) assms(3) in auto)
  hence "store_ok (store_write_all xs st)" using ok(1) by (rule store_ok_write_all[rotated])
  moreover have rd: "x \<in> set xs \<and> cert_digest x = d \<or> store_read st d = Some x" if "store_read (store_write_all xs st) d = Some x" for d x
    using store_read_write_all[OF _ that] ok(1) by (simp add: store_ok_def)
  moreover have "stored_certs (store_write_all xs st) \<subseteq> X"
    using rd ok(2) assms(3) unfolding stored_certs_def ran_def by blast
  moreover have "d \<in> K \<union> digests_of xs" if "store_contains (store_write_all xs st) d" for d
    using that rd ok(3) unfolding store_contains_read by blast
  ultimately show ?thesis by (simp add: store_known_def)
qed

lemma covered_mono: "covered g K pend \<Longrightarrow> K \<subseteq> K' \<Longrightarrow> g \<le> g' \<Longrightarrow> covered g' K' pend"
  unfolding covered_def by (meson Un_mono order_refl order_trans add_le_mono1)

lemma waiting_after_update:
  assumes w: "cert_world X" and ok: "pm_ok m" "pm_ok m'" and wait: "waiting_ok st m" and st: "store_sorted st"
    and pend: "pending_all (\<lambda>x. x \<in> X \<and> is_verified x) (pm_pending m')" "covered g K' (pm_pending m')"
    and keys: "\<forall>k es. map_of (pm_missing m') k = Some es \<longrightarrow> map_of (pm_missing m) k = Some es"
    and xs: "set xs \<subseteq> X" "\<forall>y\<in>set xs. map_of (pm_missing m') (cert_key y) = None"
  shows "waiting_ok (store_write_all xs st) m'"
  unfolding waiting_ok_def
proof (intro allI impI notI)
  fix d p q
  assume p: "map_of (pm_pending m') d = Some p" "q \<in> set (pc_missing p)" and c: "store_contains (store_write_all xs st) q"
  have mir: "pending_mirror (0, 0) [] (pm_pending m') (pm_missing m')" "pending_mirror (0, 0) [] (pm_pending m) (pm_missing m)"
    using ok by (auto simp: pm_ok_def)
  let ?k = "(c_round (pc_certificate p) - 1, q)"
  obtain es where es: "map_of (pm_missing m') ?k = Some es" "d \<in> set es" and r: "0 < c_round (pc_certificate p)"
    using mirrorD(1)[OF mir(1) p(1)] p(2) by (auto simp: waits_def)
  have "blocked_by (pm_pending m) ?k d" using mirrorD(2)[OF mir(2) _ es(2)] keys es(1) by blast
  hence "\<not> store_contains st q" using wait by (auto simp: blocked_by_def waiting_ok_def)
  then obtain y where y: "y \<in> set xs" "cert_digest y = q"
    using c store_read_write_all[OF st, of xs q] unfolding store_contains_read by blast
  have "q \<in> set (c_parents (pc_certificate p))" using pend(2) p unfolding covered_def by blast
  hence "c_round (pc_certificate p) = Suc (c_round y)"
    using w pend(1) p(1) y xs(1) unfolding cert_world_def parent_rounds_def pending_all_def by blast
  hence "cert_key y = ?k" using y(2) by simp
  thus False using xs(2) y(1) es(1) by force
qed

lemma accept_cascade:
  assumes w: "cert_world X" and inv: "cm_inv X K s" and it: "hash_order iter"
    and fs: "\<forall>x\<in>set fs. x \<in> X \<and> is_verified x \<and> cert_key x = k"
    and cf: "causal (cm_gc_round s) (K \<union> digests_of (cm_to_consensus s)) fs"
    and k: "fst k \<le> cm_gc_round s \<or> snd k \<in> digests_of fs"
  shows "\<exists>m unlocked s'. update_pending iter (fst k) (snd k) (cm_pending s) = (m, Inr unlocked) \<and>
    accept_verified_certificates c (fs @ unlocked) (s\<lparr> cm_pending := m \<rparr>) = (s', Inr ()) \<and> cm_inv X K s' \<and>
    cm_gc_round s' = cm_gc_round s \<and> cm_to_consensus s' = cm_to_consensus s @ fs @ unlocked \<and> cm_pending s' = m \<and>
    cm_store s' = store_write_all (fs @ unlocked) (cm_store s) \<and>
    (\<forall>d. is_pending (cm_pending s) d \<longrightarrow> is_pending m d \<or> d \<in> digests_of unlocked)"
proof -
  let ?g = "cm_gc_round s" and ?F = "cm_to_consensus s" and ?P = "\<lambda>x. x \<in> X \<and> is_verified x"
  let ?K = "K \<union> digests_of ?F"
  have i: "pm_ok (cm_pending s)" "covered ?g ?K (pm_pending (cm_pending s))" "pending_all ?P (pm_pending (cm_pending s))"
    "causal ?g K ?F" "\<forall>x\<in>set ?F. ?P x" "store_known X ?K (cm_store s)" "waiting_ok (cm_store s) (cm_pending s)"
    "cm_proposer_open s" "cm_consensus_open s"
    using inv unfolding cm_inv_def by blast+
  have e: "\<forall>y\<in>set []. cert_key y \<in> set [k] \<or> map_of (pm_missing (cm_pending s)) (cert_key y) = None" by simp
  have "cascade_ok ?P ?g (?K \<union> digests_of fs) [k] [] (pm_pending (cm_pending s))"
    using covered_mono[OF i(2), of "?K \<union> digests_of fs" ?g] i(3) k by (auto simp: cascade_ok_def)
  from update_loop_ok[OF i(1) this it e] obtain m news where u: "update_loop iter [k] [] (cm_pending s) = (m, Inr ([] @ news))" "pm_ok m"
    "cascade_ok ?P ?g (?K \<union> digests_of fs) [] ([] @ news) (pm_pending m)"
    "\<forall>k' es. map_of (pm_missing m) k' = Some es \<longrightarrow> k' \<notin> set [k] \<and> map_of (pm_missing (cm_pending s)) k' = Some es"
    "\<forall>y\<in>set ([] @ news). map_of (pm_missing m) (cert_key y) = None"
    "\<forall>d. map_of (pm_pending (cm_pending s)) d \<noteq> None \<longrightarrow> map_of (pm_pending m) d \<noteq> None \<or> d \<in> digests_of news"
    by blast
  have ks: "\<forall>k' es. map_of (pm_missing m) k' = Some es \<longrightarrow> map_of (pm_missing (cm_pending s)) k' = Some es" using u(4) by blast
  have gone: "\<forall>y\<in>set (fs @ news). map_of (pm_missing m) (cert_key y) = None"
  proof
    fix y
    assume "y \<in> set (fs @ news)"
    thus "map_of (pm_missing m) (cert_key y) = None" using u(4)[rule_format, of "cert_key y"] u(5) fs
      by (cases "map_of (pm_missing m) (cert_key y)") auto
  qed
  have cas: "covered ?g (?K \<union> digests_of fs \<union> digests_of news) (pm_pending m)" "causal ?g (?K \<union> digests_of fs) news"
    "pending_all ?P (pm_pending m)" "\<forall>y\<in>set news. ?P y"
    using u(3) by (auto simp: cascade_ok_def)
  let ?s = "s\<lparr> cm_pending := m, cm_store := store_write_all (fs @ news) (cm_store s) \<rparr>"
  obtain s' where a: "accept_loop c (fs @ news) ?s = (s', Inr ())" "cm_to_consensus s' = ?F @ fs @ news" "cm_pending s' = m"
    "cm_gc_round s' = ?g" "cm_store s' = store_write_all (fs @ news) (cm_store s)" "cm_proposer_open s'" "cm_consensus_open s'"
    using accept_loop_open[of ?s c "fs @ news"] i(8,9) by auto
  have X: "set (fs @ news) \<subseteq> X" using fs cas(4) by auto
  have st: "store_known X (?K \<union> digests_of (fs @ news)) (cm_store s')"
    unfolding a(5) by (rule store_known_write_all[OF w i(6) X])
  have "store_sorted (cm_store s)" using i(6) by (simp add: store_known_def store_ok_def)
  hence wait: "waiting_ok (cm_store s') m" unfolding a(5)
    by (rule waiting_after_update[OF w i(1) u(2) i(7) _ cas(3,1) ks X gone])
  have "causal ?g K (?F @ fs @ news)" using i(4) cf cas(2) by (simp add: causal_append)
  hence "cm_inv X K s'"
    using u(2) cas(1,3,4) st wait i(5) fs a(2-7) by (auto simp: cm_inv_def Un_assoc image_Un)
  thus ?thesis using u(1,6) a by (intro exI[of _ m] exI[of _ news] exI[of _ s']) (simp add: update_pending_def accept_verified_certificates_def is_pending_def)
qed

subsection \<open>Processing verified certificates\<close>

lemma get_missing_parents_ok:
  assumes "get_missing_parents gen x s = (s1, Inr missing)"
  shows "\<exists>fc. s1 = s\<lparr> cm_to_fetcher := fc \<rparr>" and "c_round x = 1 \<Longrightarrow> missing = [] \<and> set (c_parents x) \<subseteq> set gen"
    and "c_round x \<noteq> 1 \<Longrightarrow> missing = filter (\<lambda>d. \<not> store_contains (cm_store s) d) (c_parents x)"
proof -
  have z: "map fst (filter (\<lambda>e. \<not> snd e) (zip ds (map f ds))) = filter (\<lambda>d. \<not> f d) ds" for ds :: "digest list" and f
    by (induction ds) auto
  have id: "\<exists>fc. t = t\<lparr> cm_to_fetcher := fc \<rparr>" for t :: cert_manager by (rule exI[of _ "cm_to_fetcher t"]) simp
  show "\<exists>fc. s1 = s\<lparr> cm_to_fetcher := fc \<rparr>"
    using assms by (auto simp: get_missing_parents_def Let_def split: if_splits option.splits intro: id)
  show "c_round x = 1 \<Longrightarrow> missing = [] \<and> set (c_parents x) \<subseteq> set gen"
    using assms by (auto simp: get_missing_parents_def find_None_iff split: option.splits)
  assume "c_round x \<noteq> 1"
  hence "missing = map fst (filter (\<lambda>e. \<not> snd e) (zip (c_parents x) (map (store_contains (cm_store s)) (c_parents x))))"
    using assms by (auto simp: get_missing_parents_def multi_contains_def Let_def split: if_splits)
  thus "missing = filter (\<lambda>d. \<not> store_contains (cm_store s) d) (c_parents x)" unfolding z .
qed

lemma get_missing_parents_err:
  "get_missing_parents gen x s = (s1, Inl e) \<Longrightarrow> s1 = s"
  by (auto simp: get_missing_parents_def Let_def split: if_splits option.splits)

lemma cm_inv_fetcher [simp]: "cm_inv X K (s\<lparr> cm_to_fetcher := fc \<rparr>) = cm_inv X K s"
  by (simp add: cm_inv_def)

lemma insert_pending_keeps:
  assumes "insert_pending x ms p = (m, Inr ())"
  shows "is_pending m (cert_digest x) \<and> (\<forall>d. is_pending p d \<longrightarrow> is_pending m d)"
proof -
  have "pm_pending m = AList.update (cert_digest x) (pending_certificate_new x ms) (pm_pending p)"
    using assms by (auto simp: insert_pending_def Let_def fold_add_blocked(1) split: option.splits if_splits)
  thus ?thesis by (simp add: is_pending_def map_simps)
qed

lemma insert_pending_inv:
  assumes inv: "cm_inv X K s" and x: "x \<in> X" "is_verified x" "0 < c_round x"
    and new: "\<not> is_pending (cm_pending s) (cert_digest x)" "ms \<noteq> []"
    and ms: "ms = filter (\<lambda>d. \<not> store_contains (cm_store s) d) (c_parents x)"
  shows "\<exists>m. insert_pending x ms (cm_pending s) = (m, Inr ()) \<and> cm_inv X K (s\<lparr> cm_pending := m \<rparr>)"
proof -
  let ?K = "K \<union> digests_of (cm_to_consensus s)"
  have i: "pm_ok (cm_pending s)" "covered (cm_gc_round s) ?K (pm_pending (cm_pending s))"
    "pending_all (\<lambda>x. x \<in> X \<and> is_verified x) (pm_pending (cm_pending s))"
    "store_known X ?K (cm_store s)" "waiting_ok (cm_store s) (cm_pending s)" using inv unfolding cm_inv_def by blast+
  obtain m where m: "insert_pending x ms (cm_pending s) = (m, Inr ())" "pm_ok m"
    "pm_pending m = AList.update (cert_digest x) (pending_certificate_new x ms) (pm_pending (cm_pending s))"
    using insert_pending_ok[OF i(1) new(1) x(3) new(2)] by blast
  have "set ms \<subseteq> set (c_parents x)" "set (c_parents x) \<subseteq> ?K \<union> set ms"
    using i(4) ms by (auto simp: store_known_def)
  hence "covered (cm_gc_round s) ?K (pm_pending m)"
    using i(2) unfolding m(3) covered_def by (simp add: map_simps pending_certificate_new_def)
  moreover have "pending_all (\<lambda>x. x \<in> X \<and> is_verified x) (pm_pending m)"
    using i(3) x(1,2) unfolding m(3) pending_all_def by (simp add: map_simps pending_certificate_new_def)
  moreover have "waiting_ok (cm_store s) m"
    using i(5) ms unfolding m(3) waiting_ok_def by (auto simp: map_simps pending_certificate_new_def)
  ultimately have "cm_inv X K (s\<lparr> cm_pending := m \<rparr>)" using inv m(2) by (simp add: cm_inv_def)
  thus ?thesis using m(1) by blast
qed

text \<open>A certificate the manager has taken is forwarded to consensus or waits.\<close>

definition taken :: "cert_manager \<Rightarrow> digest \<Rightarrow> bool" where
  "taken s d = (is_pending (cm_pending s) d \<or> d \<in> digests_of (cm_to_consensus s))"

definition progress :: "cert_manager \<Rightarrow> cert_manager \<Rightarrow> bool" where
  "progress s s' = (cm_gc_round s' = cm_gc_round s \<and> (\<exists>ys. cm_to_consensus s' = cm_to_consensus s @ ys) \<and> (\<forall>d. taken s d \<longrightarrow> taken s' d))"

lemma progress_refl: "progress s s"
  by (simp add: progress_def)

lemma progress_trans: "progress s t \<Longrightarrow> progress t u \<Longrightarrow> progress s u"
  unfolding progress_def by auto

text \<open>The errors that processing can end with: none of the fatal ones, and no inconsistency of the pending state.\<close>

definition benign :: "cert_manager_error \<Rightarrow> bool" where
  "benign e = (case e of Pending _ \<Rightarrow> True | UnverifiedSignature _ \<Rightarrow> True | MTNSend _ \<Rightarrow> True | MCertificate _ \<Rightarrow> True | _ \<Rightarrow> False)"

definition benign_result :: "(cert_manager_error, 'a) result \<Rightarrow> bool" where
  "benign_result r = (case r of Inl e \<Rightarrow> benign e | Inr _ \<Rightarrow> True)"

lemma get_missing_parents_benign: "get_missing_parents gen x s = (s1, Inl e) \<Longrightarrow> benign e \<and> e \<notin> range Pending"
  by (auto simp: get_missing_parents_def benign_def Let_def split: if_splits option.splits)

lemma accept_one:
  assumes w: "cert_world X" and it: "hash_order iter" and inv: "cm_inv X K s"
    and x: "x \<in> X" "is_verified x" "c_round x \<le> cm_gc_round s + 1 \<or> set (c_parents x) \<subseteq> K \<union> digests_of (cm_to_consensus s)"
  shows "\<exists>m unlocked s'. update_pending iter (c_round x) (cert_digest x) (cm_pending s) = (m, Inr unlocked) \<and>
    accept_verified_certificates c (x # unlocked) (s\<lparr> cm_pending := m \<rparr>) = (s', Inr ()) \<and> cm_inv X K s' \<and>
    cm_gc_round s' = cm_gc_round s \<and> cm_to_consensus s' = cm_to_consensus s @ x # unlocked \<and>
    (\<forall>d. is_pending (cm_pending s) d \<longrightarrow> is_pending (cm_pending s') d \<or> d \<in> digests_of unlocked)"
  using accept_cascade[OF w inv it, of "[x]" "cert_key x" c] x by auto

lemma process_verified_inv:
  assumes w: "cert_world X" and it: "hash_order iter" and gen: "set gen \<subseteq> K"
  shows "cm_inv X K s \<Longrightarrow> set xs \<subseteq> X \<Longrightarrow> benign_result res \<Longrightarrow>
    cm_inv X K (fst (process_verified iter c gen res xs s)) \<and> benign_result (snd (process_verified iter c gen res xs s)) \<and>
    progress s (fst (process_verified iter c gen res xs s)) \<and>
    (snd (process_verified iter c gen res xs s) \<in> insert (Inr ()) (range (Inl \<circ> Pending)) \<longrightarrow>
       (\<forall>x\<in>set xs. taken (fst (process_verified iter c gen res xs s)) (cert_digest x)))"
proof (induction xs arbitrary: res s)
  case (Cons x xs)
  have x: "x \<in> X" "set xs \<subseteq> X" using Cons.prems(2) by auto
  let ?r = "Inl (Pending (cert_digest x)) :: (cert_manager_error, unit) result"
  have pend: "benign_result ?r" by (simp add: benign_result_def benign_def)
  have step: "cm_inv X K (fst z) \<and> benign_result (snd z) \<and> progress s (fst z) \<and>
      (snd z \<in> insert (Inr ()) (range (Inl \<circ> Pending)) \<longrightarrow> (\<forall>y\<in>set (x # xs). taken (fst z) (cert_digest y)))"
    if "taken t (cert_digest x)" "progress s t" "cm_inv X K (fst z) \<and> benign_result (snd z) \<and> progress t (fst z) \<and>
      (snd z \<in> insert (Inr ()) (range (Inl \<circ> Pending)) \<longrightarrow> (\<forall>y\<in>set xs. taken (fst z) (cert_digest y)))"
    for t and z :: "unit cm_result"
    using that progress_trans[of s t "fst z"] by (simp add: progress_def)
  show ?case
  proof (cases "is_verified x \<and> \<not> is_pending (cm_pending s) (cert_digest x)")
    case False
    show ?thesis
    proof (cases "is_verified x")
      case True
      hence "is_pending (cm_pending s) (cert_digest x)" using False by simp
      hence t: "taken s (cert_digest x)" and eq: "process_verified iter c gen res (x # xs) s = process_verified iter c gen ?r xs s"
        using True by (simp_all add: taken_def)
      show ?thesis unfolding eq by (rule step[OF t progress_refl Cons.IH[OF Cons.prems(1) x(2) pend]])
    next
      case nv: False
      have "(Inl (UnverifiedSignature (cert_digest x)) :: (cert_manager_error, unit) result) \<notin> range (Inl \<circ> Pending)" by auto
      thus ?thesis using nv Cons.prems(1) by (simp add: benign_result_def benign_def progress_refl)
    qed
  next
    case v: True
    let ?c = "if c_round x > u32_add (cm_gc_round s) 1 then get_missing_parents gen x s else (s, Inr [])"
    show ?thesis
    proof (cases "snd ?c")
      case (Inl e)
      hence big: "c_round x > u32_add (cm_gc_round s) 1" by (cases "c_round x > u32_add (cm_gc_round s) 1") simp_all
      hence g: "get_missing_parents gen x s = (fst ?c, Inl e)" using Inl by (simp add: prod_eq_iff)
      have "?c = (s, Inl e)" "benign e" "(Inl e :: (cert_manager_error, unit) result) \<notin> range (Inl \<circ> Pending)" using get_missing_parents_err[OF g] get_missing_parents_benign[OF g] g big by auto
      thus ?thesis using Cons.prems(1) v by (simp add: benign_result_def progress_refl)
    next
      case (Inr ms)
      obtain fc where fc: "?c = (s\<lparr> cm_to_fetcher := fc \<rparr>, Inr ms)"
      proof (cases "c_round x > u32_add (cm_gc_round s) 1")
        case True
        hence "get_missing_parents gen x s = (fst ?c, Inr ms)" using Inr by (simp add: prod_eq_iff)
        with get_missing_parents_ok(1)[OF this] show ?thesis using that True by auto
      next
        case False
        thus ?thesis using that[of "cm_to_fetcher s"] Inr by simp
      qed
      let ?s = "s\<lparr> cm_to_fetcher := fc \<rparr>"
      have inv: "cm_inv X K ?s" using Cons.prems(1) by simp
      show ?thesis
      proof (cases "ms = []")
        case False
        hence "c_round x > u32_add (cm_gc_round s) 1" using Inr by (auto split: if_splits)
        hence g: "get_missing_parents gen x s = (?s, Inr ms)" "0 < c_round x" using fc by auto
        hence "ms = filter (\<lambda>d. \<not> store_contains (cm_store ?s) d) (c_parents x)"
          using get_missing_parents_ok(2,3)[OF g(1)] False by (cases "c_round x = 1") auto
        then obtain m where m: "insert_pending x ms (cm_pending ?s) = (m, Inr ())" "cm_inv X K (?s\<lparr> cm_pending := m \<rparr>)"
          using insert_pending_inv[OF inv x(1) _ g(2)] v False by auto
        let ?t = "?s\<lparr> cm_pending := m \<rparr>"
        have t: "taken ?t (cert_digest x)" "progress s ?t" using insert_pending_keeps[OF m(1)] by (auto simp: taken_def progress_def)
        have eq: "process_verified iter c gen res (x # xs) s = process_verified iter c gen ?r xs ?t" using v fc m(1) False by simp
        show ?thesis unfolding eq by (rule step[OF t Cons.IH[OF m(2) x(2) pend]])
      next
        case True
        have "c_round x \<le> cm_gc_round ?s + 1 \<or> set (c_parents x) \<subseteq> K \<union> digests_of (cm_to_consensus ?s)"
        proof (cases "c_round x > u32_add (cm_gc_round s) 1")
          case big: True
          hence g: "get_missing_parents gen x s = (?s, Inr [])" using fc True by simp
          have "\<forall>d. store_contains (cm_store s) d \<longrightarrow> d \<in> K \<union> digests_of (cm_to_consensus s)"
            using Cons.prems(1) by (simp add: cm_inv_def store_known_def)
          thus ?thesis using get_missing_parents_ok(2,3)[OF g] gen by (cases "c_round x = 1") (auto simp: filter_empty_conv eq_commute[of "[]"])
        qed (use u32_add_le[of "cm_gc_round s" 1] in simp)
        then obtain m un s' where a: "update_pending iter (c_round x) (cert_digest x) (cm_pending ?s) = (m, Inr un)"
          "accept_verified_certificates c (x # un) (?s\<lparr> cm_pending := m \<rparr>) = (s', Inr ())" "cm_inv X K s'"
          "cm_gc_round s' = cm_gc_round ?s" "cm_to_consensus s' = cm_to_consensus ?s @ x # un"
          "\<forall>d. is_pending (cm_pending ?s) d \<longrightarrow> is_pending (cm_pending s') d \<or> d \<in> digests_of un"
          using accept_one[OF w it inv x(1)] v by blast
        have t: "taken s' (cert_digest x)" "progress s s'" using a(4-6) by (auto simp: taken_def progress_def)
        have eq: "process_verified iter c gen res (x # xs) s = process_verified iter c gen res xs s'" using v fc True a(1,2) by simp
        show ?thesis unfolding eq by (rule step[OF t Cons.IH[OF a(3) x(2) Cons.prems(3)]])
      qed
    qed
  qed
qed (auto simp: progress_refl)

subsection \<open>Garbage collection rounds\<close>

lemma next_for_gc_round_inv:
  assumes w: "cert_world X" and inv: "cm_inv X K s"
  shows "fst (next_for_gc_round g (cm_pending s)) = cm_pending s"
proof -
  let ?m = "cm_pending s"
  have i: "pm_ok ?m" "covered (cm_gc_round s) (K \<union> digests_of (cm_to_consensus s)) (pm_pending ?m)"
    "pending_all (\<lambda>x. x \<in> X \<and> is_verified x) (pm_pending ?m)" using inv unfolding cm_inv_def by blast+
  have mir: "pending_mirror (0, 0) [] (pm_pending ?m) (pm_missing ?m)" and srt: "bt_sorted (pm_missing ?m)" using i(1) by (auto simp: pm_ok_def)
  show ?thesis
  proof (cases "pm_missing ?m")
    case (Cons e es)
    obtain r q ds where e: "e = ((r, q), ds)" by (metis surj_pair)
    have "map_of (pm_pending ?m) q = None"
    proof (rule ccontr)
      assume "map_of (pm_pending ?m) q \<noteq> None"
      then obtain p where p: "map_of (pm_pending ?m) q = Some p" by auto
      have wt: "waits (0, 0) [] (pm_missing ?m) q p" by (rule mirrorD(1)[OF mir p])
      then obtain q' where "q' \<in> set (pc_missing p)" by (cases "pc_missing p") (auto simp: waits_def)
      then obtain es' where q': "map_of (pm_missing ?m) (c_round (pc_certificate p) - 1, q') = Some es'" and pos: "0 < c_round (pc_certificate p)"
        using wt by (auto simp: waits_def)
      have here: "map_of (pm_missing ?m) (r, q) = Some ds" using Cons e by simp
      then obtain d where "d \<in> set ds" using i(1) unfolding pm_ok_def by (metis list.set_intros(1) neq_Nil_conv)
      then obtain p' where p': "map_of (pm_pending ?m) d = Some p'" "q \<in> set (pc_missing p')" "c_round (pc_certificate p') = Suc r"
        using mirrorD(2)[OF mir here] by (auto simp: blocked_by_def)
      have "q \<in> set (c_parents (pc_certificate p'))" using i(2) p'(1,2) unfolding covered_def by blast
      moreover have "cert_digest (pc_certificate p) = q" using wt by (simp add: waits_def)
      moreover have "pc_certificate p \<in> X" "pc_certificate p' \<in> X" using i(3) p p'(1) unfolding pending_all_def by blast+
      ultimately have "c_round (pc_certificate p) = r" using w p'(3) unfolding cert_world_def parent_rounds_def by fastforce
      hence "(r - 1, q') \<in> fst ` set (pm_missing ?m)" "0 < r" using q' pos by (force dest: map_of_SomeD)+
      thus False using srt Cons e by (auto simp: bt_sorted_def less_prod_def)
    qed
    thus ?thesis using Cons e by (simp add: next_for_gc_round_def)
  qed (simp add: next_for_gc_round_def)
qed

lemma process_gc_round_inv:
  assumes w: "cert_world X" and it: "hash_order iter"
  shows "cm_inv X K s \<Longrightarrow> \<exists>s'. process_gc_round iter c s = (s', Inr ()) \<and> cm_inv X K s' \<and> cm_gc_round s' = cm_gc_round s \<and>
    (\<forall>k. map_of (pm_missing (cm_pending s')) k \<noteq> None \<longrightarrow> cm_gc_round s < fst k) \<and>
    (\<exists>ys. cm_to_consensus s' = cm_to_consensus s @ ys)"
proof (induction "length (pm_missing (cm_pending s))" arbitrary: s rule: less_induct)
  case less
  have f: "fst (next_for_gc_round (cm_gc_round s) (cm_pending s)) = cm_pending s" by (rule next_for_gc_round_inv[OF w less.prems])
  show ?case
  proof (cases "snd (next_for_gc_round (cm_gc_round s) (cm_pending s))")
    case None
    hence n: "next_for_gc_round (cm_gc_round s) (cm_pending s) = (cm_pending s, None)" using f by (simp add: prod_eq_iff)
    have "bt_sorted (pm_missing (cm_pending s))" using less.prems by (simp add: cm_inv_def pm_ok_def)
    hence "\<forall>k. map_of (pm_missing (cm_pending s)) k \<noteq> None \<longrightarrow> cm_gc_round s < fst k"
      using n by (auto simp: next_for_gc_round_def bt_sorted_def less_prod_def split: list.splits if_splits option.splits dest!: map_of_SomeD)
    thus ?thesis using less.prems by (subst process_gc_round.simps) (simp add: n)
  next
    case (Some k)
    hence n: "next_for_gc_round (cm_gc_round s) (cm_pending s) = (cm_pending s, Some k)" using f by (simp add: prod_eq_iff)
    have "fst k \<le> cm_gc_round s" using next_for_gc_round_key[OF Some] by blast
    then obtain m un s1 where a: "update_pending iter (fst k) (snd k) (cm_pending s) = (m, Inr un)"
      "accept_verified_certificates c un (s\<lparr> cm_pending := m \<rparr>) = (s1, Inr ())" "cm_inv X K s1" "cm_gc_round s1 = cm_gc_round s"
      "cm_to_consensus s1 = cm_to_consensus s @ un"
      using accept_cascade[OF w less.prems it, of "[]" k c] by auto
    have "length (pm_missing (cm_pending s1)) < length (pm_missing (cm_pending s))"
      using gc_step_shrinks[of "cm_pending s" "fst k" "snd k" "cm_gc_round s" "cm_pending s" m "Inr un" iter s1 "Inr ()" c un s] n a(1,2) by simp
    from less.hyps[OF this a(3)] show ?thesis using a
      by (subst process_gc_round.simps) (auto simp: n)
  qed
qed

text \<open>The collection round only grows, as the watch channel of consensus sends it.\<close>

lemma next_round_inv:
  assumes "cm_inv X K s" "cm_gc_round s \<le> new"
  shows "cm_inv X K (process_next_round new s)"
proof -
  have "covered new (K \<union> digests_of (cm_to_consensus s)) (pm_pending (cm_pending s))" "causal new K (cm_to_consensus s)"
    using assms covered_mono[of "cm_gc_round s" _ _ _ new] causal_mono[of "cm_gc_round s" K _ K new] by (auto simp: cm_inv_def)
  thus ?thesis using assms(1) by (simp add: cm_inv_def process_next_round_def)
qed

section \<open>Runs of the task\<close>

text \<open>
  A turn on certificates of \<open>X\<close> and on collection rounds that do not go down, which the task survives.
\<close>

inductive cm_step :: "(digest list \<Rightarrow> digest list) \<Rightarrow> committee \<Rightarrow> digest list \<Rightarrow> certificate set \<Rightarrow> cert_manager \<Rightarrow> cert_manager \<Rightarrow> bool"
  for iter c gen X where
  command: "cm_run_step iter c gen (CmCommand (ProcessVerifiedCertificates xs)) s = (s', Inr r) \<Longrightarrow> set xs \<subseteq> X \<Longrightarrow> cm_step iter c gen X s s'"
| query: "cm_run_step iter c gen (CmCommand (FilterUnkownDigests ds)) s = (s', Inr r) \<Longrightarrow> cm_step iter c gen X s s'"
| collect: "cm_run_step iter c gen (CmGc (GcUpdate (Some g))) s = (s', Inr r) \<Longrightarrow> cm_gc_round s \<le> g \<Longrightarrow> cm_step iter c gen X s s'"
| timeout: "cm_run_step iter c gen (CmGc GcTick) s = (s', Inr r) \<Longrightarrow> cm_step iter c gen X s s'"

lemma cm_step_inv:
  assumes w: "cert_world X" and it: "hash_order iter" and gen: "set gen \<subseteq> K"
  shows "cm_inv X K s \<Longrightarrow> cm_step iter c gen X s s' \<Longrightarrow> cm_inv X K s'"
proof (erule cm_step.cases, goal_cases)
  case (1 xs t t' r)
  have "cm_inv X K (fst (process_verified_certificates iter c gen xs s))"
    using process_verified_inv[OF w it gen 1(1), of xs "Inr ()" c] 1 by (simp add: process_verified_certificates_def benign_result_def)
  thus ?case using 1 by (auto simp: cm_run_step_def split: prod.splits sum.splits cert_manager_error.splits)
next
  case (2 ds t t' r)
  thus ?case by (simp add: cm_run_step_def)
next
  case (3 g t t' r)
  have "cm_inv X K (process_next_round g s)" using next_round_inv 3 by simp
  from process_gc_round_inv[OF w it this, of c] show ?case using 3 by (auto simp: cm_run_step_def gc_ready_def)
next
  case (4 t t' r)
  thus ?case by (auto simp: cm_run_step_def gc_ready_def process_max_round_timeout_def split: if_splits)
qed

definition cm_good :: "(digest list \<Rightarrow> digest list) \<Rightarrow> digest list \<Rightarrow> certificate set \<Rightarrow> digest set \<Rightarrow> cert_manager \<Rightarrow> bool" where
  "cm_good iter gen X K s = (cert_world X \<and> hash_order iter \<and> set gen \<subseteq> K \<and> cm_inv X K s)"

interpretation cm: step_system "cm_good iter gen X K" "cm_step iter c gen X" "cm_good iter gen X K" for iter c gen X K
  by unfold_locales (auto simp: cm_good_def intro: cm_step_inv)

lemma cm_good_new:
  assumes "cert_world X" "hash_order iter" "set gen \<subseteq> K" "store_ok st" "stored_certs st \<subseteq> X" "\<forall>d. store_contains st d \<longrightarrow> d \<in> K"
  shows "cm_good iter gen X K (cert_manager_new gc hp st)"
  using assms by (simp add: cm_good_def cm_inv_def cert_manager_new_def pm_ok_new store_known_def waiting_ok_def covered_def pending_all_def)
    (simp add: pending_manager_new_def)

lemma causal_nth:
  "causal g K xs \<Longrightarrow> i < length xs \<Longrightarrow> c_round (xs ! i) \<le> g + 1 \<or> set (c_parents (xs ! i)) \<subseteq> K \<union> digests_of (take i xs)"
proof (induction xs arbitrary: K i)
  case (Cons x xs)
  thus ?case by (cases i) auto
qed simp

end
