(* ===== verification/Sync_Properties.thy ===== *)
theory Sync_Properties
  imports Sample_Network Cert_Manager
begin

text \<open>
  The properties of accepting certificates: the order in which they reach consensus, that none is lost
  and none waits without reason, the certificate store, and the aggregators of votes and parents.
\<close>

section \<open>The certificate manager\<close>

definition sample_sync_certs :: "certificate list" where
  "sample_sync_certs = [sample_cert 2 1, sample_cert 1 1, sample_cert 1 2, sample_cert 1 3]"

definition sample_manager :: cert_manager where
  "sample_manager = cert_manager_new 0 0 cert_store_empty"

definition sample_event :: cm_event where
  "sample_event = CmCommand (ProcessVerifiedCertificates sample_sync_certs)"

lemma sample_world: "cert_world (set sample_certs)"
  unfolding cert_world_def digests_identify_def parent_rounds_def by code_simp

lemma sample_iter: "hash_order (\<lambda>xs. xs)"
  by (simp add: hash_order_def)

lemma sample_sync_step:
  obtains s r where "cm_run_step (\<lambda>xs. xs) sample_committee [1, 2, 3] sample_event sample_manager = (s, Inr r)"
    "map cert_digest (cm_to_consensus s) = [11, 12, 13, 21]" "c_round (cm_to_consensus s ! 3) = 2" "cm_gc_round s = 0"
    "c_parents (cm_to_consensus s ! 3) = [11, 12, 13]" "r = Processed (Inl (Pending 21))"
proof -
  have "(case cm_run_step (\<lambda>xs. xs) sample_committee [1, 2, 3] sample_event sample_manager of
      (s, Inr r) \<Rightarrow> map cert_digest (cm_to_consensus s) = [11, 12, 13, 21] \<and> c_round (cm_to_consensus s ! 3) = 2 \<and>
        cm_gc_round s = 0 \<and> c_parents (cm_to_consensus s ! 3) = [11, 12, 13] \<and> r = Processed (Inl (Pending 21))
    | _ \<Rightarrow> False)" by code_simp
  thus thesis using that by (auto split: prod.splits sum.splits)
qed

lemma sample_sync_in: "set sample_sync_certs \<subseteq> set sample_certs"
  by (auto simp: sample_sync_certs_def sample_certs_def)

lemma sample_store: "store_ok cert_store_empty" "stored_certs cert_store_empty \<subseteq> X" "\<forall>d. store_contains cert_store_empty d \<longrightarrow> d \<in> K"
  using store_ok_empty by (auto simp: stored_certs_def store_read_def store_contains_def cert_store_empty_def ran_def)

text \<open>C9: certificates reach consensus in causal order: whatever certificates arrive and however the
  collection round advances, each certificate that the manager forwards is verified, and its parents
  were known at the start or forwarded before it, unless its parents are at or below the collection
  round. The verified certificates are assumed to be identified by their digests and to be one round
  above their parents.\<close>

theorem forwarded_in_causal_order:
  assumes "cert_world X" "hash_order iter" "set gen \<subseteq> K" "store_ok st" "stored_certs st \<subseteq> X" "\<forall>d. store_contains st d \<longrightarrow> d \<in> K"
    and "(cm_step iter c gen X)\<^sup>*\<^sup>* (cert_manager_new gc hp st) s" "i < length (cm_to_consensus s)"
  shows "is_verified (cm_to_consensus s ! i) \<and> (c_round (cm_to_consensus s ! i) \<le> cm_gc_round s + 1 \<or>
    set (c_parents (cm_to_consensus s ! i)) \<subseteq> K \<union> cert_digest ` set (take i (cm_to_consensus s)))"
proof -
  have "cm_inv X K s" using cm.inv_reachable[OF cm_good_new[OF assms(1-6)] assms(7)] by (simp add: cm_good_def)
  thus ?thesis using causal_nth assms(8) by (auto simp: cm_inv_def)
qed

theorem forwarded_in_causal_order_witness:
  "\<exists>s :: cert_manager. length (cm_to_consensus s) = 4 \<and> c_round (cm_to_consensus s ! 3) = 2 \<and> cm_gc_round s = 0 \<and>
     set (c_parents (cm_to_consensus s ! 3)) \<subseteq> {1, 2, 3} \<union> cert_digest ` set (take 3 (cm_to_consensus s))"
proof -
  obtain s r where s: "cm_run_step (\<lambda>xs. xs) sample_committee [1, 2, 3] sample_event sample_manager = (s, Inr r)"
    "map cert_digest (cm_to_consensus s) = [11, 12, 13, 21]" "c_round (cm_to_consensus s ! 3) = 2" "cm_gc_round s = 0"
    by (rule sample_sync_step)
  have "(cm_step (\<lambda>xs. xs) sample_committee [1, 2, 3] (set sample_certs))\<^sup>*\<^sup>* sample_manager s"
    by (rule r_into_rtranclp, rule cm_step.command[OF s(1)[unfolded sample_event_def] sample_sync_in])
  moreover have l: "length (cm_to_consensus s) = 4" using arg_cong[OF s(2), of length] by simp
  ultimately have "c_round (cm_to_consensus s ! 3) \<le> cm_gc_round s + 1 \<or>
      set (c_parents (cm_to_consensus s ! 3)) \<subseteq> {1, 2, 3} \<union> cert_digest ` set (take 3 (cm_to_consensus s))"
    using forwarded_in_causal_order[OF sample_world sample_iter _ sample_store, of "[1, 2, 3]" "{1, 2, 3}" sample_committee 0 0 s 3]
    by (simp add: sample_manager_def)
  thus ?thesis using l s(3,4) by (intro exI[of _ s]) simp
qed

text \<open>C23: no certificate is lost: when the manager answers a batch of certificates with success or only
  reports that some are pending, every certificate of the batch was forwarded to consensus or is
  pending, and every certificate it had taken before is still forwarded or pending. It never fails
  with an inconsistency of its pending state. The state is one a run of the manager reaches, and the
  verified certificates are identified by their digests and one round above their parents.\<close>

theorem certificates_not_lost:
  assumes "cm_good iter gen X K s" "set xs \<subseteq> X" "process_verified_certificates iter c gen xs s = (s', r)"
  shows "(r \<in> insert (Inr ()) (range (Inl \<circ> Pending)) \<longrightarrow> (\<forall>x\<in>set xs. taken s' (cert_digest x))) \<and>
    (\<forall>d. taken s d \<longrightarrow> taken s' d) \<and> benign_result r"
  using process_verified_inv[of X iter gen K s xs "Inr ()" c] assms
  by (simp add: cm_good_def process_verified_certificates_def benign_result_def progress_def)

theorem certificates_not_lost_witness:
  "\<exists>s'. process_verified_certificates (\<lambda>xs. xs) sample_committee [1, 2, 3] sample_sync_certs sample_manager = (s', Inl (Pending 21)) \<and>
     taken s' 21 \<and> taken s' 11"
proof -
  have "snd (process_verified_certificates (\<lambda>xs. xs) sample_committee [1, 2, 3] sample_sync_certs sample_manager) = Inl (Pending 21)"
    by code_simp
  then obtain s' where s': "process_verified_certificates (\<lambda>xs. xs) sample_committee [1, 2, 3] sample_sync_certs sample_manager = (s', Inl (Pending 21))"
    by (metis prod.collapse)
  have "cm_good (\<lambda>xs. xs) [1, 2, 3] (set sample_certs) {1, 2, 3} sample_manager"
    unfolding sample_manager_def by (rule cm_good_new[OF sample_world sample_iter _ sample_store]) simp
  from certificates_not_lost[OF this sample_sync_in s'] have "\<forall>x\<in>set sample_sync_certs. taken s' (cert_digest x)" by auto
  moreover have "cert_digest (sample_cert 2 1) = 21" "cert_digest (sample_cert 1 1) = 11" by code_simp+
  ultimately show ?thesis using s' by (auto simp: sample_sync_certs_def)
qed

text \<open>C25: no certificate waits without reason: in every state the manager can reach, a pending
  certificate misses a parent that is not in the store, and after a collection round is processed,
  which always ends, every pending certificate is above the round that follows the collection
  round. The verified certificates are assumed to be identified by their digests and to be one round
  above their parents.\<close>

theorem pending_only_for_missing_parents:
  assumes "cm_good iter gen X K s" "(cm_step iter c gen X)\<^sup>*\<^sup>* s t" "map_of (pm_pending (cm_pending t)) d = Some p"
  shows "(\<exists>q\<in>set (c_parents (pc_certificate p)). \<not> store_contains (cm_store t) q) \<and>
    (\<exists>u. process_gc_round iter c t = (u, Inr ()) \<and>
      (\<forall>d' p'. map_of (pm_pending (cm_pending u)) d' = Some p' \<longrightarrow> cm_gc_round t + 1 < c_round (pc_certificate p')))"
proof -
  have g: "cert_world X" "hash_order iter" "cm_inv X K t"
    using cm.inv_steps[OF assms(2,1)] by (auto simp: cm_good_def)
  obtain q where q: "q \<in> set (pc_missing p)"
    using mirrorD(1)[of _ _ _ _ d p] g(3) assms(3) by (cases "pc_missing p") (auto simp: cm_inv_def pm_ok_def waits_def pending_mirror_def)
  have "q \<in> set (c_parents (pc_certificate p))" using g(3) assms(3) q unfolding cm_inv_def covered_def by blast
  moreover have "\<not> store_contains (cm_store t) q" using g(3) assms(3) q unfolding cm_inv_def waiting_ok_def by blast
  moreover obtain u where u: "process_gc_round iter c t = (u, Inr ())" "cm_inv X K u"
    "\<forall>k. map_of (pm_missing (cm_pending u)) k \<noteq> None \<longrightarrow> cm_gc_round t < fst k"
    using process_gc_round_inv[OF g] by blast
  have "cm_gc_round t + 1 < c_round (pc_certificate p')" if "map_of (pm_pending (cm_pending u)) d' = Some p'" for d' p'
  proof -
    have "pending_mirror (0, 0) [] (pm_pending (cm_pending u)) (pm_missing (cm_pending u))" using u(2) by (simp add: cm_inv_def pm_ok_def)
    from mirrorD(1)[OF this that] obtain q' where "map_of (pm_missing (cm_pending u)) (c_round (pc_certificate p') - 1, q') \<noteq> None"
      by (cases "pc_missing p'") (auto simp: waits_def)
    thus ?thesis using u(3) by force
  qed
  ultimately show ?thesis using u(1) by blast
qed

theorem pending_only_for_missing_parents_witness:
  "\<exists>(s :: cert_manager) p. map_of (pm_pending (cm_pending s)) 21 = Some p \<and> (\<exists>q\<in>set (c_parents (pc_certificate p)). \<not> store_contains (cm_store s) q)"
proof -
  let ?ev = "CmCommand (ProcessVerifiedCertificates [sample_cert 2 1])"
  have "(case cm_run_step (\<lambda>xs. xs) sample_committee [1, 2, 3] ?ev sample_manager of
      (s, Inr r) \<Rightarrow> is_pending (cm_pending s) 21 | _ \<Rightarrow> False)" by code_simp
  then obtain s r where s: "cm_run_step (\<lambda>xs. xs) sample_committee [1, 2, 3] ?ev sample_manager = (s, Inr r)" "is_pending (cm_pending s) 21"
    by (auto split: prod.splits sum.splits)
  then obtain p where p: "map_of (pm_pending (cm_pending s)) 21 = Some p" by (auto simp: is_pending_def)
  have "cm_good (\<lambda>xs. xs) [1, 2, 3] (set sample_certs) {1, 2, 3} sample_manager"
    unfolding sample_manager_def by (rule cm_good_new[OF sample_world sample_iter _ sample_store]) simp
  moreover have "(cm_step (\<lambda>xs. xs) sample_committee [1, 2, 3] (set sample_certs))\<^sup>*\<^sup>* sample_manager s"
    by (rule r_into_rtranclp, rule cm_step.command[OF s(1)]) (simp add: sample_certs_def)
  ultimately show ?thesis using pending_only_for_missing_parents[OF _ _ p] p by blast
qed

section \<open>The certificate store\<close>

text \<open>Reading back from the store: in a store kept by its operations, asking for the certificates
  from a round on never reports a missing certificate; it returns exactly the indexed certificates of
  that round or later, each once, by round and then by author.\<close>

theorem after_round_complete:
  assumes "store_ok s"
  shows "\<exists>xs. after_round s r = Inr xs \<and> sorted_wrt (\<lambda>x y. (c_round x, c_origin x) < (c_round y, c_origin y)) xs \<and>
    set xs = {x. r \<le> c_round x \<and> map_of (cs_by_round s) (c_round x, c_origin x) = Some (cert_digest x) \<and> store_read s (cert_digest x) = Some x}"
proof -
  have ix: "x \<in> set (indexed_certs s) \<longleftrightarrow> map_of (cs_by_round s) (c_round x, c_origin x) = Some (cert_digest x) \<and> store_read s (cert_digest x) = Some x" for x
  proof
    assume "x \<in> set (indexed_certs s)"
    then obtain e where e: "e \<in> set (cs_by_round s)" "x = the (store_read s (snd e))" by (auto simp: indexed_certs_def)
    have "distinct (map fst (cs_by_round s))" using assms bt_sorted_distinct by (auto simp: store_ok_def store_sorted_def)
    thus "map_of (cs_by_round s) (c_round x, c_origin x) = Some (cert_digest x) \<and> store_read s (cert_digest x) = Some x"
      using index_entry[OF assms e(1)] e by (metis map_of_eq_Some_iff option.sel prod.collapse)
  next
    assume "map_of (cs_by_round s) (c_round x, c_origin x) = Some (cert_digest x) \<and> store_read s (cert_digest x) = Some x"
    thus "x \<in> set (indexed_certs s)" by (force simp: indexed_certs_def dest: map_of_SomeD)
  qed
  have "after_round s r = Inr (filter (\<lambda>x. r \<le> c_round x) (indexed_certs s))" by (rule after_round_filter[OF assms])
  moreover have "sorted_wrt (\<lambda>x y. (c_round x, c_origin x) < (c_round y, c_origin y)) (filter (\<lambda>x. r \<le> c_round x) (indexed_certs s))"
    by (rule sorted_wrt_filter[OF indexed_certs_sorted[OF assms]])
  ultimately show ?thesis using ix by auto
qed

definition sample_cert_store :: cert_store where
  "sample_cert_store = store_write_all sample_certs cert_store_empty"

lemma sample_cert_store_ok: "store_ok sample_cert_store"
  unfolding sample_cert_store_def
  by (rule store_ok_write_all[OF store_ok_empty digests_identify_mono[of "set sample_certs"]])
    (use sample_world sample_store(2)[of "{}"] in \<open>auto simp: cert_world_def\<close>)

theorem after_round_complete_witness:
  "\<exists>xs. after_round sample_cert_store 3 = Inr xs \<and> sorted_wrt (\<lambda>x y. (c_round x, c_origin x) < (c_round y, c_origin y)) xs \<and> xs \<noteq> []"
proof -
  have "(case after_round sample_cert_store 3 of Inr xs \<Rightarrow> xs \<noteq> [] | _ \<Rightarrow> False)" by code_simp
  thus ?thesis using after_round_complete[OF sample_cert_store_ok, of 3] by (auto split: sum.splits)
qed

text \<open>A certificate that is written can be read back by its digest and by its author and round, and
  every other certificate stays unless its round is more than sixty-four rounds below the one
  written, in which case its round is dropped from the index.\<close>

theorem write_then_read:
  assumes "store_ok s" "origin_index_ok s" "digests_identify (insert x (stored_certs s))"
  shows "store_read (store_write x s) (cert_digest x) = Some x \<and> read_by_index (store_write x s) (c_origin x) (c_round x) = Some x \<and>
    (\<forall>d y. store_read s d = Some y \<longrightarrow> d \<noteq> cert_digest x \<longrightarrow> c_round x \<le> c_round y + 64 \<longrightarrow> store_read (store_write x s) d = Some y) \<and>
    (\<forall>r a. r + 64 < c_round x \<longrightarrow> map_of (cs_by_round (store_write x s)) (r, a) = None)"
proof -
  have ok: "store_ok (save_cert x s)" by (rule store_ok_save[OF assms(1,3)])
  hence so: "store_sorted (save_cert x s)" by (simp add: store_ok_def)
  have rd: "store_read (store_write x s) (cert_digest x) = Some x"
    unfolding store_write_def by (rule store_read_kept[OF ok]) (simp_all add: store_read_save)
  have "origin_index_ok (store_write x s)"
    unfolding store_write_def by (rule origin_index_gc[OF so origin_index_save[OF assms(2)]])
  moreover have "map_of (cs_by_round (store_write x s)) (c_round x, c_origin x) = Some (cert_digest x)"
    unfolding store_write_def by (simp add: round_index_gc[OF so]) (simp add: save_cert_def map_simps)
  ultimately have "read_by_index (store_write x s) (c_origin x) (c_round x) = Some x"
    using rd by (simp add: read_by_index_def origin_index_ok_def)
  moreover have "store_read (store_write x s) d = Some y" if "store_read s d = Some y" "d \<noteq> cert_digest x" "c_round x \<le> c_round y + 64" for d y
    unfolding store_write_def by (rule store_read_kept[OF ok]) (use that in \<open>simp_all add: store_read_save ROUNDS_TO_KEEP_def\<close>)
  moreover have "map_of (cs_by_round (store_write x s)) (r, a) = None" if "r + 64 < c_round x" for r a
    unfolding store_write_def using that by (simp add: round_index_gc[OF so] ROUNDS_TO_KEEP_def)
  ultimately show ?thesis using rd by blast
qed

theorem write_then_read_witness:
  "store_read (store_write (sample_cert 70 1) sample_cert_store) 701 = Some (sample_cert 70 1) \<and>
   map_of (cs_by_round (store_write (sample_cert 70 1) sample_cert_store)) (1, 2) = None"
proof -
  have "origin_index_ok sample_cert_store"
    unfolding sample_cert_store_def store_write_all_def
    by (rule origin_index_gc[OF _ origin_index_save_all[OF origin_index_empty]])
      (use store_ok_save_all[OF store_ok_empty, of sample_certs] sample_world sample_store(2)[of "{}"] in \<open>auto simp: cert_world_def store_ok_def\<close>)
  moreover have "stored_certs sample_cert_store \<subseteq> set sample_certs"
    using store_read_write_all[of cert_store_empty sample_certs] store_ok_empty
    unfolding sample_cert_store_def stored_certs_def ran_def by (auto simp: store_ok_def store_read_def cert_store_empty_def)
  moreover have "digests_identify (insert (sample_cert 70 1) (set sample_certs))" unfolding digests_identify_def by code_simp
  ultimately have "store_read (store_write (sample_cert 70 1) sample_cert_store) (cert_digest (sample_cert 70 1)) = Some (sample_cert 70 1) \<and>
      (\<forall>r a. r + 64 < c_round (sample_cert 70 1) \<longrightarrow> map_of (cs_by_round (store_write (sample_cert 70 1) sample_cert_store)) (r, a) = None)"
    using write_then_read[OF sample_cert_store_ok, of "sample_cert 70 1"] digests_identify_mono[of "insert (sample_cert 70 1) (set sample_certs)"] by blast
  moreover have "cert_digest (sample_cert 70 1) = 701" "c_round (sample_cert 70 1) = 70" by code_simp+
  ultimately show ?thesis by simp
qed

text \<open>The last round of an author is the highest round among the author's entries in the index, and
  there is none exactly when the index has no entry of the author.\<close>

theorem last_round_number_is_max:
  assumes "bt_sorted (cs_by_origin s)" "\<forall>e\<in>set (cs_by_origin s). snd (fst e) < 2 ^ 32 - 1"
  shows "last_round_number s a =
    (if \<exists>r. map_of (cs_by_origin s) (a, r) \<noteq> None then Some (Max {r. map_of (cs_by_origin s) (a, r) \<noteq> None}) else None)"
  unfolding last_round_number_def by (rule last_before_origin[OF assms(1)]) (use assms(2) in \<open>simp add: u32_max_def\<close>)

theorem last_round_number_is_max_witness:
  "last_round_number sample_cert_store 2 = Some (Max {r. map_of (cs_by_origin sample_cert_store) (2, r) \<noteq> None})"
proof -
  have "bt_sorted (cs_by_origin sample_cert_store)" "\<forall>e\<in>set (cs_by_origin sample_cert_store). snd (fst e) < 2 ^ 32 - 1"
    "map_of (cs_by_origin sample_cert_store) (2, 3) \<noteq> None" unfolding bt_sorted_def by code_simp+
  thus ?thesis using last_round_number_is_max[of sample_cert_store 2] by (auto split: if_splits)
qed

end
