(* ===== verification/Cert_Validator.thy ===== *)
theory Cert_Validator
  imports Cert_Manager
begin

text \<open>
  The front of the state synchronizer (crates/consensus/primary/src/state_sync/cert_validator.rs and
  mod.rs): a certificate of this node or of a peer is checked and handed to the certificate
  manager; a collection that was fetched is verified in chunks, where only the certificates that no
  other one of the collection names as a parent, and those at periodic rounds, have their
  signatures checked. The manager takes the command in a turn of its own loop, \<^const>\<open>cm_run_step\<close>.
\<close>

section \<open>Configuration and state\<close>

record sync_config =
  max_skip_rounds :: nat
  max_diff_rounds :: round
  max_proposed_header_age :: round
  max_time_drift :: timestamp
  max_missing_certs :: nat
  verification_interval :: round
  verification_chunk_size :: nat

record node =
  nd_crypto :: crypto
  nd_committee :: committee
  nd_workers :: worker_cache
  nd_genesis :: "(digest, certificate) hash_map"
  nd_self :: authority_id
  nd_sign :: "digest \<Rightarrow> signature"
  nd_sync :: sync_config
  nd_gc_depth :: round
  nd_iter :: "digest list \<Rightarrow> digest list"

text \<open>
  The store, the two shared rounds and the channels are those of the manager. The tasks that are
  spawned to fetch the batches of a header are recorded with the age they accept.
\<close>

record validator =
  sv_manager :: cert_manager
  sv_manager_open :: bool
  sv_highest_received :: round
  sv_sync_tasks :: "(header \<times> round) list"

type_synonym 'a sv_result = "validator \<times> (cert_manager_error, 'a) result"

definition state_sync_new :: "cert_store \<Rightarrow> certificate option \<Rightarrow> validator" where
  "state_sync_new st latest_leader =
     \<lparr> sv_manager = cert_manager_new 0 (case latest_leader of Some x \<Rightarrow> c_round x | None \<Rightarrow> 0) st,
       sv_manager_open = True, sv_highest_received = 0, sv_sync_tasks = [] \<rparr>"

section \<open>Single certificates\<close>

definition validate_and_verify :: "node \<Rightarrow> round \<Rightarrow> certificate \<Rightarrow> (cert_manager_error, certificate) result" where
  "validate_and_verify nd gc x =
     (if c_round x < gc then Inl (MCertificate (CTooOld (cert_digest x) (c_round x) gc))
      else case cert_verify (nd_crypto nd) (nd_committee nd) (nd_workers nd) x of
        Inl e \<Rightarrow> Inl (MCertificate e)
      | Inr y \<Rightarrow> Inr y)"

text \<open>
  The loop over the certificates before they are forwarded: each one starts a task that fetches its
  batches, and the first one that is too far ahead ends the call, after the fetcher was told.
\<close>

fun forward_check :: "node \<Rightarrow> round \<Rightarrow> certificate list \<Rightarrow> validator \<Rightarrow> unit sv_result" where
  "forward_check nd processed [] s = (s, Inr ())"
| "forward_check nd processed (x # xs) s =
     (let s1 = s\<lparr> sv_sync_tasks := sv_sync_tasks s @ [(c_header x, nd_gc_depth nd - 1)] \<rparr>; m = sv_manager s1
      in if u32_add processed (max_diff_rounds (nd_sync nd)) < c_round x then
           (if cm_fetcher_open m
            then (s1\<lparr> sv_manager := m\<lparr> cm_to_fetcher := cm_to_fetcher m @ [Ancestors x] \<rparr> \<rparr>,
                  Inl (MCertificate (CTooNew (cert_digest x) (c_round x) processed)))
            else (s1, Inl (MTNSend ''certificate fetcher'')))
         else forward_check nd processed xs s1)"

text \<open>The command and the reply of the manager; a manager that ends drops the sender of the reply.\<close>

definition send_verified :: "node \<Rightarrow> certificate list \<Rightarrow> validator \<Rightarrow> unit sv_result" where
  "send_verified nd xs s =
     (if \<not> sv_manager_open s then (s, Inl (MTNSend ''certificate manager''))
      else case cm_run_step (nd_iter nd) (nd_committee nd) (map fst (nd_genesis nd))
                  (CmCommand (ProcessVerifiedCertificates xs)) (sv_manager s) of
        (m, Inr (Processed r)) \<Rightarrow> (s\<lparr> sv_manager := m \<rparr>, r)
      | (m, Inr _) \<Rightarrow> (s\<lparr> sv_manager := m \<rparr>, Inl CertificateManagerOneshot)
      | (m, Inl _) \<Rightarrow> (s\<lparr> sv_manager := m, sv_manager_open := False \<rparr>, Inl CertificateManagerOneshot))"

definition forward_verified_certs :: "node \<Rightarrow> round \<Rightarrow> certificate list \<Rightarrow> validator \<Rightarrow> unit sv_result" where
  "forward_verified_certs nd highest xs s =
     (let received = max (sv_highest_received s) highest;
          s1 = s\<lparr> sv_highest_received := received \<rparr>;
          m = sv_manager s
      in if \<not> cm_proposer_open m then (s1, Inl (MTNSend ''parents''))
         else let s2 = s1\<lparr> sv_manager := m\<lparr> cm_to_proposer := cm_to_proposer m @ [([], received - 1)] \<rparr> \<rparr>
              in case forward_check nd (cm_highest_processed m) xs s2 of
                   (s3, Inl e) \<Rightarrow> (s3, Inl e)
                 | (s3, Inr _) \<Rightarrow> send_verified nd xs s3)"

definition sv_process_certificate :: "node \<Rightarrow> certificate \<Rightarrow> bool \<Rightarrow> validator \<Rightarrow> unit sv_result" where
  "sv_process_certificate nd x external s =
     (if store_contains (cm_store (sv_manager s)) (cert_digest x) then (s, Inr ())
      else case (if external then validate_and_verify nd (cm_gc_round (sv_manager s)) x else Inr x) of
        Inl e \<Rightarrow> (s, Inl e)
      | Inr y \<Rightarrow> forward_verified_certs nd (c_round y) [y] s)"

definition process_own_certificate :: "node \<Rightarrow> certificate \<Rightarrow> validator \<Rightarrow> unit sv_result" where
  "process_own_certificate nd x s = sv_process_certificate nd x False s"

definition process_peer_certificate :: "node \<Rightarrow> certificate \<Rightarrow> validator \<Rightarrow> unit sv_result" where
  "process_peer_certificate nd x s = sv_process_certificate nd x True s"

section \<open>Fetched collections\<close>

text \<open>A remainder by zero and chunks of size zero abort the task: the result is then \<^const>\<open>None\<close>.\<close>

definition requires_direct_verification :: "node \<Rightarrow> digest list \<Rightarrow> certificate \<Rightarrow> bool option" where
  "requires_direct_verification nd all_parents x =
     (if cert_digest x \<notin> set all_parents then Some True
      else if verification_interval (nd_sync nd) = 0 then None
      else Some (c_round x mod verification_interval (nd_sync nd) = 0))"

definition mark_verified_indirectly :: "certificate \<Rightarrow> (cert_manager_error, certificate) result" where
  "mark_verified_indirectly x =
     (case aggregated_signature x of
        None \<Rightarrow> Inl (MCertificate RecoverBlsAggregateSignatureBytes)
      | Some sig \<Rightarrow> Inr (x\<lparr> c_state := VerifiedIndirectly sig \<rparr>))"

fun classify_loop ::
  "node \<Rightarrow> digest list \<Rightarrow> nat \<Rightarrow> certificate list
    \<Rightarrow> (cert_manager_error, certificate list \<times> (nat \<times> certificate) list) result option" where
  "classify_loop nd ps i [] = Some (Inr ([], []))"
| "classify_loop nd ps i (x # xs) =
     (case requires_direct_verification nd ps x of
        None \<Rightarrow> None
      | Some True \<Rightarrow>
          (case classify_loop nd ps (i + 1) xs of
             Some (Inr (cs, ds)) \<Rightarrow> Some (Inr (x # cs, (i, x) # ds)) | r \<Rightarrow> r)
      | Some False \<Rightarrow>
          (case mark_verified_indirectly x of
             Inl e \<Rightarrow> Some (Inl e)
           | Inr y \<Rightarrow>
               (case classify_loop nd ps (i + 1) xs of
                  Some (Inr (cs, ds)) \<Rightarrow> Some (Inr (y # cs, ds)) | r \<Rightarrow> r)))"

definition classify_certificates_for_verification ::
  "node \<Rightarrow> certificate list
    \<Rightarrow> (cert_manager_error, certificate list \<times> (nat \<times> certificate) list) result option" where
  "classify_certificates_for_verification nd xs = classify_loop nd (concat (map c_parents xs)) 0 xs"

function chunks :: "nat \<Rightarrow> 'a list \<Rightarrow> 'a list list" where
  "chunks n xs = (if n = 0 \<or> xs = [] then [] else take n xs # chunks n (drop n xs))"
  by pat_completeness auto
termination
  by (relation "measure (\<lambda>(n, xs). length xs)") auto

definition verification_task ::
  "node \<Rightarrow> round \<Rightarrow> (nat \<times> certificate) list \<Rightarrow> (cert_manager_error, (nat \<times> certificate) list) result" where
  "verification_task nd gc es =
     try_map (\<lambda>e. case validate_and_verify nd gc (snd e) of Inl err \<Rightarrow> Inl err | Inr y \<Rightarrow> Inr (fst e, y)) es"

definition verify_certificate_chunk ::
  "node \<Rightarrow> round \<Rightarrow> (nat \<times> certificate) list \<Rightarrow> (cert_manager_error, (nat \<times> certificate) list) result option" where
  "verify_certificate_chunk nd gc es =
     (if verification_chunk_size (nd_sync nd) = 0 then None
      else Some (case try_map (verification_task nd gc) (chunks (verification_chunk_size (nd_sync nd)) es) of
        Inl e \<Rightarrow> Inl e | Inr yss \<Rightarrow> Inr (concat yss)))"

definition verify_collection ::
  "node \<Rightarrow> round \<Rightarrow> certificate list \<Rightarrow> (cert_manager_error, certificate list) result option" where
  "verify_collection nd gc xs =
     (if xs = [] then Some (Inr [])
      else case classify_certificates_for_verification nd xs of
        None \<Rightarrow> None
      | Some (Inl e) \<Rightarrow> Some (Inl e)
      | Some (Inr (cs, es)) \<Rightarrow>
          (case verify_certificate_chunk nd gc es of
             None \<Rightarrow> None
           | Some (Inl e) \<Rightarrow> Some (Inl e)
           | Some (Inr ds) \<Rightarrow> Some (Inr (fold (\<lambda>(i, y) cs. cs[i := y]) ds cs))))"

definition process_fetched_certificates_in_parallel ::
  "node \<Rightarrow> certificate list \<Rightarrow> validator \<Rightarrow> unit sv_result option" where
  "process_fetched_certificates_in_parallel nd xs s =
     (case verify_collection nd (cm_gc_round (sv_manager s)) xs of
        None \<Rightarrow> None
      | Some (Inl e) \<Rightarrow> Some (s, Inl e)
      | Some (Inr ys) \<Rightarrow> Some (forward_verified_certs nd (fold (\<lambda>x r. max r (c_round x)) ys 0) ys s))"

section \<open>Verification in chunks is verification in order\<close>

lemma try_map_append:
  "try_map f (xs @ ys) =
     (case try_map f xs of Inl e \<Rightarrow> Inl e | Inr us \<Rightarrow>
       (case try_map f ys of Inl e \<Rightarrow> Inl e | Inr vs \<Rightarrow> Inr (us @ vs)))"
  by (induction xs) (auto split: sum.splits)

declare chunks.simps [simp del]

lemma try_map_chunks:
  assumes "n > 0"
  shows "(case try_map (try_map f) (chunks n xs) of Inl e \<Rightarrow> Inl e | Inr yss \<Rightarrow> Inr (concat yss)) = try_map f xs"
  using assms
proof (induction n xs rule: chunks.induct)
  case (1 n xs)
  show ?case
  proof (cases "xs = []")
    case False
    have "try_map f xs = try_map f (take n xs @ drop n xs)" by simp
    also have "\<dots> = (case try_map f (take n xs) of Inl e \<Rightarrow> Inl e | Inr us \<Rightarrow>
       (case try_map f (drop n xs) of Inl e \<Rightarrow> Inl e | Inr vs \<Rightarrow> Inr (us @ vs)))" by (rule try_map_append)
    finally show ?thesis
      using 1 False by (cases "try_map (try_map f) (chunks n (drop n xs))") (auto simp: chunks.simps[of n xs] split: sum.splits)
  qed (simp add: chunks.simps)
qed

lemma verify_certificate_chunk_alt:
  "verification_chunk_size (nd_sync nd) > 0 \<Longrightarrow> verify_certificate_chunk nd gc es = Some (verification_task nd gc es)"
proof -
  assume "verification_chunk_size (nd_sync nd) > 0"
  moreover have "verification_task nd gc = try_map (\<lambda>e. case validate_and_verify nd gc (snd e) of Inl err \<Rightarrow> Inl err | Inr y \<Rightarrow> Inr (fst e, y))"
    by (rule ext) (simp add: verification_task_def)
  ultimately show ?thesis by (simp add: verify_certificate_chunk_def try_map_chunks)
qed

section \<open>What the verified collection consists of\<close>

text \<open>The entry at each position is to be verified, or is marked as verified through its children.\<close>

definition classified :: "node \<Rightarrow> digest list \<Rightarrow> certificate \<Rightarrow> certificate \<Rightarrow> bool \<Rightarrow> bool" where
  "classified nd ps x y direct =
     (requires_direct_verification nd ps x = Some direct \<and> (if direct then y = x else mark_verified_indirectly x = Inr y))"

lemma classify_loop_cases:
  assumes "classify_loop nd ps i (x # xs) = Some (Inr (cs, ds))"
  obtains y cs' ds' direct where "cs = y # cs'" "classify_loop nd ps (i + 1) xs = Some (Inr (cs', ds'))"
    "ds = (if direct then (i, x) # ds' else ds')" "classified nd ps x y direct"
  using assms by (auto simp: classified_def split: option.splits sum.splits bool.splits prod.splits)

lemma classify_loop_spec:
  assumes "classify_loop nd ps i xs = Some (Inr (cs, ds))"
  shows "length cs = length xs" "distinct (map fst ds)"
    "\<And>j x. (j, x) \<in> set ds \<Longrightarrow> i \<le> j \<and> j < i + length xs \<and> x = xs ! (j - i)"
    "\<And>j. j < length xs \<Longrightarrow> classified nd ps (xs ! j) (cs ! j) (i + j \<in> fst ` set ds)"
proof -
  have "length cs = length xs \<and> distinct (map fst ds) \<and>
    (\<forall>j x. (j, x) \<in> set ds \<longrightarrow> i \<le> j \<and> j < i + length xs \<and> x = xs ! (j - i)) \<and>
    (\<forall>j<length xs. classified nd ps (xs ! j) (cs ! j) (i + j \<in> fst ` set ds))"
    using assms
  proof (induction xs arbitrary: i cs ds)
    case (Cons x xs)
    obtain y cs' ds' direct where e: "cs = y # cs'" "classify_loop nd ps (i + 1) xs = Some (Inr (cs', ds'))"
      "ds = (if direct then (i, x) # ds' else ds')" "classified nd ps x y direct"
      using Cons.prems by (rule classify_loop_cases)
    note IH = Cons.IH[OF e(2)]
    have new: "i \<notin> fst ` set ds'" using IH by fastforce
    have rng: "i \<le> j \<and> j < i + length (x # xs) \<and> z = (x # xs) ! (j - i)" if "(j, z) \<in> set ds" for j z
    proof (cases "(j, z) \<in> set ds'")
      case True
      hence "i + 1 \<le> j \<and> j < i + 1 + length xs \<and> z = xs ! (j - (i + 1))" using IH by blast
      thus ?thesis by (auto simp: nth_Cons')
    qed (use that e(3) in \<open>auto split: if_splits\<close>)
    have cl: "classified nd ps ((x # xs) ! j) (cs ! j) (i + j \<in> fst ` set ds)" if "j < length (x # xs)" for j
    proof (cases j)
      case 0
      thus ?thesis using e new by (cases direct) auto
    next
      case (Suc k)
      hence "classified nd ps (xs ! k) (cs' ! k) (i + 1 + k \<in> fst ` set ds')" using IH that by simp
      moreover have "(i + 1 + k \<in> fst ` set ds') = (i + j \<in> fst ` set ds)" using e(3) Suc by auto
      ultimately show ?thesis using Suc e(1) by simp
    qed
    show ?case using IH e new rng cl by auto
  qed auto
  thus "length cs = length xs" "distinct (map fst ds)"
    "\<And>j x. (j, x) \<in> set ds \<Longrightarrow> i \<le> j \<and> j < i + length xs \<and> x = xs ! (j - i)"
    "\<And>j. j < length xs \<Longrightarrow> classified nd ps (xs ! j) (cs ! j) (i + j \<in> fst ` set ds)" by blast+
qed

lemma fold_updates_length: "length (fold (\<lambda>(i, y) cs. cs[i := y]) ds cs) = length cs"
  by (induction ds arbitrary: cs) (auto split: prod.splits)

lemma fold_updates_other: "j \<notin> fst ` set ds \<Longrightarrow> fold (\<lambda>(i, y) cs. cs[i := y]) ds cs ! j = cs ! j"
  by (induction ds arbitrary: cs) (auto split: prod.splits)

lemma fold_updates_nth:
  "distinct (map fst ds) \<Longrightarrow> (j, y) \<in> set ds \<Longrightarrow> j < length cs \<Longrightarrow> fold (\<lambda>(i, y) cs. cs[i := y]) ds cs ! j = y"
proof (induction ds arbitrary: cs)
  case (Cons d ds)
  obtain i z where d: "d = (i, z)" by force
  show ?case
  proof (cases "(j, y) = d")
    case True
    have "j \<notin> fst ` set ds" using Cons.prems(1) arg_cong[OF True, of fst] by simp
    thus ?thesis using True d Cons.prems(3) fold_updates_other[of j ds "cs[j := y]"] by simp
  qed (use Cons d in auto)
qed simp

lemma verification_task_spec:
  assumes "verification_task nd gc es = Inr ds"
  shows "map fst ds = map fst es"
    "\<And>j y. (j, y) \<in> set ds \<Longrightarrow> \<exists>x. (j, x) \<in> set es \<and> validate_and_verify nd gc x = Inr y"
proof -
  have r: "list_all2 (\<lambda>e d. fst d = fst e \<and> validate_and_verify nd gc (snd e) = Inr (snd d)) es ds"
    using assms unfolding verification_task_def try_map_Inr_iff
    by (rule list_all2_mono) (auto split: sum.splits)
  show "map fst ds = map fst es" using r by (induction rule: list_all2_induct) auto
  fix j y assume "(j, y) \<in> set ds"
  then obtain k where k: "k < length ds" "ds ! k = (j, y)" by (auto simp: in_set_conv_nth)
  hence "fst (es ! k) = j \<and> validate_and_verify nd gc (snd (es ! k)) = Inr y" "k < length es"
    using r by (auto simp: list_all2_conv_all_nth)
  thus "\<exists>x. (j, x) \<in> set es \<and> validate_and_verify nd gc x = Inr y" using nth_mem by (metis prod.collapse)
qed

lemma verify_collection_nth:
  assumes "verify_collection nd gc xs = Some (Inr ys)"
  shows "length ys = length xs"
    "\<And>j. j < length xs \<Longrightarrow>
      (requires_direct_verification nd (concat (map c_parents xs)) (xs ! j) = Some True \<and>
         validate_and_verify nd gc (xs ! j) = Inr (ys ! j)) \<or>
      (requires_direct_verification nd (concat (map c_parents xs)) (xs ! j) = Some False \<and>
         mark_verified_indirectly (xs ! j) = Inr (ys ! j))"
proof -
  have "length ys = length xs \<and> (\<forall>j<length xs.
      (requires_direct_verification nd (concat (map c_parents xs)) (xs ! j) = Some True \<and>
         validate_and_verify nd gc (xs ! j) = Inr (ys ! j)) \<or>
      (requires_direct_verification nd (concat (map c_parents xs)) (xs ! j) = Some False \<and>
         mark_verified_indirectly (xs ! j) = Inr (ys ! j)))"
  proof (cases "xs = []")
    case False
    let ?ps = "concat (map c_parents xs)"
    obtain cs es ds where c: "classify_loop nd ?ps 0 xs = Some (Inr (cs, es))"
      and v: "verify_certificate_chunk nd gc es = Some (Inr ds)"
      and ys: "ys = fold (\<lambda>(i, y) cs. cs[i := y]) ds cs"
      using assms False
      by (auto simp: verify_collection_def classify_certificates_for_verification_def split: option.splits sum.splits)
    have "verification_chunk_size (nd_sync nd) > 0" using v by (auto simp: verify_certificate_chunk_def split: if_splits)
    hence t: "verification_task nd gc es = Inr ds" using v verify_certificate_chunk_alt by simp
    note sp = classify_loop_spec[OF c] and ts = verification_task_spec[OF t]
    have keys: "fst ` set ds = fst ` set es" using ts(1) by (metis list.set_map)
    have dist: "distinct (map fst ds)" using ts(1) sp(2) by simp
    have "(requires_direct_verification nd ?ps (xs ! j) = Some True \<and> validate_and_verify nd gc (xs ! j) = Inr (ys ! j)) \<or>
      (requires_direct_verification nd ?ps (xs ! j) = Some False \<and> mark_verified_indirectly (xs ! j) = Inr (ys ! j))"
      if j: "j < length xs" for j
    proof (cases "j \<in> fst ` set es")
      case True
      then obtain y where y: "(j, y) \<in> set ds" using keys by force
      then obtain x where "(j, x) \<in> set es" "validate_and_verify nd gc x = Inr y" using ts(2) by blast
      moreover from this have "x = xs ! j" using sp(3) by fastforce
      moreover have "ys ! j = y" using fold_updates_nth[OF dist y] sp(1) j ys by simp
      ultimately show ?thesis using sp(4)[OF j] True by (simp add: classified_def)
    next
      case False
      hence "ys ! j = cs ! j" using fold_updates_other keys ys by metis
      thus ?thesis using sp(4)[OF j] False by (simp add: classified_def)
    qed
    moreover have "length ys = length xs" using sp(1) ys fold_updates_length by metis
    ultimately show ?thesis by blast
  qed (use assms in \<open>simp add: verify_collection_def\<close>)
  thus "length ys = length xs" "\<And>j. j < length xs \<Longrightarrow>
      (requires_direct_verification nd (concat (map c_parents xs)) (xs ! j) = Some True \<and>
         validate_and_verify nd gc (xs ! j) = Inr (ys ! j)) \<or>
      (requires_direct_verification nd (concat (map c_parents xs)) (xs ! j) = Some False \<and>
         mark_verified_indirectly (xs ! j) = Inr (ys ! j))" by blast+
qed

lemma validate_and_verify_same:
  "validate_and_verify nd gc x = Inr y \<Longrightarrow> c_header y = c_header x \<and> gc \<le> c_round x \<and>
     cert_verify (nd_crypto nd) (nd_committee nd) (nd_workers nd) x = Inr y"
  by (auto simp: validate_and_verify_def cert_verify_def verify_signature_def Let_def split: if_splits sum.splits prod.splits sig_state.splits)

lemma mark_verified_indirectly_same:
  "mark_verified_indirectly x = Inr y \<Longrightarrow> c_header y = c_header x \<and> (\<exists>sig. c_state y = VerifiedIndirectly sig)"
  by (auto simp: mark_verified_indirectly_def split: option.splits)

lemma verify_collection_header:
  assumes "verify_collection nd gc xs = Some (Inr ys)" "j < length xs" "ys ! j = y"
  shows "c_header y = c_header (xs ! j)"
proof -
  have "validate_and_verify nd gc (xs ! j) = Inr y \<or> mark_verified_indirectly (xs ! j) = Inr y"
    using verify_collection_nth(2)[OF assms(1,2)] unfolding assms(3) by (elim disjE conjE) (rule disjI1, assumption, rule disjI2)
  thus ?thesis by (elim disjE) (drule validate_and_verify_same, erule conjunct1, drule mark_verified_indirectly_same, erule conjunct1)
qed

text \<open>
  A hash cannot be part of the data it is computed from: the digests that a certificate names as
  parents are older than its own, in some order of the digests.
\<close>

definition hash_acyclic :: "certificate set \<Rightarrow> bool" where
  "hash_acyclic X = (\<exists>age :: digest \<Rightarrow> nat. \<forall>x\<in>X. \<forall>p\<in>set (c_parents x). age p < age (cert_digest x))"

text \<open>One certificate of a collection is an ancestor of another, through certificates of the collection.\<close>

inductive ancestor_in :: "certificate list \<Rightarrow> certificate \<Rightarrow> certificate \<Rightarrow> bool" for xs where
  parent: "y \<in> set xs \<Longrightarrow> cert_digest x \<in> set (c_parents y) \<Longrightarrow> ancestor_in xs x y"
| further: "y \<in> set xs \<Longrightarrow> cert_digest x \<in> set (c_parents y) \<Longrightarrow> ancestor_in xs y z \<Longrightarrow> ancestor_in xs x z"

lemma not_direct_has_child:
  "requires_direct_verification nd (concat (map c_parents xs)) x = Some False \<Longrightarrow>
     \<exists>y\<in>set xs. cert_digest x \<in> set (c_parents y)"
  by (auto simp: requires_direct_verification_def split: if_splits)

lemma ancestor_of_direct:
  assumes "hash_acyclic (set xs)" "x \<in> set xs"
    and total: "\<And>y. y \<in> set xs \<Longrightarrow> direct y \<or> (\<exists>z\<in>set xs. cert_digest y \<in> set (c_parents z))"
  shows "direct x \<or> (\<exists>z\<in>set xs. direct z \<and> ancestor_in xs x z)"
proof -
  obtain age :: "digest \<Rightarrow> nat" where age: "\<And>x p. x \<in> set xs \<Longrightarrow> p \<in> set (c_parents x) \<Longrightarrow> age p < age (cert_digest x)"
    using assms(1) unfolding hash_acyclic_def by blast
  define top where "top = Max ((\<lambda>x. age (cert_digest x)) ` set xs)"
  have le: "age (cert_digest y) \<le> top" if "y \<in> set xs" for y unfolding top_def using that by (intro Max_ge) auto
  show ?thesis using assms(2)
  proof (induction "top - age (cert_digest x)" arbitrary: x rule: less_induct)
    case less
    consider "direct x" | z where "z \<in> set xs" "cert_digest x \<in> set (c_parents z)" using total[OF less.prems] by blast
    thus ?case
    proof cases
      case 2
      have "top - age (cert_digest z) < top - age (cert_digest x)" using age[OF 2] le[OF 2(1)] by linarith
      from less.hyps[OF this 2(1)] show ?thesis using 2 ancestor_in.intros[of _ xs x] by blast
    qed blast
  qed
qed

section \<open>What can reach the manager\<close>

text \<open>
  A certificate is backed when it passed verification with the signatures it arrived with, or when a
  backed certificate names it as a parent: the quorum that signed the child vouches for it.
\<close>

inductive backed :: "node \<Rightarrow> certificate \<Rightarrow> bool" for nd where
  signed: "c_state x0 = Unverified sig \<Longrightarrow> cert_verify (nd_crypto nd) (nd_committee nd) (nd_workers nd) x0 = Inr x \<Longrightarrow> backed nd x"
| vouched: "backed nd y \<Longrightarrow> cert_digest x \<in> set (c_parents y) \<Longrightarrow> backed nd x"

text \<open>The certificates with a header of a set, in any state of verification.\<close>

definition certs_of :: "header set \<Rightarrow> certificate set" where
  "certs_of H = {x. c_header x \<in> H}"

definition backed_in :: "node \<Rightarrow> header set \<Rightarrow> certificate set" where
  "backed_in nd H = {x \<in> certs_of H. backed nd x}"

lemma cert_world_mono: "cert_world X \<Longrightarrow> Y \<subseteq> X \<Longrightarrow> cert_world Y"
  unfolding cert_world_def digests_identify_def parent_rounds_def by blast

lemma cert_digest_same: "c_header x = c_header y \<Longrightarrow> cert_digest x = cert_digest y"
  by (simp add: cert_digest_def)

lemma verify_collection_backed:
  assumes "verify_collection nd gc xs = Some (Inr ys)" "hash_acyclic (set xs)"
    and "\<forall>x\<in>set xs. \<exists>sig. c_state x = Unverified sig" "y \<in> set ys"
  shows "backed nd y"
proof -
  note nth = verify_collection_nth[OF assms(1)]
  define direct where "direct x = (\<exists>z. validate_and_verify nd gc x = Inr z)" for x
  obtain j where j: "j < length xs" "ys ! j = y" using assms(4) nth(1) by (metis in_set_conv_nth)
  have signed: "backed nd z" if "x \<in> set xs" "validate_and_verify nd gc x = Inr z" for x z
    using that assms(3) validate_and_verify_same backed.signed by blast
  have up: "direct x \<or> (\<exists>z\<in>set xs. cert_digest x \<in> set (c_parents z))" if x: "x \<in> set xs" for x
  proof -
    obtain k where k: "k < length xs" "xs ! k = x" using x by (metis in_set_conv_nth)
    thus ?thesis using nth(2)[of k] not_direct_has_child[of nd xs x] unfolding direct_def by blast
  qed
  have hdr: "c_header y = c_header (xs ! j)" by (rule verify_collection_header[OF assms(1) j])
  consider "validate_and_verify nd gc (xs ! j) = Inr y" | "requires_direct_verification nd (concat (map c_parents xs)) (xs ! j) = Some False"
    using nth(2)[OF j(1)] j(2) by blast
  thus ?thesis
  proof cases
    case 1
    thus ?thesis by (rule signed[OF nth_mem[OF j(1)]])
  next
    case 2
    then obtain c where c: "c \<in> set xs" "cert_digest (xs ! j) \<in> set (c_parents c)" using not_direct_has_child by blast
    have parent: "backed nd y" if "backed nd c'" "c_header c' = c_header c" for c'
      using backed.vouched[OF that(1), of y] c(2) that(2) cert_digest_same[OF hdr] by simp
    have "direct c \<or> (\<exists>z\<in>set xs. direct z \<and> ancestor_in xs c z)" by (rule ancestor_of_direct[OF assms(2) c(1) up])
    then obtain z z' where z: "z \<in> set xs" "validate_and_verify nd gc z = Inr z'" "c = z \<or> ancestor_in xs c z" unfolding direct_def using c(1) by blast
    have z': "backed nd z'" "c_header z' = c_header z" using signed[OF z(1,2)] validate_and_verify_same[OF z(2)] by auto
    show ?thesis
    proof (cases "c = z")
      case True
      thus ?thesis using parent z' by simp
    next
      case False
      hence "ancestor_in xs c z" using z(3) by simp
      hence "backed nd c" using z'
      proof (induction rule: ancestor_in.induct)
        case (parent y x)
        thus ?case using backed.vouched[of nd z' x] by simp
      next
        case (further y x z)
        thus ?case using backed.vouched[of nd y x] by simp
      qed
      thus ?thesis using parent by simp
    qed
  qed
qed

section \<open>The validator keeps the invariant of the manager\<close>

definition sv_good :: "node \<Rightarrow> header set \<Rightarrow> digest set \<Rightarrow> validator \<Rightarrow> bool" where
  "sv_good nd H K s = (sv_manager_open s \<and> cm_good (nd_iter nd) (map fst (nd_genesis nd)) (backed_in nd H) K (sv_manager s))"

lemma cm_inv_outboxes:
  "cm_inv X K (m\<lparr> cm_to_proposer := a \<rparr>) = cm_inv X K m" "cm_inv X K (m\<lparr> cm_to_fetcher := b \<rparr>) = cm_inv X K m"
  by (simp_all add: cm_inv_def)

lemma sv_good_outboxes:
  "sv_good nd H K (s\<lparr> sv_sync_tasks := ts \<rparr>) = sv_good nd H K s"
  "sv_good nd H K (s\<lparr> sv_highest_received := r \<rparr>) = sv_good nd H K s"
  "sv_good nd H K (s\<lparr> sv_manager := sv_manager s\<lparr> cm_to_fetcher := b \<rparr> \<rparr>) = sv_good nd H K s"
  "sv_good nd H K (s\<lparr> sv_manager := sv_manager s\<lparr> cm_to_proposer := a \<rparr> \<rparr>) = sv_good nd H K s"
  by (simp_all add: sv_good_def cm_good_def cm_inv_outboxes)

lemma forward_check_good: "sv_good nd H K s \<Longrightarrow> sv_good nd H K (fst (forward_check nd p xs s))"
proof (induction xs arbitrary: s)
  case (Cons x xs)
  let ?s = "s\<lparr> sv_sync_tasks := sv_sync_tasks s @ [(c_header x, nd_gc_depth nd - 1)] \<rparr>"
  have "sv_good nd H K ?s" using Cons.prems by (simp only: sv_good_outboxes)
  thus ?case using Cons.IH[of ?s] sv_good_outboxes(3)[where s = ?s] by (simp add: Let_def)
qed simp

lemma send_verified_good:
  assumes "sv_good nd H K s" "set xs \<subseteq> backed_in nd H"
  shows "sv_good nd H K (fst (send_verified nd xs s))"
proof -
  let ?run = "process_verified_certificates (nd_iter nd) (nd_committee nd) (map fst (nd_genesis nd)) xs (sv_manager s)"
  have g: "cert_world (backed_in nd H)" "hash_order (nd_iter nd)" "set (map fst (nd_genesis nd)) \<subseteq> K" "cm_inv (backed_in nd H) K (sv_manager s)"
    using assms(1) by (simp_all add: sv_good_def cm_good_def)
  have "cm_inv (backed_in nd H) K (fst ?run) \<and> benign_result (snd ?run)"
    using process_verified_inv[OF g, of xs "Inr ()" "nd_committee nd"] assms(2) by (simp add: process_verified_certificates_def benign_result_def)
  moreover obtain m r where "?run = (m, r)" by force
  ultimately show ?thesis using assms(1)
    by (auto simp: send_verified_def sv_good_def cm_good_def cm_run_step_def benign_result_def benign_def split: sum.splits cert_manager_error.splits)
qed

lemma forward_verified_good:
  assumes "sv_good nd H K s" "set xs \<subseteq> backed_in nd H"
  shows "sv_good nd H K (fst (forward_verified_certs nd r xs s))"
proof -
  let ?m = "sv_manager s" and ?r = "max (sv_highest_received s) r"
  let ?s = "s\<lparr> sv_highest_received := ?r, sv_manager := ?m\<lparr> cm_to_proposer := cm_to_proposer ?m @ [([], ?r - 1)] \<rparr> \<rparr>"
  have g: "sv_good nd H K ?s" using assms(1) by (simp add: sv_good_def cm_good_def cm_inv_outboxes)
  have o: "cm_proposer_open ?m" using assms(1) by (simp add: sv_good_def cm_good_def cm_inv_def)
  obtain s3 q where f: "forward_check nd (cm_highest_processed ?m) xs ?s = (s3, q)" by force
  have "sv_good nd H K s3" using forward_check_good[OF g, of "cm_highest_processed ?m" xs] f by simp
  thus ?thesis using send_verified_good[OF _ assms(2)] f o
    by (cases q) (simp_all add: forward_verified_certs_def Let_def)
qed

lemma sv_process_certificate_good:
  assumes "sv_good nd H K s" "c_header x \<in> H"
    and "if ext then \<exists>sig. c_state x = Unverified sig else backed nd x"
  shows "sv_good nd H K (fst (sv_process_certificate nd x ext s))"
proof -
  have "c_header y \<in> H \<and> backed nd y"
    if "(if ext then validate_and_verify nd (cm_gc_round (sv_manager s)) x else Inr x) = Inr y" for y
    using that assms(2,3) validate_and_verify_same[of nd _ x y] by (auto split: if_splits intro: backed.signed)
  thus ?thesis using assms(1) forward_verified_good
    by (auto simp: sv_process_certificate_def backed_in_def certs_of_def split: sum.splits)
qed

lemma process_fetched_good:
  assumes "sv_good nd H K s" "\<forall>x\<in>set xs. c_header x \<in> H \<and> (\<exists>sig. c_state x = Unverified sig)" "hash_acyclic (set xs)"
    and "process_fetched_certificates_in_parallel nd xs s = Some (s', r)"
  shows "sv_good nd H K s'"
proof -
  have "y \<in> backed_in nd H" if v: "verify_collection nd (cm_gc_round (sv_manager s)) xs = Some (Inr ys)" and y: "y \<in> set ys" for y ys
  proof -
    obtain j where j: "j < length xs" "ys ! j = y" using y verify_collection_nth(1)[OF v] by (metis in_set_conv_nth)
    have "c_header y = c_header (xs ! j)" by (rule verify_collection_header[OF v j])
    moreover have "backed nd y" using verify_collection_backed[OF v assms(3) _ y] assms(2) by blast
    ultimately show ?thesis using assms(2) j(1) by (simp add: backed_in_def certs_of_def)
  qed
  thus ?thesis using assms(1,4) forward_verified_good[OF assms(1)]
    by (auto simp: process_fetched_certificates_in_parallel_def split: option.splits sum.splits) (metis fst_conv subsetI)
qed

text \<open>
  The inputs of the synchronizer: a certificate this node assembled, one received from a peer, a
  fetched collection, or a turn of the manager by itself. What comes from the network was reset to
  the unverified state on arrival.
\<close>

inductive sv_step :: "node \<Rightarrow> header set \<Rightarrow> validator \<Rightarrow> validator \<Rightarrow> bool" for nd H where
  own: "process_own_certificate nd x s = (s', r) \<Longrightarrow> c_header x \<in> H \<Longrightarrow> backed nd x \<Longrightarrow> sv_step nd H s s'"
| peer: "process_peer_certificate nd x s = (s', r) \<Longrightarrow> c_header x \<in> H \<Longrightarrow> c_state x = Unverified sig \<Longrightarrow> sv_step nd H s s'"
| fetched: "process_fetched_certificates_in_parallel nd xs s = Some (s', r) \<Longrightarrow> hash_acyclic (set xs) \<Longrightarrow>
    \<forall>x\<in>set xs. c_header x \<in> H \<and> (\<exists>sig. c_state x = Unverified sig) \<Longrightarrow> sv_step nd H s s'"
| collect: "cm_step (nd_iter nd) (nd_committee nd) (map fst (nd_genesis nd)) {} (sv_manager s) m \<Longrightarrow>
    sv_step nd H s (s\<lparr> sv_manager := m \<rparr>)"

lemma cm_step_mono: "cm_step iter c gen X s t \<Longrightarrow> X \<subseteq> Y \<Longrightarrow> cm_step iter c gen Y s t"
  by (erule cm_step.cases) (auto intro: cm_step.intros)

lemma sv_step_good:
  assumes "sv_good nd H K s" "sv_step nd H s t"
  shows "sv_good nd H K t"
  using assms(2,1)
proof (cases rule: sv_step.cases)
  case (own x r)
  thus ?thesis using sv_process_certificate_good[OF assms(1), of x False] by (simp add: process_own_certificate_def)
next
  case (peer x r sig)
  thus ?thesis using sv_process_certificate_good[OF assms(1), of x True] by (simp add: process_peer_certificate_def)
next
  case (fetched xs r)
  thus ?thesis using process_fetched_good[OF assms(1)] by blast
next
  case (collect m)
  have "cm_step (nd_iter nd) (nd_committee nd) (map fst (nd_genesis nd)) (backed_in nd H) (sv_manager s) m"
    using collect(2) by (rule cm_step_mono) simp
  thus ?thesis using collect(1) assms(1) cm.inv_step by (auto simp: sv_good_def)
qed

interpretation sv: step_system "sv_good nd H K" "sv_step nd H" "sv_good nd H K" for nd H K
  by unfold_locales (auto intro: sv_step_good)

end
