(* ===== verification/Header_Validator.thy ===== *)
theory Header_Validator
  imports Cert_Validator "HOL-Library.Product_Lexorder"
begin

text \<open>
  What a primary checks before it supports the header of a peer: the execution result the header
  builds on (crates/consensus/primary/src/recent_blocks.rs and wait_for_execution of
  consensus_bus.rs), the parents and the batches (state_sync/header_validator.rs), with the table of
  the batches this primary knows of (crates/storage/src/stores/payload_store.rs).

  An operation that waits takes the sequence of what happens meanwhile as an argument; the result
  \<^const>\<open>None\<close> says that it still waits when the sequence is used up.
\<close>

section \<open>Recently executed blocks\<close>

record recent_blocks =
  rb_num_blocks :: nat
  rb_blocks :: "block_num_hash list"

definition recent_blocks_new :: "nat \<Rightarrow> recent_blocks" where
  "recent_blocks_new n = \<lparr> rb_num_blocks = n, rb_blocks = [] \<rparr>"

definition push_latest :: "block_num_hash \<Rightarrow> recent_blocks \<Rightarrow> recent_blocks" where
  "push_latest b rb =
     (let bs = (if length (rb_blocks rb) \<ge> rb_num_blocks rb then drop 1 (rb_blocks rb) else rb_blocks rb)
      in rb\<lparr> rb_blocks := bs @ [b] \<rparr>)"

text \<open>Number and hash of the default block header, the answer when no block was executed, are an argument.\<close>

definition latest_block_num_hash :: "block_num_hash \<Rightarrow> recent_blocks \<Rightarrow> block_num_hash" where
  "latest_block_num_hash dflt rb = (if rb_blocks rb = [] then dflt else last (rb_blocks rb))"

definition contains_hash :: "recent_blocks \<Rightarrow> block_hash \<Rightarrow> bool" where
  "contains_hash rb h = list_ex (\<lambda>b. snd b = h) (rb_blocks rb)"

text \<open>The updates are the values the watch channel takes until its sender is dropped, which is an error.\<close>

fun wait_for_execution :: "block_num_hash \<Rightarrow> recent_blocks \<Rightarrow> recent_blocks list \<Rightarrow> block_num_hash \<Rightarrow> bool" where
  "wait_for_execution dflt rb [] b =
     (if fst (latest_block_num_hash dflt rb) < fst b then False else contains_hash rb (snd b))"
| "wait_for_execution dflt rb (u # us) b =
     (if fst (latest_block_num_hash dflt rb) < fst b then wait_for_execution dflt u us b else contains_hash rb (snd b))"

section \<open>Known batches\<close>

type_synonym payload_store = "(digest \<times> worker_id, nat) btree_map"

definition write_payload :: "worker_id \<Rightarrow> digest \<Rightarrow> payload_store \<Rightarrow> payload_store" where
  "write_payload w d p = bt_insert (d, w) 0 p"

definition contains_payload :: "payload_store \<Rightarrow> digest \<Rightarrow> worker_id \<Rightarrow> bool" where
  "contains_payload p d w = (map_of p (d, w) \<noteq> None)"

section \<open>Parents\<close>

definition notify_read_parent_certificates ::
  "node \<Rightarrow> cert_store \<Rightarrow> header \<Rightarrow> (header_error, certificate list) result option" where
  "notify_read_parent_certificates nd st h =
     (if h_round h = 1 then
        Some (try_map (\<lambda>d. case map_of (nd_genesis nd) d of Some x \<Rightarrow> Inr x | None \<Rightarrow> Inl (InvalidGenesisParent d)) (h_parents h))
      else if list_all (store_contains st) (h_parents h)
      then Some (Inr (map (\<lambda>d. the (store_read st d)) (h_parents h)))
      else None)"

text \<open>The manager answers the query for the pending certificates.\<close>

definition identify_unkown_parents :: "node \<Rightarrow> header \<Rightarrow> validator \<Rightarrow> (header_error, digest list) result" where
  "identify_unkown_parents nd h s =
     (if h_round h = 1 then
        (case List.find (\<lambda>d. map_of (nd_genesis nd) d = None) (h_parents h) of
           Some d \<Rightarrow> Inl (InvalidGenesisParent d) | None \<Rightarrow> Inr [])
      else
        (let existence = multi_contains (cm_store (sv_manager s)) (h_parents h);
             unknown = map fst (filter (\<lambda>e. \<not> snd e) (zip (h_parents h) existence))
         in if \<not> sv_manager_open s then Inl (HTNSend ''certificate manager'')
            else case cm_run_step (nd_iter nd) (nd_committee nd) (map fst (nd_genesis nd))
                        (CmCommand (FilterUnkownDigests unknown)) (sv_manager s) of
              (_, Inr (Filtered ds)) \<Rightarrow> Inr ds
            | _ \<Rightarrow> Inl PendingCertificateOneshot))"

section \<open>Batches\<close>

text \<open>
  The batches of a header that are not known, by worker. Each worker is asked to fetch its batches
  and reports once, with success or, when the retries are used up, with an error; the committed
  round may change meanwhile.
\<close>

datatype sync_event = WorkerSynced worker_id | WorkerFailed worker_id | CommittedRound round

definition add_missing ::
  "payload_store \<Rightarrow> block_hash \<times> worker_id \<times> timestamp \<Rightarrow> (worker_id, digest list) hash_map \<Rightarrow> (worker_id, digest list) hash_map" where
  "add_missing p e m =
     (case e of (d, w, _) \<Rightarrow>
        if contains_payload p d w then m
        else AList.update w ((case map_of m w of Some ds \<Rightarrow> ds | None \<Rightarrow> []) @ [d]) m)"

fun sync_loop ::
  "header \<Rightarrow> round \<Rightarrow> (worker_id, digest list) hash_map \<Rightarrow> sync_event list \<Rightarrow> payload_store
    \<Rightarrow> payload_store \<times> (header_error, unit) result option" where
  "sync_loop h max_age waiting [] p = (p, if waiting = [] then Some (Inr ()) else None)"
| "sync_loop h max_age waiting (e # es) p =
     (case e of
        CommittedRound r \<Rightarrow>
          if h_round h < r - max_age then (p, Some (Inl (HTooOld (h_digest h) (h_round h) r)))
          else sync_loop h max_age waiting es p
      | WorkerSynced w \<Rightarrow>
          (case map_of waiting w of
             None \<Rightarrow> sync_loop h max_age waiting es p
           | Some ds \<Rightarrow> sync_loop h max_age (AList.delete w waiting) es (fold (write_payload w) ds p))
      | WorkerFailed w \<Rightarrow>
          (case map_of waiting w of
             None \<Rightarrow> sync_loop h max_age waiting es p
           | Some _ \<Rightarrow> (p, Some (Inl (SyncBatches ''error synchronizing batches'')))))"

definition sync_header_batches ::
  "node \<Rightarrow> round \<Rightarrow> sync_event list \<Rightarrow> header \<Rightarrow> round \<Rightarrow> payload_store \<Rightarrow> payload_store \<times> (header_error, unit) result option" where
  "sync_header_batches nd committed evs h max_age p =
     (if h_author h = nd_self nd then (p, Some (Inr ()))
      else if h_round h < committed - max_age
      then (p, Some (Inl (HTooOld (h_digest h) (h_round h) (committed - max_age))))
      else sync_loop h max_age (fold (add_missing p) (h_payload h) []) evs p)"

section \<open>Lemmas\<close>

lemma push_latest_bound:
  "length (rb_blocks rb) \<le> max 1 (rb_num_blocks rb) \<Longrightarrow>
     length (rb_blocks (push_latest b rb)) \<le> max 1 (rb_num_blocks (push_latest b rb))"
  by (auto simp: push_latest_def Let_def)

lemma wait_for_execution_known:
  "wait_for_execution dflt rb us b \<Longrightarrow> \<exists>r\<in>set (rb # us). contains_hash r (snd b) \<and> fst b \<le> fst (latest_block_num_hash dflt r)"
  by (induction dflt rb us b rule: wait_for_execution.induct) (auto split: if_splits)

lemma contains_write_payload: "bt_sorted p \<Longrightarrow> contains_payload (write_payload w d p) d' w' = ((d', w') = (d, w) \<or> contains_payload p d' w')"
  by (auto simp: contains_payload_def write_payload_def bt.get_put)

lemma write_payloads_sorted: "bt_sorted p \<Longrightarrow> bt_sorted (fold (write_payload w) ds p)"
  by (induction ds arbitrary: p) (simp_all add: write_payload_def bt_sorted_insert)

lemma contains_write_payloads:
  "bt_sorted p \<Longrightarrow> contains_payload (fold (write_payload w) ds p) d' w' = ((d' \<in> set ds \<and> w' = w) \<or> contains_payload p d' w')"
proof (induction ds arbitrary: p)
  case (Cons d ds)
  have "bt_sorted (write_payload w d p)" using Cons.prems by (simp add: write_payload_def bt_sorted_insert)
  thus ?case using Cons.IH[of "write_payload w d p"] contains_write_payload[OF Cons.prems] by auto
qed simp

text \<open>Every batch of a list is known, or is waited for at its worker.\<close>

definition batches_tracked :: "(block_hash \<times> worker_id \<times> timestamp) list \<Rightarrow> (worker_id, digest list) hash_map \<Rightarrow> payload_store \<Rightarrow> bool" where
  "batches_tracked pl waiting p =
     (\<forall>d w t. (d, w, t) \<in> set pl \<longrightarrow> contains_payload p d w \<or> (\<exists>ds. map_of waiting w = Some ds \<and> d \<in> set ds))"

lemma add_missing_keeps:
  "(\<exists>ds. map_of m w = Some ds \<and> d \<in> set ds) \<Longrightarrow> (\<exists>ds. map_of (add_missing p e m) w = Some ds \<and> d \<in> set ds)"
  by (cases e) (auto simp: add_missing_def update_conv' split: option.splits)

lemma add_missing_adds:
  "contains_payload p d w \<or> (\<exists>ds. map_of (add_missing p (d, w, t) m) w = Some ds \<and> d \<in> set ds)"
  by (auto simp: add_missing_def update_conv' split: option.splits)

lemma missing_fold_keeps:
  "(\<exists>ds. map_of m w = Some ds \<and> d \<in> set ds) \<Longrightarrow> (\<exists>ds. map_of (fold (add_missing p) pl m) w = Some ds \<and> d \<in> set ds)"
  by (induction pl arbitrary: m) (simp_all add: add_missing_keeps)

lemma missing_tracked: "batches_tracked pl (fold (add_missing p) pl m) p"
proof (induction pl arbitrary: m)
  case (Cons e pl)
  obtain d w t where e: "e = (d, w, t)" by (cases e)
  have "contains_payload p d w \<or> (\<exists>ds. map_of (fold (add_missing p) pl (add_missing p e m)) w = Some ds \<and> d \<in> set ds)"
    using add_missing_adds[of p d w t m] missing_fold_keeps[of "add_missing p e m" w d p pl] e by blast
  thus ?case using Cons.IH[of "add_missing p e m"] e unfolding batches_tracked_def by auto
qed (simp add: batches_tracked_def)

lemma sync_loop_available:
  assumes "sync_loop h a waiting evs p = (p', Some (Inr ()))" "bt_sorted p" "batches_tracked pl waiting p"
  shows "bt_sorted p' \<and> batches_tracked pl [] p'"
  using assms
proof (induction h a waiting evs p arbitrary: p' rule: sync_loop.induct)
  case (2 h a waiting e es p)
  show ?case
  proof (cases e)
    case (WorkerSynced w)
    show ?thesis
    proof (cases "map_of waiting w")
      case (Some ds)
      let ?p = "fold (write_payload w) ds p"
      have "batches_tracked pl (AList.delete w waiting) ?p"
        using 2(7) Some unfolding batches_tracked_def contains_write_payloads[OF 2(6)] by (fastforce simp: delete_conv')
      thus ?thesis using 2 WorkerSynced Some write_payloads_sorted by simp
    qed (use 2 WorkerSynced in simp)
  qed (use 2 in \<open>auto split: if_splits option.splits\<close>)
qed (auto split: if_splits)

text \<open>When the operation succeeds for the header of a peer, every batch of the header is known.\<close>

lemma sync_header_batches_available:
  assumes "sync_header_batches nd cr evs h a p = (p', Some (Inr ()))" "bt_sorted p" "h_author h \<noteq> nd_self nd" "(d, w, t) \<in> set (h_payload h)"
  shows "contains_payload p' d w"
proof -
  have "sync_loop h a (fold (add_missing p) (h_payload h) []) evs p = (p', Some (Inr ()))"
    using assms(1,3) by (auto simp: sync_header_batches_def split: if_splits)
  from sync_loop_available[OF this assms(2) missing_tracked] show ?thesis using assms(4) unfolding batches_tracked_def by fastforce
qed

lemma sync_header_batches_sorted:
  assumes "bt_sorted p"
  shows "bt_sorted (fst (sync_header_batches nd cr evs h a p))"
proof -
  have "bt_sorted (fst (sync_loop h a waiting evs p))" for waiting
    using assms by (induction h a waiting evs p rule: sync_loop.induct)
      (auto simp: write_payloads_sorted split: sync_event.splits option.splits)
  thus ?thesis using assms by (simp add: sync_header_batches_def)
qed

text \<open>The parents that were read are those the header names, in order.\<close>

lemma notify_read_parents:
  assumes "notify_read_parent_certificates nd st h = Some (Inr ps)"
  shows "list_all2 (\<lambda>d x. if h_round h = 1 then map_of (nd_genesis nd) d = Some x else store_read st d = Some x) (h_parents h) ps"
proof (cases "h_round h = 1")
  case True
  hence "list_all2 (\<lambda>d x. (case map_of (nd_genesis nd) d of Some x \<Rightarrow> Inr x | None \<Rightarrow> Inl (InvalidGenesisParent d)) = Inr x) (h_parents h) ps"
    using assms by (simp add: notify_read_parent_certificates_def try_map_Inr_iff)
  thus ?thesis using True by (auto elim!: list_all2_mono split: option.splits)
next
  case False
  have "list_all (store_contains st) (h_parents h)" "ps = map (\<lambda>d. the (store_read st d)) (h_parents h)"
    using assms False by (auto simp: notify_read_parent_certificates_def split: if_splits)
  thus ?thesis using False
    by (auto simp: list_all2_conv_all_nth list_all_length store_contains_def store_read_def)
qed

end
