(* ===== verification/Vote_Handler.thy ===== *)
theory Vote_Handler
  imports Header_Validator Sub_Dag
begin

text \<open>
  The request handler of the primary network (crates/consensus/primary/src/network/handler.rs):
  gossip, and the evaluation of a header that a peer proposes, which ends in a vote, a request for
  missing parents or an error. The last vote for every author is kept in the table of
  crates/storage/src/stores/vote_digest_store.rs.
\<close>

section \<open>The table of votes\<close>

type_synonym vote_store = "(authority_id, vote_info) btree_map"

definition write_vote :: "vote \<Rightarrow> vote_store \<Rightarrow> vote_store" where
  "write_vote v st = bt_insert (v_origin v) (vote_info_of v) st"

definition read_vote_info :: "vote_store \<Rightarrow> authority_id \<Rightarrow> vote_info option" where
  "read_vote_info st a = map_of st a"

section \<open>Messages, errors and state\<close>

datatype primary_gossip = GossipCertificate certificate | Consenus nat block_hash

datatype network_error =
    InvalidHeader header_error
  | Decode
  | NCertificate cert_manager_error
  | StdIo
  | NStorage
  | InvalidRequest string
  | Internal string
  | UnknowConsensusHeaderNumber nat
  | UnknowConsensusHeaderDigest block_hash

datatype primary_response =
    Vote vote
  | RequestedCertificates "certificate list"
  | MissingParents "digest list"
  | ConsensusHeaderResponse consensus_header
  | ErrorResponse string

record handler =
  vh_sync :: validator
  vh_requested :: "(round \<times> digest, authority_id) btree_map"
  vh_payload :: payload_store
  vh_votes :: vote_store
  vh_primary_round :: round
  vh_committed_round :: round
  vh_recent :: recent_blocks
  vh_last_consensus :: "nat \<times> block_hash"

text \<open>
  What happens while a vote request waits: the executed blocks, the certificate store at the time all
  parents are there, the reports of the workers, and the time at which the header is judged.
\<close>

record vote_wait =
  vw_default_block :: block_num_hash
  vw_blocks :: "recent_blocks list"
  vw_store :: cert_store
  vw_batches :: "sync_event list"
  vw_now :: timestamp

section \<open>Gossip\<close>

text \<open>A message that does not decode is \<^const>\<open>None\<close>.\<close>

definition process_gossip :: "node \<Rightarrow> primary_gossip option \<Rightarrow> handler \<Rightarrow> handler \<times> (network_error, unit) result" where
  "process_gossip nd msg s =
     (case msg of
        None \<Rightarrow> (s, Inl Decode)
      | Some (GossipCertificate x) \<Rightarrow>
          (case validate_received x of
             Inl e \<Rightarrow> (s, Inl (NCertificate (MCertificate e)))
           | Inr y \<Rightarrow>
               (case process_peer_certificate nd y (vh_sync s) of
                  (v, Inl e) \<Rightarrow> (s\<lparr> vh_sync := v \<rparr>, Inl (NCertificate e))
                | (v, Inr _) \<Rightarrow> (s\<lparr> vh_sync := v \<rparr>, Inr ())))
      | Some (Consenus n h) \<Rightarrow> (s\<lparr> vh_last_consensus := (n, h) \<rparr>, Inr ()))"

section \<open>Missing parents\<close>

fun request_unknown ::
  "round \<Rightarrow> authority_id \<Rightarrow> digest list \<Rightarrow> (round \<times> digest, authority_id) btree_map
    \<Rightarrow> (round \<times> digest, authority_id) btree_map \<times> digest list" where
  "request_unknown r a [] m = (m, [])"
| "request_unknown r a (d # ds) m =
     (case map_of m (r, d) of
        None \<Rightarrow> (let (m', kept) = request_unknown r a ds (bt_insert (r, d) a m) in (m', d # kept))
      | Some _ \<Rightarrow> request_unknown r a ds m)"

definition check_for_missing_parents :: "node \<Rightarrow> header \<Rightarrow> handler \<Rightarrow> handler \<times> (header_error, digest list) result" where
  "check_for_missing_parents nd h s =
     (case identify_unkown_parents nd h (vh_sync s) of
        Inl e \<Rightarrow> (s, Inl e)
      | Inr unknown \<Rightarrow>
          (let limit = vh_primary_round s - max_proposed_header_age (nd_sync nd) in
           if \<not> limit \<le> h_round h then (s, Inl (HTooOld (h_digest h) (h_round h) limit))
           else let kept = dropWhile (\<lambda>e. fst (fst e) < limit - 1) (vh_requested s);
                    (m, ds) = request_unknown (u32_sub (h_round h) 1) (h_author h) unknown kept
                in (s\<lparr> vh_requested := m \<rparr>, Inr ds)))"

fun accept_parents :: "node \<Rightarrow> certificate list \<Rightarrow> handler \<Rightarrow> handler \<times> (network_error, unit) result" where
  "accept_parents nd [] s = (s, Inr ())"
| "accept_parents nd (x # xs) s =
     (case process_peer_certificate nd x (vh_sync s) of
        (v, Inl e) \<Rightarrow> (s\<lparr> vh_sync := v \<rparr>, Inl (NCertificate e))
      | (v, Inr _) \<Rightarrow> accept_parents nd xs (s\<lparr> vh_sync := v \<rparr>))"

definition try_accept_unknown_certs ::
  "node \<Rightarrow> header \<Rightarrow> certificate list \<Rightarrow> handler \<Rightarrow> handler \<times> (network_error, unit) result" where
  "try_accept_unknown_certs nd h ps s =
     accept_parents nd (filter (\<lambda>x. map_of (vh_requested s) (c_round x, cert_digest x) = Some (h_author h)) ps) s"

section \<open>The vote\<close>

definition check_request :: "node \<Rightarrow> authority_id \<Rightarrow> header \<Rightarrow> nat \<Rightarrow> (header_error, unit) result" where
  "check_request nd peer h num_parents =
     (case header_validate (nd_crypto nd) (nd_committee nd) (nd_workers nd) h of
        Inl e \<Rightarrow> Inl e
      | Inr _ \<Rightarrow>
          if \<not> num_parents \<le> committee_size (nd_committee nd)
          then Inl (TooManyParents num_parents (committee_size (nd_committee nd)))
          else if \<not> is_authority (nd_committee nd) peer then Inl (UnknownNetworkKey peer)
          else if h_author h \<noteq> peer then Inl PeerNotAuthor
          else Inr ())"

definition set_unverified :: "certificate \<Rightarrow> (header_error, certificate) result" where
  "set_unverified x =
     (case aggregated_signature x of
        None \<Rightarrow> Inl ParentMissingSignature | Some sig \<Rightarrow> Inr (x\<lparr> c_state := Unverified sig \<rparr>))"

definition verify_parent ::
  "committee \<Rightarrow> header \<Rightarrow> certificate \<Rightarrow> authority_id list \<times> voting_power
    \<Rightarrow> (header_error, authority_id list \<times> voting_power) result" where
  "verify_parent c h x acc =
     (if \<not> u32_add (c_round x) 1 = h_round h then Inl InvalidParentRound
      else if \<not> h_created_at h \<ge> h_created_at (c_header x)
      then Inl (InvalidParentTimestamp (h_created_at h) (c_created_at x))
      else if c_origin x \<in> set (fst acc) then Inl DuplicateParents
      else Inr (bs_insert (c_origin x) (fst acc), u64_add (snd acc) (voting_power_by_id c (c_origin x))))"

definition verify_parents :: "committee \<Rightarrow> header \<Rightarrow> certificate list \<Rightarrow> (network_error, unit) result" where
  "verify_parents c h ps =
     (case try_fold (verify_parent c h) ps ([], 0) of
        Inl e \<Rightarrow> Inl (InvalidHeader e)
      | Inr (_, stake) \<Rightarrow>
          if \<not> stake \<ge> quorum_threshold c
          then Inl (NCertificate (MCertificate (Inquorate stake (quorum_threshold c)))) else Inr ())"

definition check_timestamp :: "node \<Rightarrow> timestamp \<Rightarrow> header \<Rightarrow> (header_error, unit) result" where
  "check_timestamp nd now h =
     (if now < h_created_at h \<and> \<not> h_created_at h - now \<le> max_time_drift (nd_sync nd)
      then Inl (InvalidTimestamp (h_created_at h) now) else Inr ())"

text \<open>The vote that the table allows, and whether it was sent before.\<close>

datatype decision = Resend vote | Fresh vote

definition decide_vote :: "node \<Rightarrow> vote_info option \<Rightarrow> header \<Rightarrow> (header_error, decision) result" where
  "decide_vote nd previous h =
     (let v = vote_new (nd_sign nd) h (nd_self nd) in
      case previous of
        None \<Rightarrow> Inr (Fresh v)
      | Some vi \<Rightarrow>
          if h_epoch h \<noteq> vi_epoch vi then Inl (InvalidEpoch (h_epoch h) (vi_epoch vi))
          else if \<not> h_round h \<ge> vi_round vi then Inl (AlreadyVotedForLaterRound (h_round h) (vi_round vi))
          else if h_round h = vi_round vi then
            (if vote_digest v \<noteq> vi_vote_digest vi then Inl (AlreadyVoted (h_digest h) (h_round h)) else Inr (Resend v))
          else Inr (Fresh v))"

text \<open>Everything before the table of votes is read: \<^const>\<open>None\<close> is a request that is admitted.\<close>

type_synonym vote_reply = "(network_error, primary_response) result"

definition vote_parents_stage ::
  "node \<Rightarrow> header \<Rightarrow> certificate list \<Rightarrow> handler \<Rightarrow> handler \<times> vote_reply option" where
  "vote_parents_stage nd h parents s =
     (if parents = [] then
        (case check_for_missing_parents nd h s of
           (s1, Inl e) \<Rightarrow> (s1, Some (Inl (InvalidHeader e)))
         | (s1, Inr missing) \<Rightarrow> (s1, if missing \<noteq> [] then Some (Inr (MissingParents missing)) else None))
      else
        (case try_map set_unverified parents of
           Inl e \<Rightarrow> (s, Some (Inl (InvalidHeader e)))
         | Inr ps \<Rightarrow>
             (case try_accept_unknown_certs nd h ps s of
                (s1, Inl e) \<Rightarrow> (s1, Some (Inl e)) | (s1, Inr _) \<Rightarrow> (s1, None))))"

datatype admission = Waiting | Answered vote_reply | Admitted

definition vote_admission ::
  "node \<Rightarrow> vote_wait \<Rightarrow> authority_id \<Rightarrow> header \<Rightarrow> certificate list \<Rightarrow> handler \<Rightarrow> handler \<times> admission" where
  "vote_admission nd w peer h parents s =
     (case check_request nd peer h (length parents) of
        Inl e \<Rightarrow> (s, Answered (Inl (InvalidHeader e)))
      | Inr _ \<Rightarrow>
      if \<not> wait_for_execution (vw_default_block w) (vh_recent s) (vw_blocks w) (h_latest_execution_block h)
      then (s, Answered (Inl (InvalidHeader (UnknownExecutionResult (h_latest_execution_block h)))))
      else case vote_parents_stage nd h parents s of
        (s1, Some r) \<Rightarrow> (s1, Answered r)
      | (s1, None) \<Rightarrow>
      (case notify_read_parent_certificates nd (vw_store w) h of
         None \<Rightarrow> (s1, Waiting)
       | Some (Inl e) \<Rightarrow> (s1, Answered (Inl (InvalidHeader e)))
       | Some (Inr ps) \<Rightarrow>
      (case verify_parents (nd_committee nd) h ps of
         Inl e \<Rightarrow> (s1, Answered (Inl e))
       | Inr _ \<Rightarrow>
      (case sync_header_batches nd (vh_committed_round s1) (vw_batches w) h 0 (vh_payload s1) of
         (p, None) \<Rightarrow> (s1\<lparr> vh_payload := p \<rparr>, Waiting)
       | (p, Some (Inl e)) \<Rightarrow> (s1\<lparr> vh_payload := p \<rparr>, Answered (Inl (InvalidHeader e)))
       | (p, Some (Inr _)) \<Rightarrow>
      (case check_timestamp nd (vw_now w) h of
         Inl e \<Rightarrow> (s1\<lparr> vh_payload := p \<rparr>, Answered (Inl (InvalidHeader e)))
       | Inr _ \<Rightarrow> (s1\<lparr> vh_payload := p \<rparr>, Admitted))))))"

definition handle_vote ::
  "node \<Rightarrow> vote_wait \<Rightarrow> authority_id \<Rightarrow> header \<Rightarrow> certificate list \<Rightarrow> handler \<Rightarrow> handler \<times> vote_reply option" where
  "handle_vote nd w peer h parents s =
     (case vote_admission nd w peer h parents s of
        (s1, Waiting) \<Rightarrow> (s1, None)
      | (s1, Answered r) \<Rightarrow> (s1, Some r)
      | (s1, Admitted) \<Rightarrow>
          (case decide_vote nd (read_vote_info (vh_votes s1) (h_author h)) h of
             Inl e \<Rightarrow> (s1, Some (Inl (InvalidHeader e)))
           | Inr (Resend v) \<Rightarrow> (s1, Some (Inr (Vote v)))
           | Inr (Fresh v) \<Rightarrow> (s1\<lparr> vh_votes := write_vote v (vh_votes s1) \<rparr>, Some (Inr (Vote v)))))"

end
