(* ===== verification/Proposer.thy ===== *)
theory Proposer
  imports Leader_Schedule
begin

text \<open>
  The task that proposes headers (crates/consensus/primary/src/proposer.rs) with the table of the last
  proposed header (crates/storage/src/stores/proposer_store.rs): it collects the digests of its
  workers' batches and the certificates of the current round, advances the round, and keeps what it
  proposed until it is committed, so that batches of headers that were passed over are proposed
  again.

  A header is created, stored and sent by a task of its own, \<open>header_task\<close>; the two timers are events,
  and the time they were last set to is kept. The choice of a leader may panic, the result is then
  \<^const>\<open>None\<close>.
\<close>

section \<open>State\<close>

record proposer_digest =
  pd_digest :: block_hash
  pd_worker :: worker_id
  pd_timestamp :: timestamp

datatype proposer_error =
    WatchChannelClosed
  | OneshotChannelClosed
  | CertifierSender
  | PStoreError string

text \<open>The task that makes a header: what it was given, or its result.\<close>

datatype pending_header =
    NewHeader round epoch "certificate list" "proposer_digest list"
  | Reproposed header
  | Finished "(proposer_error, header) result"

record proposer =
  pr_self :: authority_id
  pr_committee :: committee
  pr_batches_threshold :: nat
  pr_max_batches :: nat
  pr_min_header_delay :: nat
  pr_max_header_delay :: nat
  pr_min_interval :: nat
  pr_max_interval :: nat
  pr_latest_header :: "header option"
  pr_store :: "header option"
  pr_bus_round :: round
  pr_round :: round
  pr_last_parents :: "certificate list"
  pr_last_leader :: "certificate option"
  pr_digests :: "proposer_digest list"
  pr_proposed :: "(round, header) btree_map"
  pr_schedule :: schedule
  pr_advance_round :: bool
  pr_pending :: "pending_header option"
  pr_max_timed_out :: bool
  pr_min_timed_out :: bool
  pr_sent :: "header list"
  pr_certifier_open :: bool

record proposer_params =
  pp_batches_threshold :: nat
  pp_max_batches :: nat
  pp_min_delay :: nat
  pp_max_delay :: nat

definition write_last_proposed :: "header \<Rightarrow> proposer \<Rightarrow> proposer" where
  "write_last_proposed h s = s\<lparr> pr_store := Some h \<rparr>"

definition get_last_proposed :: "proposer \<Rightarrow> header option" where
  "get_last_proposed s = pr_store s"

definition proposer_new ::
  "crypto \<Rightarrow> authority_id \<Rightarrow> committee \<Rightarrow> proposer_params \<Rightarrow> schedule \<Rightarrow> header option \<Rightarrow> round \<Rightarrow> proposer" where
  "proposer_new cr self c pp ls stored bus =
     \<lparr> pr_self = self, pr_committee = c, pr_batches_threshold = pp_batches_threshold pp, pr_max_batches = pp_max_batches pp,
       pr_min_header_delay = pp_min_delay pp, pr_max_header_delay = pp_max_delay pp, pr_min_interval = 0, pr_max_interval = 0,
       pr_latest_header = None, pr_store = stored, pr_bus_round = bus, pr_round = 0, pr_last_parents = genesis cr c,
       pr_last_leader = None, pr_digests = [], pr_proposed = [], pr_schedule = ls, pr_advance_round = True,
       pr_pending = None, pr_max_timed_out = False, pr_min_timed_out = False, pr_sent = [], pr_certifier_open = True \<rparr>"

section \<open>Making a header\<close>

definition store_and_send_header :: "header \<Rightarrow> proposer \<Rightarrow> proposer \<times> (proposer_error, unit) result" where
  "store_and_send_header h s =
     (let s1 = write_last_proposed h s
      in if pr_certifier_open s1 then (s1\<lparr> pr_sent := pr_sent s1 @ [h] \<rparr>, Inr ()) else (s1, Inl CertifierSender))"

text \<open>
  The task sleeps until the newest parent is not in the future any more. The payload map keeps the
  order of insertion, the parents are a sorted set.
\<close>

definition payload_of :: "proposer_digest list \<Rightarrow> (block_hash, worker_id \<times> timestamp) hash_map" where
  "payload_of ds = fold (\<lambda>d. AList.update (pd_digest d) (pd_worker d, pd_timestamp d)) ds []"

definition propose_header ::
  "crypto \<Rightarrow> timestamp \<Rightarrow> block_num_hash \<Rightarrow> round \<Rightarrow> epoch \<Rightarrow> certificate list \<Rightarrow> proposer_digest list \<Rightarrow> proposer
    \<Rightarrow> proposer \<times> (proposer_error, header) result" where
  "propose_header cr now latest r e parents ds s =
     (let latest_parent = fold (\<lambda>x t. max t (h_created_at (c_header x))) parents 0;
          h = header_new cr (max now latest_parent) (pr_self s) r e (payload_of ds) (bs_collect (map cert_digest parents)) latest
      in case store_and_send_header h s of (s1, Inl err) \<Rightarrow> (s1, Inl err) | (s1, Inr _) \<Rightarrow> (s1, Inr h))"

definition repropose_header :: "header \<Rightarrow> proposer \<Rightarrow> proposer \<times> (proposer_error, header) result" where
  "repropose_header h s =
     (case store_and_send_header h s of (s1, Inl err) \<Rightarrow> (s1, Inl err) | (s1, Inr _) \<Rightarrow> (s1, Inr h))"

definition header_task :: "crypto \<Rightarrow> timestamp \<Rightarrow> block_num_hash \<Rightarrow> proposer \<Rightarrow> proposer" where
  "header_task cr now latest s =
     (case pr_pending s of
        Some (NewHeader r e ps ds) \<Rightarrow>
          (case propose_header cr now latest r e ps ds s of (s1, res) \<Rightarrow> s1\<lparr> pr_pending := Some (Finished res) \<rparr>)
      | Some (Reproposed h) \<Rightarrow>
          (case repropose_header h s of (s1, res) \<Rightarrow> s1\<lparr> pr_pending := Some (Finished res) \<rparr>)
      | _ \<Rightarrow> s)"

section \<open>Delays and readiness\<close>

definition calc_max_delay :: "rng \<Rightarrow> proposer \<Rightarrow> nat option" where
  "calc_max_delay g s =
     (let next = u32_add (pr_round s) 1 in
      if next mod 2 = 0 then
        (case schedule_leader g (pr_schedule s) next of
           None \<Rightarrow> None
         | Some l \<Rightarrow> Some (if auth_id l = pr_self s then pr_max_header_delay s div 2 else pr_max_header_delay s))
      else Some (pr_max_header_delay s))"

definition calc_min_delay :: "rng \<Rightarrow> proposer \<Rightarrow> nat option" where
  "calc_min_delay g s =
     (let next = u32_add (pr_round s) 1 in
      case (if next mod 2 = 0 then schedule_leader g (pr_schedule s) next
            else committee_leader (rng_weighted g) (pr_committee s) next) of
        None \<Rightarrow> None
      | Some l \<Rightarrow> Some (if auth_id l = pr_self s then 0 else pr_min_header_delay s))"

definition update_leader :: "rng \<Rightarrow> proposer \<Rightarrow> (proposer \<times> bool) option" where
  "update_leader g s =
     (case schedule_leader g (pr_schedule s) (pr_round s) of
        None \<Rightarrow> None
      | Some l \<Rightarrow>
          (let found = List.find (\<lambda>x. c_origin x = auth_id l) (pr_last_parents s)
           in Some (s\<lparr> pr_last_leader := found \<rparr>, found \<noteq> None)))"

definition count_vote :: "committee \<Rightarrow> digest \<Rightarrow> certificate \<Rightarrow> voting_power \<times> voting_power \<Rightarrow> voting_power \<times> voting_power" where
  "count_vote c leader x acc =
     (let stake = voting_power_by_id c (c_origin x) in
      if leader \<in> set (c_parents x) then (u64_add (fst acc) stake, snd acc) else (fst acc, u64_add (snd acc) stake))"

definition enough_votes :: "rng \<Rightarrow> proposer \<Rightarrow> bool option" where
  "enough_votes g s =
     (case schedule_leader g (pr_schedule s) (u32_add (pr_round s) 1) of
        None \<Rightarrow> None
      | Some l \<Rightarrow>
          if auth_id l = pr_self s then Some True
          else case pr_last_leader s of
            None \<Rightarrow> Some True
          | Some x \<Rightarrow>
              (let (yes, no) = fold (count_vote (pr_committee s) (cert_digest x)) (pr_last_parents s) (0, 0)
               in Some (yes \<ge> validity_threshold (pr_committee s) \<or> no \<ge> quorum_threshold (pr_committee s))))"

definition ready :: "rng \<Rightarrow> proposer \<Rightarrow> (proposer \<times> bool) option" where
  "ready g s =
     (if pr_round s mod 2 = 0 then update_leader g s
      else map_option (\<lambda>b. (s, b)) (enough_votes g s))"

section \<open>Events\<close>

definition take_parents :: "rng \<Rightarrow> certificate list \<Rightarrow> round \<Rightarrow> proposer \<Rightarrow> proposer option" where
  "take_parents g parents r s =
     (if r > pr_round s then
        (let s1 = s\<lparr> pr_round := r, pr_bus_round := r, pr_last_parents := parents, pr_advance_round := False \<rparr>
         in map_option (\<lambda>d. s1\<lparr> pr_max_interval := d, pr_min_interval := 0 \<rparr>) (calc_max_delay g s1))
      else if r < pr_round s then Some s
      else
        (let s1 = s\<lparr> pr_last_parents := pr_last_parents s @ parents \<rparr>
         in map_option (\<lambda>d. if d = 0 then s1\<lparr> pr_min_interval := 0 \<rparr> else s1) (calc_min_delay g s1)))"

definition process_parents :: "rng \<Rightarrow> certificate list \<Rightarrow> round \<Rightarrow> proposer \<Rightarrow> proposer option" where
  "process_parents g parents r s =
     (case take_parents g parents r s of
        None \<Rightarrow> None
      | Some s1 \<Rightarrow> map_option (\<lambda>(s2, b). s2\<lparr> pr_advance_round := b \<rparr>) (ready g s1))"

definition header_digests :: "header \<Rightarrow> proposer_digest list" where
  "header_digests h = map (\<lambda>(d, w, t). \<lparr> pd_digest = d, pd_worker = w, pd_timestamp = t \<rparr>) (h_payload h)"

definition process_committed_headers :: "round \<Rightarrow> round list \<Rightarrow> proposer \<Rightarrow> proposer" where
  "process_committed_headers commit_round rounds s =
     (let max_committed = fold max rounds 0;
          left = fold bt_remove rounds (pr_proposed s);
          retransmit = takeWhile (\<lambda>e. \<not> fst e > max_committed) left;
          resend = concat (map (\<lambda>e. header_digests (snd e)) retransmit)
      in if retransmit = [] then s\<lparr> pr_proposed := left \<rparr>
         else s\<lparr> pr_digests := resend @ pr_digests s, pr_proposed := fold bt_remove (map fst retransmit) left \<rparr>)"

text \<open>The label for the metrics asks for a leader too, and may panic.\<close>

definition support_label :: "rng \<Rightarrow> proposer \<Rightarrow> round \<Rightarrow> certificate list \<Rightarrow> string option" where
  "support_label g s r parents =
     (if r mod 2 = 0 then
        map_option (\<lambda>l. if auth_id l = pr_self s then ''even_round_is_leader'' else ''even_round_not_leader'')
          (schedule_leader g (pr_schedule s) r)
      else
        map_option (\<lambda>l. if list_ex (\<lambda>x. c_origin x = auth_id l) parents then ''odd_round_gives_support'' else ''odd_round_no_support'')
          (schedule_leader g (pr_schedule s) (u32_sub r 1)))"

definition next_round :: "proposer \<Rightarrow> round" where
  "next_round s =
     (let r = u32_add (pr_round s) 1; updated = u32_add (pr_bus_round s) 1 in if updated > r then updated else r)"

definition header_to_repropose :: "round \<Rightarrow> proposer \<Rightarrow> header option" where
  "header_to_repropose r s =
     (case get_last_proposed s of
        Some h \<Rightarrow> if h_round h = r \<and> h_epoch h = c_epoch (pr_committee s) then Some h else None
      | None \<Rightarrow> None)"

definition propose_next_header :: "rng \<Rightarrow> proposer \<Rightarrow> proposer option" where
  "propose_next_header g s =
     (let r = next_round s; s1 = s\<lparr> pr_round := r, pr_bus_round := r \<rparr>
      in case header_to_repropose r s1 of
           Some h \<Rightarrow> Some (s1\<lparr> pr_last_parents := [], pr_pending := Some (Reproposed h) \<rparr>)
         | None \<Rightarrow>
             (let n = min (length (pr_digests s1)) (pr_max_batches s1); parents = pr_last_parents s1
              in case support_label g s1 r parents of
                   None \<Rightarrow> None
                 | Some _ \<Rightarrow>
                     Some (s1\<lparr> pr_digests := drop n (pr_digests s1), pr_last_parents := [],
                               pr_pending := Some (NewHeader r (c_epoch (pr_committee s1)) parents (take n (pr_digests s1))) \<rparr>)))"

definition handle_proposal_result ::
  "rng \<Rightarrow> (proposer_error, header) result \<Rightarrow> proposer \<Rightarrow> (proposer \<times> (proposer_error, unit) result) option" where
  "handle_proposal_result g res s =
     (case res of
        Inl err \<Rightarrow> Some (s, Inl err)
      | Inr h \<Rightarrow>
          (let s1 = s\<lparr> pr_latest_header := Some h, pr_advance_round := False \<rparr>
           in case calc_min_delay g s1 of
                None \<Rightarrow> None
              | Some mn \<Rightarrow>
                  (case calc_max_delay g s1 of
                     None \<Rightarrow> None
                   | Some mx \<Rightarrow>
                       Some (s1\<lparr> pr_min_interval := mn, pr_max_interval := mx, pr_proposed := bt_insert (h_round h) h (pr_proposed s1) \<rparr>, Inr ()))))"

datatype proposer_event =
    OurDigest proposer_digest
  | NewParents "certificate list" round
  | CommittedOwnHeaders round "round list"
  | PendingDone
  | MaxDelayTick
  | MinDelayTick
  | ProposerShutdown

text \<open>The branch of the loop for an event; \<^const>\<open>Inr\<close> with false is the end by shutdown.\<close>

definition proposer_event_step :: "rng \<Rightarrow> proposer_event \<Rightarrow> proposer \<Rightarrow> (proposer \<times> (proposer_error, bool) result) option" where
  "proposer_event_step g ev s =
     (case ev of
        ProposerShutdown \<Rightarrow> Some (s, Inr False)
      | OurDigest d \<Rightarrow> Some (s\<lparr> pr_digests := pr_digests s @ [d] \<rparr>, Inr True)
      | NewParents xs r \<Rightarrow> map_option (\<lambda>t. (t, Inr True)) (process_parents g xs r s)
      | CommittedOwnHeaders c rs \<Rightarrow> Some (process_committed_headers c rs s, Inr True)
      | MaxDelayTick \<Rightarrow> Some (s\<lparr> pr_max_timed_out := True \<rparr>, Inr True)
      | MinDelayTick \<Rightarrow> Some (s\<lparr> pr_min_timed_out := True \<rparr>, Inr True)
      | PendingDone \<Rightarrow>
          (case pr_pending s of
             Some (Finished res) \<Rightarrow>
               map_option (\<lambda>(t, r). (t, case r of Inl e \<Rightarrow> Inl e | Inr _ \<Rightarrow> Inr True))
                 (handle_proposal_result g res (s\<lparr> pr_pending := None \<rparr>))
           | _ \<Rightarrow> Some (s, Inr True)))"

definition should_create_header :: "proposer \<Rightarrow> bool" where
  "should_create_header s =
     (pr_last_parents s \<noteq> [] \<and>
      (pr_max_timed_out s \<or>
       (pr_advance_round s \<and> (length (pr_digests s) \<ge> pr_batches_threshold s \<or> pr_min_timed_out s))))"

definition proposer_turn :: "rng \<Rightarrow> proposer_event \<Rightarrow> proposer \<Rightarrow> (proposer \<times> (proposer_error, bool) result) option" where
  "proposer_turn g ev s =
     (case proposer_event_step g ev s of
        None \<Rightarrow> None
      | Some (s1, Inr True) \<Rightarrow>
          if pr_pending s1 \<noteq> None then Some (s1, Inr True)
          else if should_create_header s1 then
            (case propose_next_header g s1 of
               None \<Rightarrow> None
             | Some s2 \<Rightarrow> Some (s2\<lparr> pr_max_timed_out := False, pr_min_timed_out := False \<rparr>, Inr True))
          else Some (s1, Inr True)
      | r \<Rightarrow> r)"

section \<open>Runs\<close>

text \<open>The batches that a pending, a sent or a proposed header carries, and its round.\<close>

definition payload_digests :: "header \<Rightarrow> block_hash set" where
  "payload_digests h = fst ` set (h_payload h)"

fun pending_digests :: "pending_header \<Rightarrow> block_hash set" where
  "pending_digests (NewHeader r e ps ds) = pd_digest ` set ds"
| "pending_digests (Reproposed h) = payload_digests h"
| "pending_digests (Finished (Inr h)) = payload_digests h"
| "pending_digests (Finished (Inl e)) = {}"

fun pending_round :: "pending_header \<Rightarrow> round" where
  "pending_round (NewHeader r e ps ds) = r"
| "pending_round (Reproposed h) = h_round h"
| "pending_round (Finished (Inr h)) = h_round h"
| "pending_round (Finished (Inl e)) = 0"

fun pending_sent :: "pending_header \<Rightarrow> bool" where
  "pending_sent (Finished r) = True"
| "pending_sent p = False"

definition tracked :: "proposer \<Rightarrow> block_hash set" where
  "tracked s =
     pd_digest ` set (pr_digests s) \<union> (case pr_pending s of None \<Rightarrow> {} | Some p \<Rightarrow> pending_digests p) \<union>
     (\<Union>e\<in>set (pr_proposed s). payload_digests (snd e))"

fun acked_by :: "proposer_event \<Rightarrow> block_hash set" where
  "acked_by (OurDigest d) = {pd_digest d}"
| "acked_by _ = {}"

fun committed_by :: "proposer_event \<Rightarrow> proposer \<Rightarrow> block_hash set" where
  "committed_by (CommittedOwnHeaders c rs) s = (\<Union>e\<in>{e \<in> set (pr_proposed s). fst e \<in> set rs}. payload_digests (snd e))"
| "committed_by _ s = {}"

text \<open>No 32 bit round overflows in a turn.\<close>

fun rounds_fit :: "proposer_event \<Rightarrow> proposer \<Rightarrow> bool" where
  "rounds_fit (NewParents xs r) s = (max r (max (pr_round s) (pr_bus_round s)) + 1 < u32_max)"
| "rounds_fit _ s = (max (pr_round s) (pr_bus_round s) + 1 < u32_max)"

text \<open>
  A run: turns of the loop, the header task, and changes of the leader schedule and of the shared round
  by other tasks. The two sets are the batches acknowledged to the workers, and those of headers
  reported as committed. A failure of the store, or of the channel to the certifier, ends the task and
  with it the run.
\<close>

type_synonym proposer_run = "proposer \<times> block_hash set \<times> block_hash set"

inductive proposer_step :: "crypto \<Rightarrow> rng \<Rightarrow> proposer_run \<Rightarrow> proposer_run \<Rightarrow> bool" for cr g where
  turn: "proposer_turn g ev s = Some (s', Inr True) \<Longrightarrow> rounds_fit ev s \<Longrightarrow>
    proposer_step cr g (s, acked, com) (s', acked \<union> acked_by ev, com \<union> committed_by ev s)"
| task: "proposer_step cr g (s, acked, com) (header_task cr now latest s, acked, com)"
| other: "proposer_step cr g (s, acked, com) (s\<lparr> pr_schedule := ls, pr_bus_round := b \<rparr>, acked, com)"

definition sent_ok :: "proposer \<Rightarrow> bool" where
  "sent_ok s =
     (sorted_wrt (<) (map h_round (pr_sent s)) \<and> (\<forall>h\<in>set (pr_sent s). h_round h \<le> pr_round s) \<and>
      (\<forall>p. pr_pending s = Some p \<longrightarrow> \<not> pending_sent p \<longrightarrow> (\<forall>h\<in>set (pr_sent s). h_round h < pending_round p)))"

definition proposed_ok :: "proposer \<Rightarrow> bool" where
  "proposed_ok s =
     (bt_sorted (pr_proposed s) \<and> (\<forall>e\<in>set (pr_proposed s). fst e \<le> pr_round s) \<and>
      (\<forall>p. pr_pending s = Some p \<longrightarrow> pending_round p \<le> pr_round s \<and> (\<forall>e\<in>set (pr_proposed s). fst e < pending_round p)))"

definition no_failure :: "proposer \<Rightarrow> bool" where
  "no_failure s = (pr_certifier_open s \<and> (\<forall>e. pr_pending s \<noteq> Some (Finished (Inl e))))"

definition proposer_inv :: "proposer_run \<Rightarrow> bool" where
  "proposer_inv r = (case r of (s, acked, com) \<Rightarrow> sent_ok s \<and> proposed_ok s \<and> no_failure s \<and> acked \<subseteq> tracked s \<union> com)"

section \<open>Invariants of a run\<close>

lemma payload_of_keys: "fst ` set (payload_of ds) = pd_digest ` set ds"
  using dom_fold_update[of pd_digest "\<lambda>d. (pd_worker d, pd_timestamp d)" ds "[]"]
  by (simp add: payload_of_def dom_map_of_conv_image_fst)

lemma header_digests_keys: "pd_digest ` set (header_digests h) = payload_digests h"
  by (force simp: header_digests_def payload_digests_def image_iff)

lemma fold_bt_remove: "fold bt_remove ks m = filter (\<lambda>e. fst e \<notin> set ks) m"
  by (induction ks arbitrary: m) (auto simp: bt_remove_def intro: filter_cong)

text \<open>What stays the same when only rounds, parents and timers change.\<close>

definition same_books :: "proposer \<Rightarrow> proposer \<Rightarrow> bool" where
  "same_books s t =
     (pr_sent t = pr_sent s \<and> pr_digests t = pr_digests s \<and> pr_proposed t = pr_proposed s \<and> pr_pending t = pr_pending s \<and>
      pr_certifier_open t = pr_certifier_open s \<and> pr_round s \<le> pr_round t)"

lemma same_books_inv:
  assumes "same_books s t" "proposer_inv (s, acked, com)"
  shows "proposer_inv (t, acked, com)"
proof -
  have "sent_ok t" using assms by (auto simp: same_books_def proposer_inv_def sent_ok_def)
  moreover have "proposed_ok t" using assms by (auto simp: same_books_def proposer_inv_def proposed_ok_def)
  ultimately show ?thesis using assms by (simp add: same_books_def proposer_inv_def no_failure_def tracked_def)
qed

lemma ready_books: "ready g s = Some (t, b) \<Longrightarrow> same_books s t \<and> pr_round t = pr_round s \<and> pr_bus_round t = pr_bus_round s"
  by (auto simp: ready_def update_leader_def same_books_def Let_def split: if_splits option.splits)

lemma take_parents_books:
  "take_parents g xs r s = Some t \<Longrightarrow> same_books s t \<and> pr_round t = max r (pr_round s) \<and> pr_bus_round t \<in> {r, pr_bus_round s}"
  by (auto simp: take_parents_def same_books_def Let_def split: if_splits)

lemma process_parents_books:
  assumes "process_parents g xs r s = Some t"
  shows "same_books s t \<and> pr_round t = max r (pr_round s) \<and> pr_bus_round t \<in> {r, pr_bus_round s}"
proof -
  obtain s2 s3 b where s: "take_parents g xs r s = Some s2" "ready g s2 = Some (s3, b)" "t = s3\<lparr> pr_advance_round := b \<rparr>"
    using assms by (auto simp: process_parents_def split: option.splits)
  show ?thesis using take_parents_books[OF s(1)] ready_books[OF s(2)] s(3) by (auto simp: same_books_def)
qed

lemma committed_tracked:
  assumes "bt_sorted (pr_proposed s)"
  shows "tracked s \<subseteq> tracked (process_committed_headers c rs s) \<union> committed_by (CommittedOwnHeaders c rs) s"
proof -
  let ?m = "fold max rs 0" and ?left = "fold bt_remove rs (pr_proposed s)"
  let ?re = "takeWhile (\<lambda>e. \<not> fst e > ?m) ?left"
  let ?t = "process_committed_headers c rs s"
  have t: "pr_digests ?t = concat (map (\<lambda>e. header_digests (snd e)) ?re) @ pr_digests s" "pr_proposed ?t = fold bt_remove (map fst ?re) ?left"
    "pr_pending ?t = pr_pending s"
    by (auto simp: process_committed_headers_def Let_def)
  have d: "distinct (map fst ?left)"
    using bt_sorted_distinct[OF assms] by (simp add: fold_bt_remove distinct_map inj_on_def)
  have "payload_digests (snd e) \<subseteq> tracked ?t" if e: "e \<in> set ?left" for e
  proof (cases "fst e \<in> fst ` set ?re")
    case True
    then obtain e' where e': "e' \<in> set ?re" "fst e' = fst e" by force
    hence "e' = e" using d e set_takeWhileD[of e'] by (auto simp: distinct_map dest: inj_onD)
    hence "pd_digest ` set (header_digests (snd e)) \<subseteq> pd_digest ` set (pr_digests ?t)" using e'(1) unfolding t(1) by auto
    thus ?thesis by (auto simp: tracked_def header_digests_keys)
  next
    case False
    hence "e \<in> set (pr_proposed ?t)" using e unfolding t(2) by (simp add: fold_bt_remove)
    thus ?thesis by (auto simp: tracked_def)
  qed
  moreover have "e \<in> set ?left \<or> fst e \<in> set rs" if "e \<in> set (pr_proposed s)" for e using that by (simp add: fold_bt_remove)
  ultimately have "payload_digests (snd e) \<subseteq> tracked ?t \<union> committed_by (CommittedOwnHeaders c rs) s" if "e \<in> set (pr_proposed s)" for e
    using that by fastforce
  moreover have "pd_digest ` set (pr_digests s) \<subseteq> tracked ?t" unfolding tracked_def t(1) by auto
  moreover have "(case pr_pending s of None \<Rightarrow> {} | Some p \<Rightarrow> pending_digests p) \<subseteq> tracked ?t" unfolding tracked_def t(3) by auto
  ultimately show ?thesis unfolding tracked_def[of s] by blast
qed

lemma committed_inv:
  assumes "proposer_inv (s, acked, com)"
  shows "proposer_inv (process_committed_headers c rs s, acked, com \<union> committed_by (CommittedOwnHeaders c rs) s)"
proof -
  let ?t = "process_committed_headers c rs s"
  have sub: "set (pr_proposed ?t) \<subseteq> set (pr_proposed s)" "bt_sorted (pr_proposed ?t) \<or> \<not> bt_sorted (pr_proposed s)"
    by (auto simp: process_committed_headers_def Let_def fold_bt_remove bt_sorted_def sorted_wrt_map sorted_wrt_filter)
  have same: "pr_sent ?t = pr_sent s" "pr_pending ?t = pr_pending s" "pr_certifier_open ?t = pr_certifier_open s" "pr_round ?t = pr_round s"
    by (simp_all add: process_committed_headers_def Let_def)
  have "proposed_ok ?t" using assms sub unfolding proposer_inv_def proposed_ok_def same by auto
  moreover have "sent_ok ?t" using assms unfolding proposer_inv_def sent_ok_def same by auto
  moreover have "no_failure ?t" using assms unfolding proposer_inv_def no_failure_def same by auto
  moreover have "acked \<subseteq> tracked ?t \<union> (com \<union> committed_by (CommittedOwnHeaders c rs) s)"
    using assms committed_tracked[of s c rs] by (auto simp: proposer_inv_def proposed_ok_def)
  ultimately show ?thesis by (simp add: proposer_inv_def)
qed

lemma next_round_greater: "max (pr_round s) (pr_bus_round s) + 1 < u32_max \<Longrightarrow> pr_round s < next_round s"
  by (simp add: next_round_def Let_def u32_add_def)

lemma propose_next_cases:
  assumes "propose_next_header g s = Some t"
  obtains h where "h_round h = next_round s"
      "t = s\<lparr> pr_round := next_round s, pr_bus_round := next_round s, pr_last_parents := [], pr_pending := Some (Reproposed h) \<rparr>"
  | n where "t = s\<lparr> pr_round := next_round s, pr_bus_round := next_round s, pr_digests := drop n (pr_digests s), pr_last_parents := [],
        pr_pending := Some (NewHeader (next_round s) (c_epoch (pr_committee s)) (pr_last_parents s) (take n (pr_digests s))) \<rparr>"
      "n \<le> pr_max_batches s"
proof (cases "header_to_repropose (next_round s) (s\<lparr> pr_round := next_round s, pr_bus_round := next_round s \<rparr>)")
  case (Some h)
  thus ?thesis using that(1)[of h] assms
    by (simp add: propose_next_header_def header_to_repropose_def Let_def split: option.splits if_splits)
next
  case None
  thus ?thesis using that(2)[of "min (length (pr_digests s)) (pr_max_batches s)"] assms
    by (simp add: propose_next_header_def Let_def split: option.splits)
qed

lemma propose_next_fields:
  assumes "propose_next_header g s = Some t" "max (pr_round s) (pr_bus_round s) + 1 < u32_max"
  shows "pr_sent t = pr_sent s" "pr_proposed t = pr_proposed s" "pr_certifier_open t = pr_certifier_open s" "pr_round s < pr_round t"
    "\<exists>p. pr_pending t = Some p \<and> \<not> pending_sent p \<and> pending_round p = pr_round t \<and>
      pd_digest ` set (pr_digests s) \<subseteq> pd_digest ` set (pr_digests t) \<union> pending_digests p"
proof -
  have split: "pd_digest ` set ds \<subseteq> pd_digest ` set (drop n ds) \<union> pd_digest ` set (take n ds)" for ds :: "proposer_digest list" and n
    using append_take_drop_id[of n ds] set_append[of "take n ds" "drop n ds"] by (metis image_Un sup_commute order_refl)
  show "pr_sent t = pr_sent s" by (rule propose_next_cases[OF assms(1)]) simp_all
  show "pr_proposed t = pr_proposed s" by (rule propose_next_cases[OF assms(1)]) simp_all
  show "pr_certifier_open t = pr_certifier_open s" by (rule propose_next_cases[OF assms(1)]) simp_all
  show "pr_round s < pr_round t" by (rule propose_next_cases[OF assms(1)]) (simp_all add: next_round_greater[OF assms(2)])
  show "\<exists>p. pr_pending t = Some p \<and> \<not> pending_sent p \<and> pending_round p = pr_round t \<and>
      pd_digest ` set (pr_digests s) \<subseteq> pd_digest ` set (pr_digests t) \<union> pending_digests p"
    by (rule propose_next_cases[OF assms(1)]) (simp_all add: split)
qed

lemma propose_next_inv:
  assumes inv: "proposer_inv (s, acked, com)" and "pr_pending s = None"
    and t: "propose_next_header g s = Some t" "max (pr_round s) (pr_bus_round s) + 1 < u32_max"
  shows "proposer_inv (t, acked, com)"
proof -
  note f = propose_next_fields[OF t]
  obtain p where p: "pr_pending t = Some p" "\<not> pending_sent p" "pending_round p = pr_round t"
    "pd_digest ` set (pr_digests s) \<subseteq> pd_digest ` set (pr_digests t) \<union> pending_digests p" using f(5) by blast
  have i: "sent_ok s" "proposed_ok s" "no_failure s" "acked \<subseteq> tracked s \<union> com" using inv by (simp_all add: proposer_inv_def)
  have "sent_ok t" using i(1) f p by (force simp: sent_ok_def)
  moreover have "proposed_ok t" using i(2) f p by (force simp: proposed_ok_def)
  moreover have "no_failure t" using i(3) f p by (auto simp: no_failure_def)
  moreover have "tracked s \<subseteq> tracked t" using f(2) p(1,4) assms(2) by (auto simp: tracked_def)
  ultimately show ?thesis using i(4) by (auto simp: proposer_inv_def)
qed

lemma handle_result_inv:
  assumes inv: "proposer_inv (s, acked, com)" and p: "pr_pending s = Some (Finished res)"
    and t: "handle_proposal_result g res (s\<lparr> pr_pending := None \<rparr>) = Some (t, Inr ())"
  shows "proposer_inv (t, acked, com) \<and> pr_pending t = None \<and> pr_round t = pr_round s \<and> pr_bus_round t = pr_bus_round s"
proof -
  obtain h where h: "res = Inr h" using inv p by (cases res) (auto simp: proposer_inv_def no_failure_def)
  have f: "pr_sent t = pr_sent s" "pr_proposed t = bt_insert (h_round h) h (pr_proposed s)" "pr_certifier_open t = pr_certifier_open s"
    "pr_round t = pr_round s" "pr_pending t = None" "pr_digests t = pr_digests s" "pr_bus_round t = pr_bus_round s"
    using t by (auto simp: handle_proposal_result_def h Let_def split: option.splits)
  have i: "sent_ok s" "no_failure s" "acked \<subseteq> tracked s \<union> com" and b: "bt_sorted (pr_proposed s)" "\<forall>e\<in>set (pr_proposed s). fst e \<le> pr_round s"
    and k: "h_round h \<le> pr_round s" "\<forall>e\<in>set (pr_proposed s). fst e < h_round h"
    using inv p h by (auto simp: proposer_inv_def proposed_ok_def)
  have v: "set (pr_proposed t) = insert (h_round h, h) (set (pr_proposed s))"
    using bt.values_put[OF b(1), of "h_round h" h] k(2) f(2) by auto
  have "sent_ok t" using i(1) f by (simp add: sent_ok_def)
  moreover have "proposed_ok t" using b k v f by (auto simp: proposed_ok_def bt_sorted_insert)
  moreover have "no_failure t" using i(2) f by (simp add: no_failure_def)
  moreover have "tracked s \<subseteq> tracked t" using v f p h by (auto simp: tracked_def)
  ultimately show ?thesis using i(3) f by (auto simp: proposer_inv_def)
qed

lemma store_and_send_open: "pr_certifier_open s \<Longrightarrow> store_and_send_header h s = (s\<lparr> pr_store := Some h, pr_sent := pr_sent s @ [h] \<rparr>, Inr ())"
  by (simp add: store_and_send_header_def write_last_proposed_def Let_def)

lemma header_task_cases:
  assumes "pr_certifier_open s"
  obtains "header_task cr now latest s = s"
  | h p where "pr_pending s = Some p" "\<not> pending_sent p" "h_round h = pending_round p" "payload_digests h = pending_digests p"
    "header_task cr now latest s = s\<lparr> pr_store := Some h, pr_sent := pr_sent s @ [h], pr_pending := Some (Finished (Inr h)) \<rparr>"
proof -
  consider "header_task cr now latest s = s" | r e ps ds where "pr_pending s = Some (NewHeader r e ps ds)" | h where "pr_pending s = Some (Reproposed h)"
  proof (cases "pr_pending s")
    case (Some p)
    thus ?thesis using that by (cases p) (simp_all add: header_task_def)
  qed (use that in \<open>simp add: header_task_def\<close>)
  thus thesis
  proof cases
    case (2 r e ps ds)
    let ?t = "max now (fold (\<lambda>x t. max t (h_created_at (c_header x))) ps 0)"
    let ?h = "header_new cr ?t (pr_self s) r e (payload_of ds) (bs_collect (map cert_digest ps)) latest"
    have "header_task cr now latest s = s\<lparr> pr_store := Some ?h, pr_sent := pr_sent s @ [?h], pr_pending := Some (Finished (Inr ?h)) \<rparr>"
      using 2 store_and_send_open[OF assms, of ?h] by (simp add: header_task_def propose_header_def Let_def)
    moreover have "h_round ?h = r" "payload_digests ?h = pd_digest ` set ds"
      by (simp_all add: header_new_def Let_def payload_digests_def payload_of_keys)
    ultimately show ?thesis using that(2)[OF 2, of ?h] by simp
  next
    case (3 h)
    thus ?thesis using that(2)[OF 3, of h] store_and_send_open[OF assms, of h] by (simp add: header_task_def repropose_header_def)
  qed (rule that(1))
qed

lemma header_task_inv:
  assumes inv: "proposer_inv (s, acked, com)"
  shows "proposer_inv (header_task cr now latest s, acked, com)"
proof -
  have o: "pr_certifier_open s" and i: "sent_ok s" "proposed_ok s" "acked \<subseteq> tracked s \<union> com" using inv by (auto simp: proposer_inv_def no_failure_def)
  show ?thesis
  proof (rule header_task_cases[OF o, of cr now latest])
    fix h p assume p: "pr_pending s = Some p" "\<not> pending_sent p" "h_round h = pending_round p" "payload_digests h = pending_digests p"
      and e: "header_task cr now latest s = s\<lparr> pr_store := Some h, pr_sent := pr_sent s @ [h], pr_pending := Some (Finished (Inr h)) \<rparr>"
    let ?t = "s\<lparr> pr_store := Some h, pr_sent := pr_sent s @ [h], pr_pending := Some (Finished (Inr h)) \<rparr>"
    have "sent_ok ?t" using i(1,2) p by (auto simp: sent_ok_def proposed_ok_def sorted_wrt_append)
    moreover have "proposed_ok ?t" using i(2) p by (auto simp: proposed_ok_def)
    moreover have "no_failure ?t" using o by (simp add: no_failure_def)
    moreover have "tracked ?t = tracked s" using p by (auto simp: tracked_def)
    ultimately show ?thesis using i(3) e by (simp add: proposer_inv_def)
  qed (use inv in simp)
qed

lemma tracked_digest: "tracked (s\<lparr> pr_digests := pr_digests s @ [d] \<rparr>) = insert (pd_digest d) (tracked s)"
  by (auto simp: tracked_def)

lemma event_inv:
  assumes inv: "proposer_inv (s, acked, com)" and st: "proposer_event_step g ev s = Some (t, Inr True)" and fit: "rounds_fit ev s"
  shows "proposer_inv (t, acked \<union> acked_by ev, com \<union> committed_by ev s) \<and> max (pr_round t) (pr_bus_round t) + 1 < u32_max"
proof (cases ev)
  case (OurDigest d)
  hence t: "t = s\<lparr> pr_digests := pr_digests s @ [d] \<rparr>" using st by (simp add: proposer_event_step_def)
  have "sent_ok t" "proposed_ok t" "no_failure t" using inv t by (simp_all add: proposer_inv_def sent_ok_def proposed_ok_def no_failure_def)
  thus ?thesis using inv tracked_digest[of s d] OurDigest t fit by (auto simp: proposer_inv_def)
next
  case (NewParents xs r)
  hence "process_parents g xs r s = Some t" using st by (simp add: proposer_event_step_def)
  from process_parents_books[OF this] show ?thesis using same_books_inv[OF _ inv, of t] NewParents fit by auto
next
  case (CommittedOwnHeaders c rs)
  hence t: "t = process_committed_headers c rs s" using st by (simp add: proposer_event_step_def)
  hence "pr_round t = pr_round s" "pr_bus_round t = pr_bus_round s" by (simp_all add: process_committed_headers_def Let_def)
  thus ?thesis using committed_inv[OF inv, of c rs] CommittedOwnHeaders fit t by simp
next
  case PendingDone
  show ?thesis
  proof (cases "\<exists>res. pr_pending s = Some (Finished res)")
    case True
    then obtain res where p: "pr_pending s = Some (Finished res)" by blast
    then obtain r where r: "handle_proposal_result g res (s\<lparr> pr_pending := None \<rparr>) = Some (t, r)" "(case r of Inl e \<Rightarrow> Inl e | Inr _ \<Rightarrow> Inr True) = Inr True"
      using st PendingDone by (auto simp: proposer_event_step_def)
    hence "handle_proposal_result g res (s\<lparr> pr_pending := None \<rparr>) = Some (t, Inr ())" by (cases r) simp_all
    from handle_result_inv[OF inv p this] show ?thesis using PendingDone fit by simp
  next
    case False
    hence "t = s" using st PendingDone by (auto simp: proposer_event_step_def split: option.splits pending_header.splits)
    thus ?thesis using inv PendingDone fit by simp
  qed
next
  case MaxDelayTick
  thus ?thesis using st same_books_inv[OF _ inv, of t] fit by (auto simp: proposer_event_step_def same_books_def)
next
  case MinDelayTick
  thus ?thesis using st same_books_inv[OF _ inv, of t] fit by (auto simp: proposer_event_step_def same_books_def)
qed (use st in \<open>simp add: proposer_event_step_def\<close>)

lemma turn_inv:
  assumes inv: "proposer_inv (s, acked, com)" and t: "proposer_turn g ev s = Some (t, Inr True)" and fit: "rounds_fit ev s"
  shows "proposer_inv (t, acked \<union> acked_by ev, com \<union> committed_by ev s)"
proof -
  obtain s1 where s1: "proposer_event_step g ev s = Some (s1, Inr True)"
    using t by (auto simp: proposer_turn_def split: option.splits sum.splits bool.splits)
  note e = event_inv[OF inv s1 fit]
  consider "t = s1" | s2 where "pr_pending s1 = None" "propose_next_header g s1 = Some s2" "t = s2\<lparr> pr_max_timed_out := False, pr_min_timed_out := False \<rparr>"
    using t s1 by (auto simp: proposer_turn_def split: if_splits option.splits)
  thus ?thesis
  proof cases
    case (2 s2)
    have "proposer_inv (s2, acked \<union> acked_by ev, com \<union> committed_by ev s)"
      using propose_next_inv[OF conjunct1[OF e] 2(1,2) conjunct2[OF e]] .
    moreover have "same_books s2 t" using 2(3) by (simp add: same_books_def)
    ultimately show ?thesis using same_books_inv by blast
  qed (use e in simp)
qed

lemma proposer_step_inv: "proposer_inv r \<Longrightarrow> proposer_step cr g r r' \<Longrightarrow> proposer_inv r'"
proof (erule proposer_step.cases, goal_cases)
  case (1 ev s s' acked com)
  thus ?case using turn_inv by blast
next
  case (2 s acked com now latest)
  thus ?case using header_task_inv by blast
next
  case (3 s acked com b ls)
  thus ?case using same_books_inv[of s "s\<lparr> pr_schedule := ls, pr_bus_round := b \<rparr>" acked com] by (simp add: same_books_def)
qed

lemma proposer_new_inv: "proposer_inv (proposer_new cr self c pp ls stored bus, {}, {})"
  by (simp add: proposer_new_def proposer_inv_def sent_ok_def proposed_ok_def no_failure_def tracked_def bt_sorted_Nil)

interpretation pr: step_system "\<lambda>r. \<exists>self c pp ls stored bus. r = (proposer_new cr self c pp ls stored bus, {}, {})"
  "proposer_step cr g" proposer_inv for cr g
  by unfold_locales (auto intro: proposer_new_inv proposer_step_inv)

section \<open>Own headers\<close>

text \<open>
  A proposer makes headers in the name of its authority only, with the digest of their content: the digest
  is not part of what is hashed, and the stored header that it may propose again is one of its own.
\<close>

definition hash_skips_digest :: "crypto \<Rightarrow> bool" where
  "hash_skips_digest cr = (\<forall>h d. hash_header cr (h\<lparr> h_digest := d \<rparr>) = hash_header cr h)"

definition own_header :: "crypto \<Rightarrow> authority_id \<Rightarrow> header \<Rightarrow> bool" where
  "own_header cr a h = (h_author h = a \<and> hash_header cr h = h_digest h)"

definition own_headers :: "crypto \<Rightarrow> authority_id \<Rightarrow> proposer \<Rightarrow> bool" where
  "own_headers cr a s =
     (pr_self s = a \<and> (\<forall>h\<in>set (pr_sent s). own_header cr a h) \<and> (\<forall>h. pr_store s = Some h \<longrightarrow> own_header cr a h) \<and>
      (\<forall>h. pr_pending s = Some (Reproposed h) \<longrightarrow> own_header cr a h))"

definition own_run :: "crypto \<Rightarrow> authority_id \<Rightarrow> proposer_run \<Rightarrow> bool" where
  "own_run cr a r = own_headers cr a (fst r)"

lemma own_header_new: "hash_skips_digest cr \<Longrightarrow> own_header cr a (header_new cr t a r e pl ps l)"
proof -
  assume skips: "hash_skips_digest cr"
  let ?h = "\<lparr> h_author = a, h_round = r, h_epoch = e, h_created_at = t, h_payload = pl, h_parents = ps, h_latest_execution_block = l, h_digest = 0 \<rparr>"
  have new: "header_new cr t a r e pl ps l = ?h\<lparr> h_digest := hash_header cr ?h \<rparr>" by (simp add: header_new_def Let_def)
  have "hash_header cr (?h\<lparr> h_digest := hash_header cr ?h \<rparr>) = hash_header cr ?h" using skips unfolding hash_skips_digest_def by blast
  thus ?thesis unfolding new own_header_def by simp
qed

lemma header_task_own:
  assumes "hash_skips_digest cr" "own_headers cr a s"
  shows "own_headers cr a (header_task cr now latest s)"
proof (cases "pr_pending s")
  case (Some p)
  show ?thesis
  proof (cases p)
    case (NewHeader r e ps ds)
    have new: "own_header cr a (header_new cr t (pr_self s) r e pl qs latest)" for t pl qs
      using own_header_new[OF assms(1)] assms(2) by (simp add: own_headers_def)
    show ?thesis using Some NewHeader assms(2) new
      by (auto simp: header_task_def propose_header_def store_and_send_header_def write_last_proposed_def own_headers_def Let_def)
  next
    case (Reproposed h)
    thus ?thesis using Some assms(2)
      by (auto simp: header_task_def repropose_header_def store_and_send_header_def write_last_proposed_def own_headers_def Let_def)
  qed (use Some assms(2) in \<open>simp add: header_task_def\<close>)
qed (use assms(2) in \<open>simp add: header_task_def\<close>)

text \<open>The books of own headers, which a turn of the loop leaves as they are.\<close>

definition same_own :: "proposer \<Rightarrow> proposer \<Rightarrow> bool" where
  "same_own s t \<longleftrightarrow> pr_self t = pr_self s \<and> pr_sent t = pr_sent s \<and> pr_store t = pr_store s \<and> pr_pending t \<in> {pr_pending s, None}"

lemma process_parents_own: "process_parents g xs r s = Some t \<Longrightarrow> same_own s t"
  by (auto simp: process_parents_def take_parents_def ready_def update_leader_def same_own_def Let_def split: if_splits option.splits)

lemma event_own:
  assumes "proposer_event_step g ev s = Some (t, r)"
  shows "same_own s t"
proof (cases ev)
  case (NewParents xs r)
  thus ?thesis using assms process_parents_own by (auto simp: proposer_event_step_def)
next
  case (CommittedOwnHeaders c rs)
  hence "t = process_committed_headers c rs s" using assms by (simp add: proposer_event_step_def)
  thus ?thesis by (simp add: process_committed_headers_def same_own_def Let_def)
next
  case PendingDone
  thus ?thesis using assms by (auto simp: proposer_event_step_def handle_proposal_result_def same_own_def Let_def
      split: option.splits pending_header.splits sum.splits)
qed (use assms in \<open>auto simp: proposer_event_step_def same_own_def\<close>)

lemma same_own_headers: "own_headers cr a s \<Longrightarrow> same_own s t \<Longrightarrow> own_headers cr a t"
  by (auto simp: own_headers_def same_own_def)

lemma propose_next_own:
  assumes "own_headers cr a s" "propose_next_header g s = Some t"
  shows "own_headers cr a t"
  using assms by (auto simp: propose_next_header_def header_to_repropose_def get_last_proposed_def own_headers_def Let_def
      split: option.splits if_splits)

lemma turn_own:
  assumes "own_headers cr a s" "proposer_turn g ev s = Some (t, r)"
  shows "own_headers cr a t"
proof -
  obtain s1 r1 where s1: "proposer_event_step g ev s = Some (s1, r1)" using assms(2) by (auto simp: proposer_turn_def split: option.splits)
  have o: "own_headers cr a s1" by (rule same_own_headers[OF assms(1) event_own[OF s1]])
  consider "t = s1" | s2 where "propose_next_header g s1 = Some s2" "t = s2\<lparr> pr_max_timed_out := False, pr_min_timed_out := False \<rparr>"
    using assms(2) s1 by (auto simp: proposer_turn_def split: if_splits option.splits sum.splits bool.splits)
  thus ?thesis using o propose_next_own[OF o] by cases (auto simp: own_headers_def)
qed

interpretation own: step_system
  "\<lambda>r. \<exists>c pp ls stored bus. r = (proposer_new cr a c pp ls stored bus, {}, {}) \<and> hash_skips_digest cr \<and>
     (\<forall>h. stored = Some h \<longrightarrow> own_header cr a h)"
  "proposer_step cr g" "\<lambda>r. hash_skips_digest cr \<and> own_run cr a r" for cr g a
proof (unfold_locales, goal_cases)
  case (1 r)
  thus ?case by (auto simp: own_run_def own_headers_def proposer_new_def)
next
  case (2 r r')
  have o: "hash_skips_digest cr" "own_headers cr a (fst r)" using 2(1) by (simp_all add: own_run_def)
  from 2(2) have "own_headers cr a (fst r')"
  proof cases
    case (turn ev s s' acked com)
    thus ?thesis using turn_own[of cr a s] o(2) by simp
  next
    case (task s acked com now latest)
    thus ?thesis using header_task_own[OF o(1), of a s] o(2) by simp
  next
    case (other s acked com ls b)
    thus ?thesis using o(2) by (simp add: own_headers_def)
  qed
  thus ?case using o(1) by (simp add: own_run_def)
qed

text \<open>In one run an authority sends at most one header for a round.\<close>

lemma sent_one_per_round:
  assumes "(proposer_step cr g)\<^sup>*\<^sup>* (proposer_new cr a c pp ls stored bus, {}, {}) (s, acked, com)"
    and "h \<in> set (pr_sent s)" "h' \<in> set (pr_sent s)" "h_round h = h_round h'"
  shows "h = h'"
proof -
  have "proposer_inv (s, acked, com)" using pr.inv_reachable[OF _ assms(1)] by blast
  hence "distinct (map h_round (pr_sent s))" by (simp add: proposer_inv_def sent_ok_def strict_sorted_iff)
  thus ?thesis using assms(2-4) by (auto simp: distinct_map dest: inj_onD)
qed

lemma sent_own:
  assumes "(proposer_step cr g)\<^sup>*\<^sup>* (proposer_new cr a c pp ls stored bus, {}, {}) (s, acked, com)"
    and "hash_skips_digest cr" "\<forall>h. stored = Some h \<longrightarrow> own_header cr a h" "h \<in> set (pr_sent s)"
  shows "own_header cr a h"
proof -
  have "own_run cr a (s, acked, com)" using own.inv_reachable[OF _ assms(1), of a] assms(2,3) by blast
  thus ?thesis using assms(4) by (simp add: own_run_def own_headers_def)
qed

end
