(* ===== verification/Vote_Safety.thy ===== *)
theory Vote_Safety
  imports Vote_Handler Proposer Bullshark_Total_Order
begin

text \<open>
  What the votes of correct authorities guarantee. A vote request runs in a task of its own
  (crates/consensus/primary/src/network/mod.rs, process_vote_request): the table of votes is read
  and written in two steps between which other tasks run. The step relation below has both; when
  no two requests of one author are between the two steps at a time, no author and round get votes
  for two headers. An authority signs two kinds of headers: those it votes for as a handler of requests,
  and its own, which the proposer sends to the certifier. When both are accounted for, the certificates
  that verification accepts satisfy what consensus assumes of them.
\<close>

section \<open>Admitted headers\<close>

lemma read_write_vote: "bt_sorted st \<Longrightarrow> read_vote_info (write_vote v st) a = (if a = v_origin v then Some (vote_info_of v) else read_vote_info st a)"
  by (simp add: read_vote_info_def write_vote_def bt.get_put)

lemma write_vote_sorted: "bt_sorted st \<Longrightarrow> bt_sorted (write_vote v st)"
  by (simp add: write_vote_def bt_sorted_insert)

lemma accept_parents_fields: "\<exists>v. fst (accept_parents nd xs s) = s\<lparr> vh_sync := v \<rparr>"
proof (induction xs arbitrary: s)
  case (Cons x xs)
  obtain v r where r: "process_peer_certificate nd x (vh_sync s) = (v, r)" by force
  obtain u where "fst (accept_parents nd xs (s\<lparr> vh_sync := v \<rparr>)) = s\<lparr> vh_sync := v \<rparr>\<lparr> vh_sync := u \<rparr>" using Cons.IH by blast
  thus ?case using r by (cases r) auto
next
  case (Nil s)
  show ?case by (rule exI[of _ "vh_sync s"]) simp
qed

lemma try_accept_fields: "\<exists>v. fst (try_accept_unknown_certs nd h xs s) = s\<lparr> vh_sync := v \<rparr>"
  unfolding try_accept_unknown_certs_def by (rule accept_parents_fields)

lemma missing_parents_fields: "\<exists>m. fst (check_for_missing_parents nd h s) = s\<lparr> vh_requested := m \<rparr>"
  by (cases "identify_unkown_parents nd h (vh_sync s)")
    (auto simp: check_for_missing_parents_def Let_def split: prod.splits intro: exI[of _ "vh_requested s"])

text \<open>The handling of the parents touches the certificates and the requests only.\<close>

lemma parents_stage_fields: "\<exists>v m. fst (vote_parents_stage nd h ps s) = s\<lparr> vh_sync := v, vh_requested := m \<rparr>"
proof (cases "ps = []")
  case True
  obtain s1 r where c: "check_for_missing_parents nd h s = (s1, r)" by force
  then obtain m where "s1 = s\<lparr> vh_requested := m \<rparr>" using missing_parents_fields[of nd h s] by auto
  hence "fst (vote_parents_stage nd h ps s) = s\<lparr> vh_sync := vh_sync s, vh_requested := m \<rparr>"
    using True c by (cases r) (simp_all add: vote_parents_stage_def)
  thus ?thesis by blast
next
  case False
  show ?thesis
  proof (cases "try_map set_unverified ps")
    case (Inr qs)
    obtain s1 r where c: "try_accept_unknown_certs nd h qs s = (s1, r)" by force
    then obtain v where "s1 = s\<lparr> vh_sync := v \<rparr>" using try_accept_fields[of nd h qs s] by auto
    hence "fst (vote_parents_stage nd h ps s) = s\<lparr> vh_sync := v, vh_requested := vh_requested s \<rparr>"
      using False c Inr by (cases r) (simp_all add: vote_parents_stage_def)
    thus ?thesis by blast
  next
    case (Inl e)
    hence "fst (vote_parents_stage nd h ps s) = s\<lparr> vh_sync := vh_sync s, vh_requested := vh_requested s \<rparr>"
      using False by (simp add: vote_parents_stage_def)
    thus ?thesis by blast
  qed
qed

lemma parents_stage_keeps:
  assumes "vote_parents_stage nd h ps s = (s1, r)"
  shows "vh_votes s1 = vh_votes s" "vh_payload s1 = vh_payload s"
  using parents_stage_fields[of nd h ps s] assms by auto

lemma vote_admission_votes: "vh_votes (fst (vote_admission nd w peer h ps s)) = vh_votes s"
proof -
  obtain s1 r where st: "vote_parents_stage nd h ps s = (s1, r)" by force
  show ?thesis unfolding vote_admission_def st using parents_stage_keeps(1)[OF st]
    by (cases r) (simp_all split: sum.split prod.split option.split)
qed

text \<open>What a header must satisfy to be voted for, with the certificates its parents were read from.\<close>

definition votable :: "node \<Rightarrow> cert_store \<Rightarrow> header \<Rightarrow> bool" where
  "votable nd st h =
     (header_validate (nd_crypto nd) (nd_committee nd) (nd_workers nd) h = Inr () \<and>
      (\<exists>ps. notify_read_parent_certificates nd st h = Some (Inr ps) \<and> verify_parents (nd_committee nd) h ps = Inr ()))"

lemma admitted_votable: "vote_admission nd w peer h ps s = (s1, Admitted) \<Longrightarrow> votable nd (vw_store w) h \<and> h_author h = peer"
  by (auto simp: vote_admission_def votable_def check_request_def split: sum.splits prod.splits option.splits if_splits)

lemma admitted_batches:
  assumes "vote_admission nd w peer h ps s = (s1, Admitted)" "bt_sorted (vh_payload s)" "h_author h \<noteq> nd_self nd" "(d, i, t) \<in> set (h_payload h)"
  shows "contains_payload (vh_payload s1) d i"
proof -
  obtain s0 p where st: "vote_parents_stage nd h ps s = (s0, None)"
    and p: "sync_header_batches nd (vh_committed_round s0) (vw_batches w) h 0 (vh_payload s0) = (p, Some (Inr ()))" "s1 = s0\<lparr> vh_payload := p \<rparr>"
    using assms(1) by (auto simp: vote_admission_def split: sum.splits prod.splits option.splits if_splits)
  have "bt_sorted (vh_payload s0)" using parents_stage_keeps[OF st] assms(2) by simp
  from sync_header_batches_available[OF p(1) this assms(3,4)] show ?thesis using p(2) by simp
qed

subsection \<open>Parents form a quorum\<close>

lemma verify_parents_fold:
  assumes "try_fold (verify_parent c h) ps (as, n) = Inr (bs, m)"
  shows "distinct (map c_origin ps) \<and> set (map c_origin ps) \<inter> set as = {} \<and> set bs = set as \<union> set (map c_origin ps) \<and>
    (\<forall>x\<in>set ps. u32_add (c_round x) 1 = h_round h \<and> h_created_at (c_header x) \<le> h_created_at h) \<and>
    m = foldl u64_add n (map (\<lambda>x. voting_power_by_id c (c_origin x)) ps)"
  using assms
proof (induction ps arbitrary: as n)
  case (Cons x ps)
  have ok: "u32_add (c_round x) 1 = h_round h" "h_created_at (c_header x) \<le> h_created_at h" "c_origin x \<notin> set as"
    and rest: "try_fold (verify_parent c h) ps (bs_insert (c_origin x) as, u64_add n (voting_power_by_id c (c_origin x))) = Inr (bs, m)"
    using Cons.prems by (auto simp: verify_parent_def[of c h x] split: if_splits)
  from Cons.IH[OF rest] show ?case using ok by (auto simp: set_bs_insert)
qed simp

lemma verify_parents_quorum:
  assumes "committee_wf c" "power_fits c" "verify_parents c h ps = Inr ()"
  shows "distinct (map c_origin ps)" "\<forall>x\<in>set ps. u32_add (c_round x) 1 = h_round h \<and> h_created_at (c_header x) \<le> h_created_at h"
    "quorum_threshold c \<le> sum (voting_power_by_id c) (c_origin ` set ps \<inter> members c)"
proof -
  obtain bs m where f: "try_fold (verify_parent c h) ps ([], 0) = Inr (bs, m)" "quorum_threshold c \<le> m"
    using assms(3) by (auto simp: verify_parents_def split: sum.splits if_splits)
  note facts = verify_parents_fold[OF f(1)]
  show d: "distinct (map c_origin ps)" and "\<forall>x\<in>set ps. u32_add (c_round x) 1 = h_round h \<and> h_created_at (c_header x) \<le> h_created_at h"
    using facts by blast+
  let ?p = "voting_power_by_id c"
  have fin: "finite (members c)" by (simp add: members_def)
  have "sum_list (map ?p (map c_origin ps)) = sum ?p (c_origin ` set ps)"
    using sum_list_distinct_conv_sum_set[OF d, of ?p] by (simp only: list.set_map)
  also have "\<dots> = sum ?p (c_origin ` set ps \<inter> members c)"
    using power_non_member by (intro sum.mono_neutral_right) auto
  finally have s: "sum_list (map ?p (map c_origin ps)) = sum ?p (c_origin ` set ps \<inter> members c)" .
  have "sum ?p (c_origin ` set ps \<inter> members c) \<le> total_power c" unfolding total_power_def using fin by (intro sum_mono2) auto
  also have "total_power c < u64_max" using total_power_sum_list[OF assms(1)] assms(2) by (simp add: power_fits_def)
  finally have "foldl u64_add 0 (map (\<lambda>x. ?p (c_origin x)) ps) = sum ?p (c_origin ` set ps \<inter> members c)"
    using u64_sum_acc[of 0 "map ?p (map c_origin ps)"] s by (simp add: comp_def)
  thus "quorum_threshold c \<le> sum ?p (c_origin ` set ps \<inter> members c)" using f(2) facts by simp
qed

section \<open>Requests as tasks\<close>

text \<open>
  The state of the handler, the headers whose tasks have read the table and not yet written it, and
  the headers voted for, oldest first. The relation has two arguments besides the configuration:
  whether the requests of one author are handled one at a time, and the certificates that the
  stores of the node hold.
\<close>

definition store_in :: "certificate set \<Rightarrow> cert_store \<Rightarrow> bool" where
  "store_in X st = (keyed_by_digest st \<and> stored_certs st \<subseteq> X)"

type_synonym vote_run = "handler \<times> header list \<times> header list"

inductive task_step :: "node \<Rightarrow> bool \<Rightarrow> certificate set \<Rightarrow> vote_run \<Rightarrow> vote_run \<Rightarrow> bool" for nd excl X where
  read: "vote_admission nd w peer h ps s = (s', Admitted) \<Longrightarrow> store_in X (vw_store w) \<Longrightarrow>
    decide_vote nd (read_vote_info (vh_votes s') (h_author h)) h = Inr (Fresh v) \<Longrightarrow>
    (excl \<longrightarrow> h_author h \<notin> h_author ` set ws) \<Longrightarrow> task_step nd excl X (s, ws, log) (s', ws @ [h], log)"
| resend: "vote_admission nd w peer h ps s = (s', Admitted) \<Longrightarrow> store_in X (vw_store w) \<Longrightarrow>
    decide_vote nd (read_vote_info (vh_votes s') (h_author h)) h = Inr (Resend v) \<Longrightarrow>
    task_step nd excl X (s, ws, log) (s', ws, log @ [h])"
| refuse: "vote_admission nd w peer h ps s = (s', Admitted) \<Longrightarrow>
    decide_vote nd (read_vote_info (vh_votes s') (h_author h)) h = Inl e \<Longrightarrow> task_step nd excl X (s, ws, log) (s', ws, log)"
| not_admitted: "vote_admission nd w peer h ps s = (s', a) \<Longrightarrow> a \<noteq> Admitted \<Longrightarrow> task_step nd excl X (s, ws, log) (s', ws, log)"
| store: "h \<in> set ws \<Longrightarrow>
    task_step nd excl X (s, ws, log)
      (s\<lparr> vh_votes := write_vote (vote_new (nd_sign nd) h (nd_self nd)) (vh_votes s) \<rparr>, remove1 h ws, log @ [h])"
| other: "vh_votes s' = vh_votes s \<Longrightarrow> task_step nd excl X (s, ws, log) (s', ws, log)"

text \<open>The stage that handles the parents never answers with a vote.\<close>

lemma admission_no_vote: "vote_admission nd w peer h ps s \<noteq> (s1, Answered (Inr (Vote v)))"
proof -
  obtain s0 r where st: "vote_parents_stage nd h ps s = (s0, r)" by force
  have "r \<noteq> Some (Inr (Vote v))" using st
    by (auto simp: vote_parents_stage_def split: if_splits prod.splits sum.splits)
  thus ?thesis unfolding vote_admission_def st by (cases r) (auto split: sum.splits prod.splits option.splits if_splits)
qed

text \<open>Handling a request without interruption is a run of these steps.\<close>

lemma vote_is_task_run:
  assumes "handle_vote nd w peer h ps s = (s', Some (Inr (Vote v)))" "store_in X (vw_store w)"
  shows "(task_step nd True X)\<^sup>*\<^sup>* (s, [], log) (s', [], log @ [h]) \<and> v = vote_new (nd_sign nd) h (nd_self nd)"
proof -
  obtain s1 a where a: "vote_admission nd w peer h ps s = (s1, a)" by force
  let ?d = "decide_vote nd (read_vote_info (vh_votes s1) (h_author h)) h"
  have v: "v' = vote_new (nd_sign nd) h (nd_self nd)" if "?d = Inr (Fresh v') \<or> ?d = Inr (Resend v')" for v'
    using that by (auto simp: decide_vote_def Let_def split: option.splits if_splits)
  consider "a = Admitted" "?d = Inr (Fresh v)" "s' = s1\<lparr> vh_votes := write_vote v (vh_votes s1) \<rparr>"
    | "a = Admitted" "?d = Inr (Resend v)" "s' = s1"
    using assms(1) a admission_no_vote[of nd w peer h ps s s1 v] by (auto simp: handle_vote_def split: admission.splits sum.splits decision.splits)
  thus ?thesis
  proof cases
    case 1
    have "task_step nd True X (s, [], log) (s1, [] @ [h], log)" using task_step.read[of nd w peer h ps s s1 X v True "[]" log] a 1 assms(2) by simp
    moreover have "task_step nd True X (s1, [] @ [h], log) (s', [], log @ [h])"
      using task_step.store[of h "[h]" nd True X s1 log] 1(3) v[of v] 1(2) by simp
    ultimately show ?thesis using v 1(2) by (meson converse_rtranclp_into_rtranclp r_into_rtranclp)
  next
    case 2
    thus ?thesis using task_step.resend[of nd w peer h ps s s1 X v True "[]" log] a assms(2) v by blast
  qed
qed

lemma voted_admitted:
  assumes "handle_vote nd w peer h ps s = (s', Some (Inr (Vote v)))"
  shows "\<exists>s1. vote_admission nd w peer h ps s = (s1, Admitted) \<and> v = vote_new (nd_sign nd) h (nd_self nd) \<and> vh_payload s' = vh_payload s1"
proof -
  obtain s1 a where a: "vote_admission nd w peer h ps s = (s1, a)" by force
  hence "a = Admitted" using assms admission_no_vote[of nd w peer h ps s s1 v] by (cases a) (auto simp: handle_vote_def)
  thus ?thesis using assms a
    by (auto simp: handle_vote_def decide_vote_def Let_def split: sum.splits decision.splits option.splits if_splits)
qed

section \<open>One vote for an author and round\<close>

text \<open>The table of votes is at or past every header that was voted for.\<close>

definition votes_cover :: "vote_store \<Rightarrow> header list \<Rightarrow> bool" where
  "votes_cover st log =
     (\<forall>h\<in>set log. \<exists>vi. read_vote_info st (h_author h) = Some vi \<and> h_round h \<le> vi_round vi \<and>
        (h_round h = vi_round vi \<longrightarrow> h_digest h = vi_vote_digest vi))"

definition one_per_slot :: "header list \<Rightarrow> bool" where
  "one_per_slot log =
     (\<forall>h\<in>set log. \<forall>h'\<in>set log. h_author h = h_author h' \<and> h_round h = h_round h' \<longrightarrow> h_digest h = h_digest h')"

definition may_write :: "node \<Rightarrow> vote_store \<Rightarrow> header list \<Rightarrow> bool" where
  "may_write nd st ws =
     (distinct (map h_author ws) \<and> (\<forall>h\<in>set ws. \<exists>v. decide_vote nd (read_vote_info st (h_author h)) h = Inr (Fresh v)))"

definition vote_inv :: "node \<Rightarrow> certificate set \<Rightarrow> vote_run \<Rightarrow> bool" where
  "vote_inv nd X r =
     (case r of (s, ws, log) \<Rightarrow>
        bt_sorted (vh_votes s) \<and> votes_cover (vh_votes s) log \<and> one_per_slot log \<and> may_write nd (vh_votes s) ws \<and>
        (\<forall>h\<in>set ws \<union> set log. \<exists>st. store_in X st \<and> votable nd st h))"

lemma decide_fresh:
  "decide_vote nd prev h = Inr (Fresh v) \<Longrightarrow> prev = None \<or> (\<exists>vi. prev = Some vi \<and> vi_round vi < h_round h)"
  by (auto simp: decide_vote_def Let_def split: option.splits if_splits)

lemma decide_resend:
  "decide_vote nd prev h = Inr (Resend v) \<Longrightarrow> \<exists>vi. prev = Some vi \<and> vi_round vi = h_round h \<and> vi_vote_digest vi = h_digest h"
  by (auto simp: decide_vote_def Let_def vote_digest_def vote_new_def split: option.splits if_splits)

lemma vote_fields:
  "v_origin (vote_new sg h a) = h_author h" "vi_round (vote_info_of (vote_new sg h a)) = h_round h"
  "vi_vote_digest (vote_info_of (vote_new sg h a)) = h_digest h"
  by (simp_all add: vote_new_def vote_info_of_def vote_digest_def)

definition slot_covered :: "vote_store \<Rightarrow> header \<Rightarrow> bool" where
  "slot_covered st h =
     (\<exists>vi. read_vote_info st (h_author h) = Some vi \<and> h_round h \<le> vi_round vi \<and>
        (h_round h = vi_round vi \<longrightarrow> h_digest h = vi_vote_digest vi))"

lemma votes_cover_all: "votes_cover st log = (\<forall>h\<in>set log. slot_covered st h)"
  unfolding votes_cover_def slot_covered_def ..

lemma one_per_slot_snoc:
  assumes "one_per_slot log" "\<And>h'. h' \<in> set log \<Longrightarrow> h_author h' = h_author h \<Longrightarrow> h_round h' = h_round h \<Longrightarrow> h_digest h' = h_digest h"
  shows "one_per_slot (log @ [h])"
  unfolding one_per_slot_def
proof (intro ballI impI)
  fix x y assume "x \<in> set (log @ [h])" "y \<in> set (log @ [h])" and e: "h_author x = h_author y \<and> h_round x = h_round y"
  then consider "x \<in> set log" "y \<in> set log" | "x \<in> set log" "y = h" | "x = h" "y \<in> set log" | "x = y" by auto
  thus "h_digest x = h_digest y"
  proof cases
    case 1
    thus ?thesis using assms(1) e unfolding one_per_slot_def by blast
  next
    case 2
    thus ?thesis using assms(2)[of x] e by simp
  next
    case 3
    thus ?thesis using assms(2)[of y] e by simp
  qed simp
qed

lemma covered_resend:
  assumes "votes_cover st log" "one_per_slot log" "decide_vote nd (read_vote_info st (h_author h)) h = Inr (Resend v)"
  shows "votes_cover st (log @ [h]) \<and> one_per_slot (log @ [h])"
proof
  obtain vi where vi: "read_vote_info st (h_author h) = Some vi" "vi_round vi = h_round h" "vi_vote_digest vi = h_digest h"
    using decide_resend[OF assms(3)] by blast
  show "votes_cover st (log @ [h])" using assms(1) vi by (simp add: votes_cover_all slot_covered_def[of st h])
  show "one_per_slot (log @ [h])"
  proof (rule one_per_slot_snoc[OF assms(2)])
    fix h' assume h': "h' \<in> set log" "h_author h' = h_author h" "h_round h' = h_round h"
    hence "slot_covered st h'" using assms(1) by (simp add: votes_cover_all)
    thus "h_digest h' = h_digest h" using h' vi by (simp add: slot_covered_def)
  qed
qed

lemma covered_write:
  assumes "votes_cover st log" "one_per_slot log" "bt_sorted st" "decide_vote nd (read_vote_info st (h_author h)) h = Inr (Fresh v)"
  shows "votes_cover (write_vote (vote_new sg h a) st) (log @ [h]) \<and> one_per_slot (log @ [h])"
proof -
  let ?st = "write_vote (vote_new sg h a) st"
  have rd: "read_vote_info ?st b = (if b = h_author h then Some (vote_info_of (vote_new sg h a)) else read_vote_info st b)" for b
    using read_write_vote[OF assms(3)] by (simp add: vote_fields)
  have older: "h_round h' < h_round h" if h': "h' \<in> set log" "h_author h' = h_author h" for h'
  proof -
    have "slot_covered st h'" using assms(1) h'(1) by (simp add: votes_cover_all)
    then obtain vi where "read_vote_info st (h_author h) = Some vi" "h_round h' \<le> vi_round vi"
      unfolding slot_covered_def h'(2) by blast
    thus ?thesis using decide_fresh[OF assms(4)] by auto
  qed
  have "slot_covered ?st h'" if "h' \<in> set log" for h'
  proof (cases "h_author h' = h_author h")
    case True
    thus ?thesis using older[OF that] by (simp add: slot_covered_def rd vote_fields)
  next
    case False
    have "slot_covered st h'" using assms(1) that by (simp add: votes_cover_all)
    thus ?thesis using False by (simp add: slot_covered_def rd)
  qed
  moreover have "slot_covered ?st h" by (simp add: slot_covered_def rd vote_fields)
  moreover have "one_per_slot (log @ [h])" by (rule one_per_slot_snoc[OF assms(2)]) (use older in force)
  ultimately show ?thesis by (simp add: votes_cover_all)
qed

lemma may_write_rest:
  assumes "may_write nd st ws" "h \<in> set ws" "bt_sorted st"
  shows "may_write nd (write_vote (vote_new sg h a) st) (remove1 h ws)"
proof -
  have d: "distinct (map h_author ws)" using assms(1) by (simp add: may_write_def)
  have "h_author g \<noteq> h_author h" if "g \<in> set (remove1 h ws)" for g
  proof -
    have "distinct ws" using d by (simp add: distinct_map)
    hence "g \<in> set ws" "g \<noteq> h" using that by auto
    thus ?thesis using d assms(2) by (auto simp: distinct_map dest: inj_onD)
  qed
  hence "read_vote_info (write_vote (vote_new sg h a) st) (h_author g) = read_vote_info st (h_author g)" if "g \<in> set (remove1 h ws)" for g
    using that read_write_vote[OF assms(3)] by (simp add: vote_fields)
  moreover have "distinct (map h_author (remove1 h ws))" using d by (auto simp: distinct_map intro: inj_on_subset set_remove1_subset)
  ultimately show ?thesis using assms(1) unfolding may_write_def by (metis notin_set_remove1)
qed

lemma vote_inv_start: "bt_sorted (vh_votes s) \<Longrightarrow> vote_inv nd X (s, [], [])"
  by (simp add: vote_inv_def votes_cover_def one_per_slot_def may_write_def)

lemma vote_inv_step: "vote_inv nd X r \<Longrightarrow> task_step nd True X r r' \<Longrightarrow> vote_inv nd X r'"
proof (erule task_step.cases, goal_cases)
  case (1 w peer h ps s s' v ws log)
  have e: "vh_votes s' = vh_votes s" using vote_admission_votes[of nd w peer h ps s] 1(4) by simp
  have "\<exists>st. store_in X st \<and> votable nd st h" using admitted_votable[OF 1(4)] 1(5) by blast
  moreover have "may_write nd (vh_votes s) (ws @ [h])" using 1(1,2,6,7) e by (auto simp: vote_inv_def may_write_def)
  ultimately show ?case using 1(1,2,3) e by (auto simp: vote_inv_def)
next
  case (2 w peer h ps s s' v ws log)
  have e: "vh_votes s' = vh_votes s" using vote_admission_votes[of nd w peer h ps s] 2(4) by simp
  have "\<exists>st. store_in X st \<and> votable nd st h" using admitted_votable[OF 2(4)] 2(5) by blast
  moreover have "votes_cover (vh_votes s) (log @ [h]) \<and> one_per_slot (log @ [h])"
    using covered_resend[of "vh_votes s" log nd h v] 2(1,2,6) e by (simp add: vote_inv_def)
  ultimately show ?case using 2(1,2,3) e by (auto simp: vote_inv_def)
next
  case (3 w peer h ps s s' e ws log)
  thus ?case using vote_admission_votes[of nd w peer h ps s] by (simp add: vote_inv_def)
next
  case (4 w peer h ps s s' a ws log)
  thus ?case using vote_admission_votes[of nd w peer h ps s] by (simp add: vote_inv_def)
next
  case (5 h ws s log)
  let ?st = "write_vote (vote_new (nd_sign nd) h (nd_self nd)) (vh_votes s)"
  have i: "bt_sorted (vh_votes s)" "votes_cover (vh_votes s) log" "one_per_slot log" "may_write nd (vh_votes s) ws"
    and vt: "\<forall>h\<in>set ws \<union> set log. \<exists>st. store_in X st \<and> votable nd st h" using 5(1,2) by (simp_all add: vote_inv_def)
  obtain v where "decide_vote nd (read_vote_info (vh_votes s) (h_author h)) h = Inr (Fresh v)"
    using i(4) 5(4) unfolding may_write_def by blast
  from covered_write[OF i(2,3,1) this] have "votes_cover ?st (log @ [h]) \<and> one_per_slot (log @ [h])" .
  moreover have "\<forall>g\<in>set (remove1 h ws) \<union> set (log @ [h]). \<exists>st. store_in X st \<and> votable nd st g"
    using vt 5(4) set_remove1_subset[of h ws] by auto
  ultimately show ?case using 5(3) write_vote_sorted[OF i(1)] may_write_rest[OF i(4) 5(4) i(1)] by (simp add: vote_inv_def)
next
  case (6 s' s ws log)
  thus ?case by (simp add: vote_inv_def)
qed

interpretation vt: step_system "\<lambda>r. \<exists>s. r = (s, [], []) \<and> bt_sorted (vh_votes s)" "task_step nd True X" "vote_inv nd X" for nd X
  by unfold_locales (auto intro: vote_inv_start vote_inv_step)

section \<open>The certificates of correct voters\<close>

text \<open>
  The network: a set \<open>F\<close> of faulty authorities; for every other member its configuration, the headers
  it voted for as a handler of requests, and its own headers; and the set \<open>X\<close> of the certificates that
  verification accepted. The requests come from other authorities, and the handler refuses a header whose
  author is not the sender.
\<close>

definition correct_voters ::
  "crypto \<Rightarrow> committee \<Rightarrow> authority_id set \<Rightarrow> (authority_id \<Rightarrow> node) \<Rightarrow> (authority_id \<Rightarrow> header list) \<Rightarrow> certificate set \<Rightarrow> bool" where
  "correct_voters cr c F nodes logs X =
     (\<forall>a\<in>members c - F. nd_crypto (nodes a) = cr \<and> nd_committee (nodes a) = c \<and> (\<forall>h\<in>set (logs a). h_author h \<noteq> a) \<and>
        (\<exists>s0 s ws. bt_sorted (vh_votes s0) \<and> (task_step (nodes a) True X)\<^sup>*\<^sup>* (s0, [], []) (s, ws, logs a)))"

text \<open>
  The certifier signs the headers that it takes from the channel of the proposer, so the own headers of an
  authority are those that its proposer sent. They are the headers of one run: an authority that
  restarts and proposes a round again is one of the faulty authorities.
\<close>

definition correct_proposers :: "crypto \<Rightarrow> committee \<Rightarrow> authority_id set \<Rightarrow> (authority_id \<Rightarrow> header list) \<Rightarrow> bool" where
  "correct_proposers cr c F own =
     (\<forall>a\<in>members c - F. \<exists>g pp ls stored bus s acked com. (\<forall>h. stored = Some h \<longrightarrow> own_header cr a h) \<and>
        (proposer_step cr g)\<^sup>*\<^sup>* (proposer_new cr a c pp ls stored bus, {}, {}) (s, acked, com) \<and> own a = pr_sent s)"

text \<open>
  An aggregate signature verifies only if every correct authority among its signers signed the digest: as
  the digest of a header that it voted for, or of one of its own headers.
\<close>

definition unforgeable ::
  "crypto \<Rightarrow> committee \<Rightarrow> authority_id set \<Rightarrow> (authority_id \<Rightarrow> header list) \<Rightarrow> (authority_id \<Rightarrow> header list) \<Rightarrow> bool" where
  "unforgeable cr c F logs own =
     (\<forall>sig d pks a. verify_aggregate cr sig d pks \<longrightarrow> a \<in> set (committee_authorities c) \<longrightarrow> auth_id a \<notin> F \<longrightarrow>
        protocol_key a \<in> set pks \<longrightarrow> (\<exists>h\<in>set (logs (auth_id a)) \<union> set (own (auth_id a)). h_digest h = d))"

text \<open>
  No authority makes a quorum with the faulty ones alone. Otherwise a certificate could do without the vote of
  a correct authority other than its author, and the author does not check the parents of its own header.
\<close>

definition no_lone_quorum :: "committee \<Rightarrow> authority_id set \<Rightarrow> bool" where
  "no_lone_quorum c F = (\<forall>a\<in>members c. \<not> reached_quorum c (sum (voting_power_by_id c) (insert a F \<inter> members c)))"

text \<open>The hash of a header identifies it, among the headers of the certificates and of the votes.\<close>

definition hash_identifies :: "crypto \<Rightarrow> header set \<Rightarrow> bool" where
  "hash_identifies cr H =
     (\<forall>h\<in>H. \<forall>h'\<in>H. hash_header cr h = h_digest h \<longrightarrow> hash_header cr h' = h_digest h' \<longrightarrow> h_digest h = h_digest h' \<longrightarrow> h = h')"

definition accepted :: "crypto \<Rightarrow> committee \<Rightarrow> worker_cache \<Rightarrow> certificate \<Rightarrow> bool" where
  "accepted cr c wc x =
     (0 < c_round x \<and> c_round x < u32_max \<and> (\<exists>x0 sig. c_state x0 = Unverified sig \<and> cert_verify cr c wc x0 = Inr x))"

lemma accepted_facts:
  assumes "committee_wf c" "power_fits c" "accepted cr c wc x"
  shows "hash_header cr (c_header x) = h_digest (c_header x)" "c_origin x \<in> members c" "cert_epoch x = c_epoch c"
    "signer_ids c x \<subseteq> members c" "quorum_threshold c \<le> sum (voting_power_by_id c) (signer_ids c x)"
    "\<exists>sig. verify_aggregate cr sig (cert_digest x) (snd (signed_by c x))"
proof -
  obtain x0 sig where x0: "c_state x0 = Unverified sig" "cert_verify cr c wc x0 = Inr x" "0 < c_round x"
    using assms(3) by (auto simp: accepted_def)
  have same: "x = x0\<lparr> c_state := VerifiedDirectly sig \<rparr>" "header_validate cr c wc (c_header x0) = Inr ()"
    "quorum_threshold c \<le> fst (signed_by c x0)" "verify_aggregate cr sig (cert_digest x0) (snd (signed_by c x0))"
    using x0 by (auto simp: cert_verify_def verify_signature_def Let_def split: if_splits sum.splits prod.splits)
  have "signer_ids c x = signer_ids c x0" "signed_by c x = signed_by c x0" "c_header x = c_header x0" "cert_digest x = cert_digest x0"
    using same(1) by (simp_all add: signer_ids_def signed_by_def cert_digest_def)
  thus "hash_header cr (c_header x) = h_digest (c_header x)" "c_origin x \<in> members c" "cert_epoch x = c_epoch c"
    "signer_ids c x \<subseteq> members c" "quorum_threshold c \<le> sum (voting_power_by_id c) (signer_ids c x)"
    "\<exists>sig. verify_aggregate cr sig (cert_digest x) (snd (signed_by c x))"
    using header_validate_ok[OF same(2)] same(3,4) signed_by_weight[OF assms(1,2), of x0] signer_ids_members[OF assms(1), of x0] by auto
qed

text \<open>The members of a network in which the signatures of the correct members account for all certificates.\<close>

definition signed_headers :: "(authority_id \<Rightarrow> header list) \<Rightarrow> (authority_id \<Rightarrow> header list) \<Rightarrow> authority_id set \<Rightarrow> header set" where
  "signed_headers logs own A = (\<Union>a\<in>A. set (logs a) \<union> set (own a))"

definition voted_network ::
  "crypto \<Rightarrow> committee \<Rightarrow> worker_cache \<Rightarrow> authority_id set \<Rightarrow> (authority_id \<Rightarrow> node) \<Rightarrow> (authority_id \<Rightarrow> header list)
    \<Rightarrow> (authority_id \<Rightarrow> header list) \<Rightarrow> certificate set \<Rightarrow> bool" where
  "voted_network cr c wc F nodes logs own X =
     (committee_wf c \<and> power_fits c \<and> \<not> reached_validity c (sum (voting_power_by_id c) (F \<inter> members c)) \<and> no_lone_quorum c F \<and>
      correct_voters cr c F nodes logs X \<and> correct_proposers cr c F own \<and> unforgeable cr c F logs own \<and>
      (\<forall>x\<in>X. accepted cr c wc x) \<and> hash_skips_digest cr \<and>
      hash_identifies cr (c_header ` X \<union> signed_headers logs own (members c - F)))"

lemma log_facts:
  assumes "voted_network cr c wc F nodes logs own X" "a \<in> members c - F"
  shows "one_per_slot (logs a)" "\<And>h. h \<in> set (logs a) \<Longrightarrow> h_author h \<noteq> a \<and> hash_header cr h = h_digest h \<and>
    (\<exists>st ps. store_in X st \<and> notify_read_parent_certificates (nodes a) st h = Some (Inr ps) \<and> verify_parents c h ps = Inr ())"
proof -
  obtain s0 s ws where nd: "nd_crypto (nodes a) = cr" "nd_committee (nodes a) = c" and s0: "bt_sorted (vh_votes s0)"
    and run: "(task_step (nodes a) True X)\<^sup>*\<^sup>* (s0, [], []) (s, ws, logs a)" and oth: "\<forall>h\<in>set (logs a). h_author h \<noteq> a"
    using assms unfolding voted_network_def correct_voters_def by blast
  have inv: "vote_inv (nodes a) X (s, ws, logs a)" using vt.inv_reachable[OF _ run] s0 by blast
  show "one_per_slot (logs a)" using inv by (simp add: vote_inv_def)
  fix h assume h: "h \<in> set (logs a)"
  hence "\<exists>st. store_in X st \<and> votable (nodes a) st h" using inv by (simp add: vote_inv_def)
  thus "h_author h \<noteq> a \<and> hash_header cr h = h_digest h \<and>
    (\<exists>st ps. store_in X st \<and> notify_read_parent_certificates (nodes a) st h = Some (Inr ps) \<and> verify_parents c h ps = Inr ())"
    unfolding votable_def nd using header_validate_ok(2) oth h by blast
qed

lemma own_facts:
  assumes "voted_network cr c wc F nodes logs own X" "a \<in> members c - F"
  shows "\<And>h. h \<in> set (own a) \<Longrightarrow> h_author h = a \<and> hash_header cr h = h_digest h"
    "\<And>h h'. h \<in> set (own a) \<Longrightarrow> h' \<in> set (own a) \<Longrightarrow> h_round h = h_round h' \<Longrightarrow> h = h'"
proof -
  obtain g pp ls stored bus s acked com where st: "\<forall>h. stored = Some h \<longrightarrow> own_header cr a h"
    and run: "(proposer_step cr g)\<^sup>*\<^sup>* (proposer_new cr a c pp ls stored bus, {}, {}) (s, acked, com)" and own: "own a = pr_sent s"
    using assms unfolding voted_network_def correct_proposers_def by blast
  have skips: "hash_skips_digest cr" using assms(1) unfolding voted_network_def by blast
  show "h \<in> set (own a) \<Longrightarrow> h_author h = a \<and> hash_header cr h = h_digest h" for h
    using sent_own[OF run skips st] unfolding own own_header_def by blast
  show "h \<in> set (own a) \<Longrightarrow> h' \<in> set (own a) \<Longrightarrow> h_round h = h_round h' \<Longrightarrow> h = h'" for h h'
    unfolding own by (rule sent_one_per_round[OF run])
qed

lemma signer_signed:
  assumes nw: "voted_network cr c wc F nodes logs own X" and x: "x \<in> X" and a: "a \<in> signer_ids c x" "a \<notin> F"
  shows "c_header x \<in> set (logs a) \<union> set (own a) \<and> a \<in> members c - F"
proof -
  have wf: "committee_wf c" "power_fits c" and acc: "accepted cr c wc x" and u: "unforgeable cr c F logs own"
    and hi: "hash_identifies cr (c_header ` X \<union> signed_headers logs own (members c - F))"
    using nw x unfolding voted_network_def by blast+
  note f = accepted_facts[OF wf acc]
  have m: "a \<in> members c - F" using f(4) a by blast
  obtain au where au: "au \<in> set (select_indices 0 (committee_authorities c) (c_signed x))" "auth_id au = a"
    using a(1) by (auto simp: signer_ids_def)
  hence k: "protocol_key au \<in> set (snd (signed_by c x))" "au \<in> set (committee_authorities c)"
    using select_indices_subset[of 0 "committee_authorities c" "c_signed x"] by (auto simp: signed_by_def Let_def)
  obtain sig where "verify_aggregate cr sig (cert_digest x) (snd (signed_by c x))" using f(6) by blast
  then obtain h where h: "h \<in> set (logs a) \<union> set (own a)" "h_digest h = cert_digest x"
    using u k au(2) a(2) unfolding unforgeable_def by blast
  have "hash_header cr h = h_digest h" using log_facts(2)[OF nw m] own_facts(1)[OF nw m] h(1) by blast
  moreover have "h \<in> signed_headers logs own (members c - F)" using h(1) m unfolding signed_headers_def by blast
  ultimately have "h = c_header x" using hi f(1) h(2) x unfolding hash_identifies_def cert_digest_def by blast
  thus ?thesis using h(1) m by blast
qed

lemma signed_once:
  assumes nw: "voted_network cr c wc F nodes logs own X" and a: "a \<in> members c - F"
    and h: "h \<in> set (logs a) \<union> set (own a)" "h' \<in> set (logs a) \<union> set (own a)" "h_author h = h_author h'" "h_round h = h_round h'"
  shows "h_digest h = h_digest h'"
proof (cases "h_author h = a")
  case True
  hence "h \<in> set (own a)" "h' \<in> set (own a)" using h(1-3) log_facts(2)[OF nw a] by auto
  thus ?thesis using own_facts(2)[OF nw a] h(4) by blast
next
  case False
  hence "h \<in> set (logs a)" "h' \<in> set (logs a)" using h(1-3) own_facts(1)[OF nw a] by auto
  thus ?thesis using log_facts(1)[OF nw a] h(3,4) unfolding one_per_slot_def by blast
qed

lemma voted_no_equivocation:
  assumes nw: "voted_network cr c wc F nodes logs own X"
  shows "no_equivocation X"
  unfolding no_equivocation_def
proof (intro ballI impI)
  fix x y assume xy: "x \<in> X" "y \<in> X" and s: "c_origin x = c_origin y \<and> c_round x = c_round y"
  have wf: "committee_wf c" "power_fits c" and acc: "accepted cr c wc x" "accepted cr c wc y"
    and F: "\<not> reached_validity c (sum (voting_power_by_id c) (F \<inter> members c))"
    using nw xy unfolding voted_network_def by blast+
  note fx = accepted_facts[OF wf acc(1)] and fy = accepted_facts[OF wf acc(2)]
  obtain a where a: "a \<in> signer_ids c x" "a \<in> signer_ids c y" "a \<notin> F"
    using cq.quorums_share_correct[OF _ fx(4) fy(4) fx(5) fy(5), of F] wf F by (auto simp: reached_validity_def)
  have "c_header x \<in> set (logs a) \<union> set (own a)" "c_header y \<in> set (logs a) \<union> set (own a)" "a \<in> members c - F"
    using signer_signed[OF nw xy(1) a(1,3)] signer_signed[OF nw xy(2) a(2,3)] by blast+
  thus "cert_digest x = cert_digest y" using signed_once[OF nw] s unfolding cert_digest_def by blast
qed

text \<open>Every certificate has a correct signer that is not its author.\<close>

lemma other_signer:
  assumes nw: "voted_network cr c wc F nodes logs own X" and x: "x \<in> X"
  obtains a where "a \<in> members c - F" "c_header x \<in> set (logs a)"
proof -
  have wf: "committee_wf c" "power_fits c" and acc: "accepted cr c wc x" and lone: "no_lone_quorum c F"
    using nw x unfolding voted_network_def by blast+
  note f = accepted_facts[OF wf acc]
  have "\<not> signer_ids c x \<subseteq> insert (c_origin x) F"
  proof
    assume "signer_ids c x \<subseteq> insert (c_origin x) F"
    hence "sum (voting_power_by_id c) (signer_ids c x) \<le> sum (voting_power_by_id c) (insert (c_origin x) F \<inter> members c)"
      using f(4) by (intro sum_mono2) (auto simp: members_def)
    thus False using f(2,5) lone unfolding no_lone_quorum_def reached_quorum_def by fastforce
  qed
  then obtain a where a: "a \<in> signer_ids c x" "a \<notin> F" "a \<noteq> c_origin x" by blast
  have "c_header x \<in> set (logs a) \<union> set (own a)" "a \<in> members c - F" using signer_signed[OF nw x a(1,2)] by blast+
  thus thesis using own_facts(1)[OF nw] a(3) that by blast
qed

lemma voted_parents:
  assumes nw: "voted_network cr c wc F nodes logs own X" and x: "x \<in> X" "1 < c_round x"
  shows "parent_origins X x \<subseteq> members c \<and> quorum_threshold c \<le> sum (voting_power_by_id c) (parent_origins X x)"
proof -
  have wf: "committee_wf c" "power_fits c" and acc: "\<And>y. y \<in> X \<Longrightarrow> accepted cr c wc y"
    using nw unfolding voted_network_def by blast+
  obtain a where "c_header x \<in> set (logs a)" "a \<in> members c - F" using other_signer[OF nw x(1)] by blast
  then obtain st ps where st: "store_in X st" and ps: "notify_read_parent_certificates (nodes a) st (c_header x) = Some (Inr ps)"
    and ok: "verify_parents c (c_header x) ps = Inr ()" using log_facts(2)[OF nw] by blast
  note q = verify_parents_quorum[OF wf ok]
  have rd: "list_all2 (\<lambda>d p. store_read st d = Some p) (c_parents x) ps" using notify_read_parents[OF ps] x(2) by simp
  have sub: "c_origin ` set ps \<subseteq> parent_origins X x"
  proof
    fix o' assume "o' \<in> c_origin ` set ps"
    then obtain p where p: "p \<in> set ps" "o' = c_origin p" by blast
    then obtain i where "i < length ps" "ps ! i = p" by (meson in_set_conv_nth)
    hence "store_read st (c_parents x ! i) = Some p" "c_parents x ! i \<in> set (c_parents x)"
      using rd by (auto simp: list_all2_conv_all_nth)
    hence d: "p \<in> X" "cert_digest p \<in> set (c_parents x)"
      using st stored_certsI[of st _ p] unfolding store_in_def keyed_by_digest_def by auto
    have "c_round p < u32_max" using acc[OF d(1)] by (simp add: accepted_def)
    moreover have "u32_add (c_round p) 1 = c_round x" using q(2) p(1) by blast
    ultimately have "c_round p + 1 = c_round x" using x(2)
      by (cases "c_round p + 1 = u32_max") (auto simp: u32_add_def)
    thus "o' \<in> parent_origins X x" unfolding parent_origins_def using d p(2) by blast
  qed
  have mem: "parent_origins X x \<subseteq> members c"
    using accepted_facts(2)[OF wf acc] unfolding parent_origins_def by blast
  have "sum (voting_power_by_id c) (c_origin ` set ps \<inter> members c) \<le> sum (voting_power_by_id c) (parent_origins X x)"
    using sub mem finite_subset[OF mem] by (intro sum_mono2) (auto simp: members_def)
  thus ?thesis using mem q(3) by linarith
qed

lemma voted_universe:
  assumes nw: "voted_network cr c wc F nodes logs own X"
  shows "cert_universe c X"
proof -
  have wf: "committee_wf c" "power_fits c" and acc: "\<And>y. y \<in> X \<Longrightarrow> accepted cr c wc y"
    and hi: "hash_identifies cr (c_header ` X \<union> signed_headers logs own (members c - F))"
    using nw unfolding voted_network_def by blast+
  have "collision_free X" unfolding collision_free_def
  proof (intro ballI impI)
    fix x y assume "x \<in> X" "y \<in> X" "cert_digest x = cert_digest y"
    thus "c_header x = c_header y"
      using hi accepted_facts(1)[OF wf acc[of x]] accepted_facts(1)[OF wf acc[of y]] unfolding hash_identifies_def cert_digest_def by blast
  qed
  moreover have "parents_quorum c X" using voted_parents[OF nw] unfolding parents_quorum_def by blast
  moreover have "\<forall>x\<in>X. c_origin x \<in> members c" using accepted_facts(2)[OF wf acc] by blast
  ultimately show ?thesis using wf voted_no_equivocation[OF nw] by (simp add: cert_universe_def)
qed

end
