(* ===== verification/Proposer_Properties.thy ===== *)
theory Proposer_Properties
  imports Sample_Network Proposer
begin

text \<open>
  The properties of the proposer: no acknowledged batch is forgotten, a run proposes one header for a
  round, and what a restart does to that.
\<close>

section \<open>A sample run\<close>

datatype proposer_input = Turn proposer_event | Task timestamp

fun run_inputs :: "crypto \<Rightarrow> rng \<Rightarrow> proposer_input list \<Rightarrow> proposer \<Rightarrow> proposer option" where
  "run_inputs cr g [] s = Some s"
| "run_inputs cr g (Task now # is) s = run_inputs cr g is (header_task cr now (0, 0) s)"
| "run_inputs cr g (Turn ev # is) s =
     (case proposer_turn g ev s of
        Some (s', Inr True) \<Rightarrow> if rounds_fit ev s then run_inputs cr g is s' else None
      | _ \<Rightarrow> None)"

fun inputs_acked :: "proposer_input list \<Rightarrow> block_hash set" where
  "inputs_acked [] = {}"
| "inputs_acked (Task now # is) = inputs_acked is"
| "inputs_acked (Turn ev # is) = acked_by ev \<union> inputs_acked is"

lemma run_inputs_steps:
  "run_inputs cr g is s = Some t \<Longrightarrow> \<exists>D'. (proposer_step cr g)\<^sup>*\<^sup>* (s, A, D) (t, A \<union> inputs_acked is, D')"
proof (induction cr g "is" s arbitrary: A D rule: run_inputs.induct)
  case (2 cr g now "is" s)
  obtain D' where "(proposer_step cr g)\<^sup>*\<^sup>* (header_task cr now (0, 0) s, A, D) (t, A \<union> inputs_acked is, D')" using 2 by fastforce
  thus ?case using proposer_step.task[of cr g s A D now "(0, 0)"] by (auto intro: converse_rtranclp_into_rtranclp)
next
  case (3 cr g ev "is" s)
  obtain s' where s': "proposer_turn g ev s = Some (s', Inr True)" "rounds_fit ev s" "run_inputs cr g is s' = Some t"
    using 3(2) by (auto split: option.splits prod.splits sum.splits bool.splits if_splits)
  obtain D' where "(proposer_step cr g)\<^sup>*\<^sup>* (s', A \<union> acked_by ev, D \<union> committed_by ev s) (t, (A \<union> acked_by ev) \<union> inputs_acked is, D')"
    using 3(1)[OF s'(1) refl refl refl s'(2,3)] by blast
  moreover have "proposer_step cr g (s, A, D) (s', A \<union> acked_by ev, D \<union> committed_by ev s)" using s' by (intro proposer_step.turn)
  ultimately have "(proposer_step cr g)\<^sup>*\<^sup>* (s, A, D) (t, (A \<union> acked_by ev) \<union> inputs_acked is, D')" by (rule converse_rtranclp_into_rtranclp[rotated])
  thus ?case by (auto simp: Un_assoc)
qed auto

definition timed_crypto :: crypto where
  "timed_crypto = sample_crypto\<lparr> hash_header := (\<lambda>h. 1000 * h_created_at h + sample_digest (h_round h) (h_author h)) \<rparr>"

definition sample_proposer :: "header option \<Rightarrow> proposer" where
  "sample_proposer stored =
     proposer_new timed_crypto 1 sample_committee
       \<lparr> pp_batches_threshold = 2, pp_max_batches = 2, pp_min_delay = 5, pp_max_delay = 10 \<rparr> (bs_schedule sample_bullshark) stored 0"

definition sample_batch :: "nat \<Rightarrow> proposer_digest" where
  "sample_batch n = \<lparr> pd_digest = n, pd_worker = 0, pd_timestamp = 1 \<rparr>"

definition sample_inputs :: "proposer_input list" where
  "sample_inputs =
     [Turn (OurDigest (sample_batch 71)), Turn MinDelayTick, Task 5, Turn PendingDone, Turn (OurDigest (sample_batch 72)),
      Turn (NewParents (map (sample_cert 1) [1, 2, 3]) 1), Turn MaxDelayTick, Task 20, Turn PendingDone]"

definition restart_inputs :: "proposer_input list" where
  "restart_inputs = [Turn MinDelayTick, Task 30, Turn PendingDone]"

section \<open>Batches and headers\<close>

text \<open>C12: every batch that the proposer acknowledged to a worker stays with it until it is committed: in every
  state a run reaches, the batch waits in the queue, is in the header being made, is in a proposed
  header that is still remembered, or was in an own header that consensus reported as committed. So a
  batch of a header that was passed over is proposed again.\<close>

theorem acked_batches_tracked:
  assumes "(proposer_step cr g)\<^sup>*\<^sup>* (proposer_new cr self c pp ls stored bus, {}, {}) (s, acked, com)"
  shows "acked \<subseteq> com \<union> pd_digest ` set (pr_digests s) \<union> (case pr_pending s of None \<Rightarrow> {} | Some p \<Rightarrow> pending_digests p) \<union>
    (\<Union>e\<in>set (pr_proposed s). payload_digests (snd e))"
proof -
  have "proposer_inv (s, acked, com)" using pr.inv_reachable[OF _ assms] by blast
  thus ?thesis by (auto simp: proposer_inv_def tracked_def)
qed

theorem acked_batches_tracked_witness:
  "\<exists>s com. (proposer_step timed_crypto first_rng)\<^sup>*\<^sup>* (sample_proposer None, {}, {}) (s, {71, 72}, com) \<and> map fst (pr_proposed s) = [1, 2] \<and>
     {71, 72} \<subseteq> com \<union> pd_digest ` set (pr_digests s) \<union> (case pr_pending s of None \<Rightarrow> {} | Some p \<Rightarrow> pending_digests p) \<union>
       (\<Union>e\<in>set (pr_proposed s). payload_digests (snd e))"
proof -
  have "(case run_inputs timed_crypto first_rng sample_inputs (sample_proposer None) of Some s \<Rightarrow> map fst (pr_proposed s) = [1, 2] | None \<Rightarrow> False)"
    by code_simp
  then obtain s where s: "run_inputs timed_crypto first_rng sample_inputs (sample_proposer None) = Some s" "map fst (pr_proposed s) = [1, 2]"
    by (auto split: option.splits)
  have "inputs_acked sample_inputs = {71, 72}" by (auto simp: sample_inputs_def sample_batch_def)
  then obtain com where r: "(proposer_step timed_crypto first_rng)\<^sup>*\<^sup>* (sample_proposer None, {}, {}) (s, {71, 72}, com)"
    using run_inputs_steps[OF s(1), of "{}" "{}"] by auto
  show ?thesis using acked_batches_tracked[OF r[unfolded sample_proposer_def]] r s(2)
    by (intro exI[of _ s] exI[of _ com] conjI)
qed

text \<open>C24: in one run of the proposer the headers it sends to be certified have strictly ascending rounds, whatever
  certificates, commits, ticks and round changes arrive: it never proposes two headers for one
  round, and never goes back.\<close>

theorem proposed_rounds_ascend:
  assumes "(proposer_step cr g)\<^sup>*\<^sup>* (proposer_new cr self c pp ls stored bus, {}, {}) (s, acked, com)"
  shows "sorted_wrt (<) (map h_round (pr_sent s)) \<and> (\<forall>h\<in>set (pr_sent s). h_round h \<le> pr_round s)"
proof -
  have "proposer_inv (s, acked, com)" using pr.inv_reachable[OF _ assms] by blast
  thus ?thesis by (simp add: proposer_inv_def sent_ok_def)
qed

theorem proposed_rounds_ascend_witness:
  "\<exists>s acked com. (proposer_step timed_crypto first_rng)\<^sup>*\<^sup>* (sample_proposer None, {}, {}) (s, acked, com) \<and>
     map h_round (pr_sent s) = [1, 2] \<and> (\<forall>h\<in>set (pr_sent s). h_round h \<le> pr_round s)"
proof -
  have "(case run_inputs timed_crypto first_rng sample_inputs (sample_proposer None) of Some s \<Rightarrow> map h_round (pr_sent s) = [1, 2] | None \<Rightarrow> False)"
    by code_simp
  then obtain s where s: "run_inputs timed_crypto first_rng sample_inputs (sample_proposer None) = Some s" "map h_round (pr_sent s) = [1, 2]"
    by (auto split: option.splits)
  obtain com where r: "(proposer_step timed_crypto first_rng)\<^sup>*\<^sup>* (sample_proposer None, {}, {}) (s, {} \<union> inputs_acked sample_inputs, com)"
    using run_inputs_steps[OF s(1), of "{}" "{}"] by blast
  show ?thesis using proposed_rounds_ascend[OF r[unfolded sample_proposer_def]] r s(2)
    by (intro exI[of _ s] exI[of _ "{} \<union> inputs_acked sample_inputs"] exI[of _ com] conjI) (assumption, assumption, erule conjunct2)
qed

text \<open>C37: a restart breaks this: only the last proposed header is stored, and the proposer starts again from the
  round of the last executed output, with the genesis certificates as parents. A node that proposed
  rounds 1 and 2 before anything was executed proposes a second, different header of round 1 when it
  restarts.\<close>

theorem restart_proposes_round_again:
  "\<exists>s t acked com acked' com' h h'.
     (proposer_step timed_crypto first_rng)\<^sup>*\<^sup>* (sample_proposer None, {}, {}) (s, acked, com) \<and>
     (proposer_step timed_crypto first_rng)\<^sup>*\<^sup>* (sample_proposer (pr_store s), {}, {}) (t, acked', com') \<and>
     h \<in> set (pr_sent s) \<and> h' \<in> set (pr_sent t) \<and> h_author h = h_author h' \<and> h_epoch h = h_epoch h' \<and>
     h_round h = h_round h' \<and> h_digest h \<noteq> h_digest h'"
proof -
  let ?key = "\<lambda>h. (h_author h, h_epoch h, h_round h, h_digest h)"
  have "(case run_inputs timed_crypto first_rng sample_inputs (sample_proposer None) of
      Some s \<Rightarrow> map ?key (pr_sent s) = [(1, 0, 1, 5011), (1, 0, 2, 103021)] \<and>
        (case run_inputs timed_crypto first_rng restart_inputs (sample_proposer (pr_store s)) of
           Some t \<Rightarrow> map ?key (pr_sent t) = [(1, 0, 1, 30011)] | None \<Rightarrow> False)
    | None \<Rightarrow> False)" by code_simp
  then obtain s t where s: "run_inputs timed_crypto first_rng sample_inputs (sample_proposer None) = Some s"
    and t: "run_inputs timed_crypto first_rng restart_inputs (sample_proposer (pr_store s)) = Some t"
    and k: "map ?key (pr_sent s) = [(1, 0, 1, 5011), (1, 0, 2, 103021)]" "map ?key (pr_sent t) = [(1, 0, 1, 30011)]"
    by (auto split: option.splits)
  obtain h hs where h: "pr_sent s = h # hs" "?key h = (1, 0, 1, 5011)" using k(1) by (cases "pr_sent s") simp_all
  obtain h' hs' where h': "pr_sent t = h' # hs'" "?key h' = (1, 0, 1, 30011)" using k(2) by (cases "pr_sent t") simp_all
  obtain com com' where "(proposer_step timed_crypto first_rng)\<^sup>*\<^sup>* (sample_proposer None, {}, {}) (s, {} \<union> inputs_acked sample_inputs, com)"
    "(proposer_step timed_crypto first_rng)\<^sup>*\<^sup>* (sample_proposer (pr_store s), {}, {}) (t, {} \<union> inputs_acked restart_inputs, com')"
    using run_inputs_steps[OF s, of "{}" "{}"] run_inputs_steps[OF t, of "{}" "{}"] by blast
  thus ?thesis using h h'
    by (intro exI[of _ s] exI[of _ t] exI[of _ "{} \<union> inputs_acked sample_inputs"] exI[of _ com]
        exI[of _ "{} \<union> inputs_acked restart_inputs"] exI[of _ com'] exI[of _ h] exI[of _ h']) simp
qed

end
