(* ===== verification/Network_Properties.thy ===== *)
theory Network_Properties
  imports Sample_Network Vote_Safety Proposer_Properties
begin

text \<open>
  The properties of voting and of the certificates that arrive from the network, with a network of
  four authorities in which three correct ones propose headers for three rounds and vote for those of
  the others.
\<close>

section \<open>The sample network\<close>

text \<open>
  The hash tells headers of one author and round apart by their time of creation, and signatures
  verify for the digests of the sample headers only.
\<close>

definition voted_headers :: "header list" where
  "voted_headers = map c_header sample_certs"

definition net_crypto :: crypto where
  "net_crypto =
     \<lparr> hash_header = (\<lambda>h. sample_digest (h_round h) (h_author h) + 1000 * (h_created_at h - (100 * h_round h + h_author h))),
       aggregate_sigs = (\<lambda>ss. Some (sum_list ss)),
       verify_aggregate = (\<lambda>s d ks. d \<in> set (map h_digest voted_headers) \<and> s = d + sum_list ks), default_sig = 0 \<rparr>"

definition net_workers :: worker_cache where
  "net_workers = \<lparr> wc_epoch = 0, wc_workers = [] \<rparr>"

definition net_node :: "authority_id \<Rightarrow> node" where
  "net_node a =
     \<lparr> nd_crypto = net_crypto, nd_committee = sample_committee, nd_workers = net_workers,
       nd_genesis = map (\<lambda>i. (i, sample_cert 0 i)) [1, 2, 3, 4], nd_self = a, nd_sign = (\<lambda>d. 100 * d + a),
       nd_sync = \<lparr> max_skip_rounds = 1000, max_diff_rounds = 1000, max_proposed_header_age = 3, max_time_drift = 1,
                   max_missing_certs = 50, verification_interval = 50, verification_chunk_size = 50 \<rparr>,
       nd_gc_depth = 50, nd_iter = (\<lambda>ds. ds) \<rparr>"

definition received_cert :: "certificate \<Rightarrow> certificate" where
  "received_cert x = x\<lparr> c_state := Unverified (cert_digest x + 36) \<rparr>"

definition net_cert :: "certificate \<Rightarrow> certificate" where
  "net_cert x = x\<lparr> c_state := VerifiedDirectly (cert_digest x + 36) \<rparr>"

definition net_certs :: "certificate list" where
  "net_certs = map net_cert sample_certs"

definition net_store :: cert_store where
  "net_store = store_write_all net_certs cert_store_empty"

definition net_handler :: handler where
  "net_handler =
     \<lparr> vh_sync = state_sync_new net_store None, vh_requested = [], vh_payload = [], vh_votes = [], vh_primary_round = 0,
       vh_committed_round = 0, vh_recent = \<lparr> rb_num_blocks = 5, rb_blocks = [(0, 0)] \<rparr>, vh_last_consensus = (0, 0) \<rparr>"

definition net_wait :: vote_wait where
  "net_wait = \<lparr> vw_default_block = (0, 0), vw_blocks = [], vw_store = net_store, vw_batches = [], vw_now = 1000 \<rparr>"

fun vote_all :: "node \<Rightarrow> vote_wait \<Rightarrow> handler \<Rightarrow> header list \<Rightarrow> handler option" where
  "vote_all nd w s [] = Some s"
| "vote_all nd w s (h # hs) =
     (case handle_vote nd w (h_author h) h [] s of (s', Some (Inr (Vote v))) \<Rightarrow> vote_all nd w s' hs | _ \<Rightarrow> None)"

lemma vote_all_run:
  "vote_all nd w s hs = Some s' \<Longrightarrow> store_in X (vw_store w) \<Longrightarrow> (task_step nd True X)\<^sup>*\<^sup>* (s, [], log) (s', [], log @ hs)"
proof (induction hs arbitrary: s log)
  case (Cons h hs)
  obtain t v where t: "handle_vote nd w (h_author h) h [] s = (t, Some (Inr (Vote v)))" "vote_all nd w t hs = Some s'"
    using Cons.prems(1) by (auto split: prod.splits option.splits sum.splits primary_response.splits)
  have "(task_step nd True X)\<^sup>*\<^sup>* (s, [], log) (t, [], log @ [h])" using vote_is_task_run[OF t(1) Cons.prems(2)] by blast
  moreover have "(task_step nd True X)\<^sup>*\<^sup>* (t, [], log @ [h]) (s', [], (log @ [h]) @ hs)" by (rule Cons.IH[OF t(2) Cons.prems(2)])
  ultimately show ?case by simp
qed simp

lemma store_in_entries:
  assumes "\<forall>e\<in>set (cs_certs s). cert_digest (snd e) = fst e \<and> snd e \<in> X"
  shows "store_in X s"
proof -
  have "cert_digest x = d \<and> x \<in> X" if "map_of (cs_certs s) d = Some x" for d x
    using assms map_of_SomeD[OF that] by force
  thus ?thesis by (auto simp: store_in_def keyed_by_digest_def store_read_def stored_certs_def ran_def)
qed

lemma net_store_in: "store_in (set net_certs) net_store"
  by (rule store_in_entries) code_simp

text \<open>Every correct authority votes for the headers of the others, and proposes its own in a run of its proposer.\<close>

definition net_log :: "authority_id \<Rightarrow> header list" where
  "net_log a = filter (\<lambda>h. h_author h \<noteq> a) voted_headers"

definition net_own :: "authority_id \<Rightarrow> header list" where
  "net_own a = filter (\<lambda>h. h_author h = a) voted_headers"

definition net_proposer :: "authority_id \<Rightarrow> proposer" where
  "net_proposer a =
     proposer_new net_crypto a sample_committee
       \<lparr> pp_batches_threshold = 2, pp_max_batches = 2, pp_min_delay = 5, pp_max_delay = 10 \<rparr> (bs_schedule sample_bullshark) None 0"

definition net_inputs :: "authority_id \<Rightarrow> proposer_input list" where
  "net_inputs a =
     [Turn MaxDelayTick, Task (100 + a), Turn PendingDone,
      Turn (NewParents (map (sample_cert 1) [1, 2, 3]) 1), Turn MaxDelayTick, Task (200 + a), Turn PendingDone] @
     (if a = 3 then [] else [Turn (NewParents (map (sample_cert 2) [1, 2, 3]) 2), Turn MaxDelayTick, Task (300 + a), Turn PendingDone])"

lemma net_members: "a \<in> members sample_committee - {4} \<Longrightarrow> a \<in> {1, 2, 3}"
  using sample_power(2) by auto

lemma net_votes: "a \<in> {1, 2, 3} \<Longrightarrow> vote_all (net_node a) net_wait net_handler (net_log a) \<noteq> None"
proof -
  have "list_all (\<lambda>a. vote_all (net_node a) net_wait net_handler (net_log a) \<noteq> None) [1, 2, 3]" by code_simp
  thus "a \<in> {1, 2, 3} \<Longrightarrow> ?thesis" by auto
qed

lemma net_correct: "correct_voters net_crypto sample_committee {4} net_node net_log (set net_certs)"
  unfolding correct_voters_def
proof
  fix a assume "a \<in> members sample_committee - {4}"
  then obtain s where s: "vote_all (net_node a) net_wait net_handler (net_log a) = Some s" using net_votes net_members by blast
  have "store_in (set net_certs) (vw_store net_wait)" using net_store_in by (simp add: net_wait_def)
  from vote_all_run[OF s this, of "[]"] have "(task_step (net_node a) True (set net_certs))\<^sup>*\<^sup>* (net_handler, [], []) (s, [], net_log a)" by simp
  moreover have "bt_sorted (vh_votes net_handler)" by (simp add: net_handler_def bt_sorted_Nil)
  moreover have "nd_crypto (net_node a) = net_crypto" "nd_committee (net_node a) = sample_committee" "\<forall>h\<in>set (net_log a). h_author h \<noteq> a"
    by (simp_all add: net_node_def net_log_def)
  ultimately show "nd_crypto (net_node a) = net_crypto \<and> nd_committee (net_node a) = sample_committee \<and> (\<forall>h\<in>set (net_log a). h_author h \<noteq> a) \<and>
      (\<exists>s0 s ws. bt_sorted (vh_votes s0) \<and> (task_step (net_node a) True (set net_certs))\<^sup>*\<^sup>* (s0, [], []) (s, ws, net_log a))"
    by blast
qed

lemma net_proposals: "a \<in> {1, 2, 3} \<Longrightarrow> map_option pr_sent (run_inputs net_crypto first_rng (net_inputs a) (net_proposer a)) = Some (net_own a)"
proof -
  have "list_all (\<lambda>a. map_option pr_sent (run_inputs net_crypto first_rng (net_inputs a) (net_proposer a)) = Some (net_own a)) [1, 2, 3]"
    by code_simp
  thus "a \<in> {1, 2, 3} \<Longrightarrow> ?thesis" by auto
qed

lemma net_proposers: "correct_proposers net_crypto sample_committee {4} net_own"
  unfolding correct_proposers_def
proof
  fix a assume "a \<in> members sample_committee - {4}"
  then obtain s where s: "run_inputs net_crypto first_rng (net_inputs a) (net_proposer a) = Some s" "net_own a = pr_sent s"
    using net_proposals[OF net_members] by fastforce
  obtain D where "(proposer_step net_crypto first_rng)\<^sup>*\<^sup>* (net_proposer a, {}, {}) (s, {} \<union> inputs_acked (net_inputs a), D)"
    using run_inputs_steps[OF s(1)] by blast
  thus "\<exists>g pp ls stored bus s acked com. (\<forall>h. stored = Some h \<longrightarrow> own_header net_crypto a h) \<and>
      (proposer_step net_crypto g)\<^sup>*\<^sup>* (proposer_new net_crypto a sample_committee pp ls stored bus, {}, {}) (s, acked, com) \<and> net_own a = pr_sent s"
    using s(2) unfolding net_proposer_def by fast
qed

lemma net_accepted: "x \<in> set net_certs \<Longrightarrow> accepted net_crypto sample_committee net_workers x"
proof -
  have "list_all (\<lambda>y. cert_verify net_crypto sample_committee net_workers (received_cert y) = Inr (net_cert y) \<and>
      0 < c_round (net_cert y) \<and> c_round (net_cert y) < u32_max) sample_certs" by code_simp
  moreover assume "x \<in> set net_certs"
  then obtain y where "y \<in> set sample_certs" "x = net_cert y" by (auto simp: net_certs_def)
  ultimately have "cert_verify net_crypto sample_committee net_workers (received_cert y) = Inr x" "0 < c_round x" "c_round x < u32_max"
    by (auto simp: list_all_iff)
  moreover have "c_state (received_cert y) = Unverified (cert_digest y + 36)" by (simp add: received_cert_def)
  ultimately show ?thesis unfolding accepted_def by blast
qed

lemma net_network: "voted_network net_crypto sample_committee net_workers {4} net_node net_log net_own (set net_certs)"
proof -
  have signed: "set (net_log a) \<union> set (net_own a) = set voted_headers" for a by (auto simp: net_log_def net_own_def)
  have "c_header ` set net_certs \<union> signed_headers net_log net_own (members sample_committee - {4}) \<subseteq> set voted_headers"
    unfolding signed_headers_def signed by (auto simp: voted_headers_def net_certs_def net_cert_def)
  moreover have "\<forall>h\<in>set voted_headers. \<forall>h'\<in>set voted_headers. h_digest h = h_digest h' \<longrightarrow> h = h'" by code_simp
  ultimately have "hash_identifies net_crypto (c_header ` set net_certs \<union> signed_headers net_log net_own (members sample_committee - {4}))"
    unfolding hash_identifies_def by blast
  moreover have "unforgeable net_crypto sample_committee {4} net_log net_own"
    unfolding unforgeable_def signed by (auto simp: net_crypto_def)
  moreover have "\<not> reached_validity sample_committee (sum (voting_power_by_id sample_committee) ({4} \<inter> members sample_committee))"
    using sample_power by (simp add: reached_validity_def)
  moreover have "no_lone_quorum sample_committee {4}" using sample_power by (auto simp: no_lone_quorum_def reached_quorum_def)
  moreover have "hash_skips_digest net_crypto" by (simp add: hash_skips_digest_def net_crypto_def)
  ultimately show ?thesis using sample_committee_wf sample_power(1) net_correct net_proposers net_accepted by (simp add: voted_network_def)
qed

lemma net_digests: "run_digests net_certs = Some [[13, 12, 11, 21]]"
  by code_simp

section \<open>From votes to agreement\<close>

text \<open>C1: from the signatures of the correct authorities to the agreement of validators: any two validators
  that process certificates accepted by verification, in any order, commit the same sub dags. The
  authorities in \<open>F\<close> do anything; they hold less power than the validity threshold, and not a quorum
  together with one other authority. Each of the others signs in two places only: it votes as the handler
  does, one request of an author at a time, for headers of other authorities, and its certifier signs the
  headers that one run of its proposer sends. A node that restarts may propose a round twice and is then
  one of the faulty authorities. Signatures are unforgeable: one of a correct key stands for a header
  signed in one of the two places. The hash of a header does not depend on the digest field and
  identifies the header.\<close>

theorem correct_voters_agree:
  assumes "voted_network cr (bs_committee b) wc F nodes logs own X"
    and "bs_committee b' = bs_committee b" "bs_schedule b' = bs_schedule b"
    and "bs_subdags_per_schedule b' = bs_subdags_per_schedule b" "bs_threshold b' = bs_threshold b" "0 < depth"
    and "(run_step X g)\<^sup>*\<^sup>* (b, cstate_new depth, []) (b1, st1, out1)"
    and "(run_step X g)\<^sup>*\<^sup>* (b', cstate_new depth, []) (b2, st2, out2)"
    and "length out1 \<le> length out2"
  shows "list_all2 same_sub_dag out1 (take (length out1) out2)"
  by (rule runs_total_order[OF voted_universe[OF assms(1)] _ assms(6-9)]) (simp add: b_sim_fields assms(2-5))

theorem correct_voters_agree_witness:
  "\<exists>b1 st1 out1. (run_step (set net_certs) first_rng)\<^sup>*\<^sup>* (sample_bullshark, cstate_new 50, []) (b1, st1, out1) \<and>
     length out1 = 1 \<and> list_all2 same_sub_dag out1 out1"
proof -
  obtain b1 st1 out1 where r: "(run_step (set net_certs) first_rng)\<^sup>*\<^sup>* (sample_bullshark, cstate_new 50, []) (b1, st1, out1)"
    "map (\<lambda>s. map cert_digest (sd_certificates s)) out1 = [[13, 12, 11, 21]]"
    using run_digests_steps[OF net_digests] by blast
  have l: "length out1 = 1" using arg_cong[OF r(2), of length] by simp
  have "voted_network net_crypto (bs_committee sample_bullshark) net_workers {4} net_node net_log net_own (set net_certs)"
    using net_network by (simp add: sample_bullshark_def)
  from correct_voters_agree[OF this refl refl refl refl _ r(1) r(1)] show ?thesis using r(1) l by auto
qed

section \<open>Votes\<close>

text \<open>C8: a node that handles the vote requests of an author one at a time never votes for two headers of one
  author and round, whatever requests arrive, however they are interleaved with those of other
  authors and whatever table of votes it starts from.\<close>

theorem vote_once:
  assumes "bt_sorted (vh_votes s0)" "(task_step nd True X)\<^sup>*\<^sup>* (s0, [], []) (s, ws, log)"
    and "h \<in> set log" "h' \<in> set log" "h_author h = h_author h'" "h_round h = h_round h'"
  shows "h_digest h = h_digest h'"
proof -
  have "vote_inv nd X (s, ws, log)" using vt.inv_reachable[OF _ assms(2)] assms(1) by blast
  hence "one_per_slot log" by (simp add: vote_inv_def)
  thus ?thesis using assms(3-6) unfolding one_per_slot_def by blast
qed

theorem vote_once_witness:
  "\<exists>s. (task_step (net_node 1) True (set net_certs))\<^sup>*\<^sup>* (net_handler, [], []) (s, [], net_log 1) \<and>
     (\<forall>h\<in>set (net_log 1). h_author h = 2 \<and> h_round h = 2 \<longrightarrow> h_digest h = 22)"
proof -
  have "1 \<in> {1, 2, 3 :: nat}" by simp
  then obtain s where s: "vote_all (net_node 1) net_wait net_handler (net_log 1) = Some s" using net_votes by blast
  have "store_in (set net_certs) (vw_store net_wait)" using net_store_in by (simp add: net_wait_def)
  from vote_all_run[OF s this, of "[]"] have r: "(task_step (net_node 1) True (set net_certs))\<^sup>*\<^sup>* (net_handler, [], []) (s, [], net_log 1)" by simp
  have o: "bt_sorted (vh_votes net_handler)" by (simp add: net_handler_def bt_sorted_Nil)
  have m: "sample_header 2 2 \<in> set (net_log 1)" by (simp add: net_log_def voted_headers_def sample_certs_def sample_cert_def sample_header_def)
  have "h_digest h = 22" if "h \<in> set (net_log 1)" "h_author h = 2" "h_round h = 2" for h
    using vote_once[OF o r that(1) m] that(2,3) by (simp add: sample_header_def sample_digest_def)
  thus ?thesis using r by blast
qed

definition rival_header :: header where
  "rival_header = (sample_header 1 1)\<lparr> h_created_at := 102, h_digest := 1011 \<rparr>"

text \<open>C36: the handler does not prevent two votes by itself: the table is read and written in two steps with
  other tasks between them, and two requests with different headers of one author and round, both
  admitted, can both read the table before either writes it; both headers then get a vote.\<close>

theorem concurrent_requests_get_two_votes:
  "\<exists>s. (task_step (net_node 2) False (set net_certs))\<^sup>*\<^sup>* (net_handler, [], []) (s, [], [sample_header 1 1, rival_header]) \<and>
     h_author (sample_header 1 1) = h_author rival_header \<and> h_round (sample_header 1 1) = h_round rival_header \<and>
     h_digest (sample_header 1 1) \<noteq> h_digest rival_header"
proof -
  let ?nd = "net_node 2" and ?X = "set net_certs" and ?h = "sample_header 1 1" and ?g = rival_header
  let ?dec = "\<lambda>s h. decide_vote ?nd (read_vote_info (vh_votes s) (h_author h)) h"
  have "(case vote_admission ?nd net_wait 1 ?h [] net_handler of
      (s1, Admitted) \<Rightarrow> (case ?dec s1 ?h of Inr (Fresh v) \<Rightarrow>
        (case vote_admission ?nd net_wait 1 ?g [] s1 of (s2, Admitted) \<Rightarrow> (case ?dec s2 ?g of Inr (Fresh v') \<Rightarrow> True | _ \<Rightarrow> False) | _ \<Rightarrow> False)
      | _ \<Rightarrow> False) | _ \<Rightarrow> False)" by code_simp
  then obtain s1 v s2 v' where a: "vote_admission ?nd net_wait 1 ?h [] net_handler = (s1, Admitted)" "?dec s1 ?h = Inr (Fresh v)"
    "vote_admission ?nd net_wait 1 ?g [] s1 = (s2, Admitted)" "?dec s2 ?g = Inr (Fresh v')"
    by (auto split: prod.splits admission.splits sum.splits decision.splits)
  have w: "store_in ?X (vw_store net_wait)" using net_store_in by (simp add: net_wait_def)
  let ?st = "\<lambda>h s. s\<lparr> vh_votes := write_vote (vote_new (nd_sign ?nd) h (nd_self ?nd)) (vh_votes s) \<rparr>"
  have "task_step ?nd False ?X (net_handler, [], []) (s1, [?h], [])"
    using task_step.read[OF a(1) w a(2), of False "[]" "[]"] by simp
  moreover have "task_step ?nd False ?X (s1, [?h], []) (s2, [?h, ?g], [])"
    using task_step.read[OF a(3) w a(4), of False "[?h]" "[]"] by simp
  moreover have "task_step ?nd False ?X (s2, [?h, ?g], []) (?st ?h s2, [?g], [?h])"
    using task_step.store[of ?h "[?h, ?g]" ?nd False ?X s2 "[]"] by simp
  moreover have "task_step ?nd False ?X (?st ?h s2, [?g], [?h]) (?st ?g (?st ?h s2), [], [?h, ?g])"
    using task_step.store[of ?g "[?g]" ?nd False ?X "?st ?h s2" "[?h]"] by simp
  ultimately have "(task_step ?nd False ?X)\<^sup>*\<^sup>* (net_handler, [], []) (?st ?g (?st ?h s2), [], [?h, ?g])"
    by (meson converse_rtranclp_into_rtranclp rtranclp.rtrancl_refl)
  moreover have "h_author ?h = h_author ?g" "h_round ?h = h_round ?g" "h_digest ?h \<noteq> h_digest ?g"
    by (simp_all add: rival_header_def sample_header_def sample_digest_def)
  ultimately show ?thesis by blast
qed

text \<open>C22: a vote is given only for a sound header: it is for the header of the request, whose author is the
  requesting member; the header belongs to the epoch and has the digest of its content; its parents,
  read in the order the header names them, are of the previous round, not newer than the header, by
  distinct authors that hold a quorum; and every batch of the header is known to the node, unless it
  proposed the header itself.\<close>

theorem voted_header_sound:
  assumes "committee_wf (nd_committee nd)" "power_fits (nd_committee nd)" "bt_sorted (vh_payload s)"
    and "handle_vote nd w peer h ps s = (s', Some (Inr (Vote v)))"
  shows "v = vote_new (nd_sign nd) h (nd_self nd) \<and> h_author h = peer \<and> peer \<in> members (nd_committee nd) \<and>
    h_epoch h = c_epoch (nd_committee nd) \<and> hash_header (nd_crypto nd) h = h_digest h \<and>
    (\<exists>qs. list_all2 (\<lambda>d x. if h_round h = 1 then map_of (nd_genesis nd) d = Some x else store_read (vw_store w) d = Some x) (h_parents h) qs \<and>
       distinct (map c_origin qs) \<and> (\<forall>x\<in>set qs. u32_add (c_round x) 1 = h_round h \<and> h_created_at (c_header x) \<le> h_created_at h) \<and>
       quorum_threshold (nd_committee nd) \<le> sum (voting_power_by_id (nd_committee nd)) (c_origin ` set qs \<inter> members (nd_committee nd))) \<and>
    (peer = nd_self nd \<or> (\<forall>(d, i, t)\<in>set (h_payload h). contains_payload (vh_payload s') d i))"
proof -
  obtain s1 where a: "vote_admission nd w peer h ps s = (s1, Admitted)" and v: "v = vote_new (nd_sign nd) h (nd_self nd)"
    and pl: "vh_payload s' = vh_payload s1"
    using voted_admitted[OF assms(4)] by blast
  have vt: "votable nd (vw_store w) h" "h_author h = peer" using admitted_votable[OF a] by auto
  then obtain qs where q: "notify_read_parent_certificates nd (vw_store w) h = Some (Inr qs)" "verify_parents (nd_committee nd) h qs = Inr ()"
    and hv: "header_validate (nd_crypto nd) (nd_committee nd) (nd_workers nd) h = Inr ()" unfolding votable_def by blast
  have "\<forall>(d, i, t)\<in>set (h_payload h). contains_payload (vh_payload s') d i" if "peer \<noteq> nd_self nd"
    using admitted_batches[OF a assms(3)] that vt(2) pl by auto
  moreover have "peer \<in> members (nd_committee nd)" using header_validate_ok(3)[OF hv] vt(2) by simp
  ultimately show ?thesis
    using header_validate_ok(1,2)[OF hv] v vt(2) notify_read_parents[OF q(1)] verify_parents_quorum[OF assms(1,2) q(2)] by blast
qed

theorem voted_header_sound_witness:
  "\<exists>s' v. handle_vote (net_node 2) net_wait 1 (sample_header 1 1) [] net_handler = (s', Some (Inr (Vote v))) \<and> v_header_digest v = 11 \<and>
     hash_header net_crypto (sample_header 1 1) = 11"
proof -
  have "(case handle_vote (net_node 2) net_wait 1 (sample_header 1 1) [] net_handler of (s', Some (Inr (Vote v))) \<Rightarrow> True | _ \<Rightarrow> False)" by code_simp
  then obtain s' v where v: "handle_vote (net_node 2) net_wait 1 (sample_header 1 1) [] net_handler = (s', Some (Inr (Vote v)))"
    by (auto split: prod.splits option.splits sum.splits primary_response.splits)
  have "committee_wf (nd_committee (net_node 2))" "power_fits (nd_committee (net_node 2))" "bt_sorted (vh_payload net_handler)"
    using sample_committee_wf sample_power(1) by (simp_all add: net_node_def net_handler_def bt_sorted_Nil)
  from voted_header_sound[OF this v] v show ?thesis
    by (simp add: net_node_def vote_new_def sample_header_def sample_digest_def)
qed

text \<open>C40: the table of votes keeps the epoch of the last vote for an author, and handling a request does not clear
  it: a node whose table holds a vote of another epoch for an author gives no vote for a header of that
  author, and its table stays as it is, so that the next request finds the same entry.\<close>

theorem stale_epoch_refuses_votes:
  assumes "read_vote_info (vh_votes s) (h_author h) = Some vi" "vi_epoch vi \<noteq> c_epoch (nd_committee nd)"
    and "handle_vote nd w peer h ps s = (s', r)"
  shows "(\<forall>v. r \<noteq> Some (Inr (Vote v))) \<and> vh_votes s' = vh_votes s"
proof -
  obtain s1 a where a: "vote_admission nd w peer h ps s = (s1, a)" by force
  have e: "vh_votes s1 = vh_votes s" using vote_admission_votes[of nd w peer h ps s] a by simp
  show ?thesis
  proof (cases "a = Admitted")
    case True
    hence "votable nd (vw_store w) h" using admitted_votable a by blast
    hence "h_epoch h = c_epoch (nd_committee nd)" using header_validate_ok(1) unfolding votable_def by blast
    thus ?thesis using assms a e True by (auto simp: handle_vote_def decide_vote_def Let_def)
  next
    case False
    thus ?thesis using assms(3) a e admission_no_vote[of nd w peer h ps s s1] by (cases a) (auto simp: handle_vote_def)
  qed
qed

theorem stale_epoch_refuses_votes_witness:
  "\<exists>s' r. handle_vote (net_node 2) net_wait 1 (sample_header 1 1) []
       (net_handler\<lparr> vh_votes := [(1, \<lparr> vi_epoch = 7, vi_round = 3, vi_vote_digest = 5 \<rparr>)] \<rparr>) = (s', r) \<and> (\<forall>v. r \<noteq> Some (Inr (Vote v)))"
proof -
  let ?s = "net_handler\<lparr> vh_votes := [(1, \<lparr> vi_epoch = 7, vi_round = 3, vi_vote_digest = 5 \<rparr>)] \<rparr>"
  obtain s' r where r: "handle_vote (net_node 2) net_wait 1 (sample_header 1 1) [] ?s = (s', r)" by force
  have e: "c_epoch (nd_committee (net_node 2)) = 0" by code_simp
  have "read_vote_info (vh_votes ?s) (h_author (sample_header 1 1)) = Some \<lparr> vi_epoch = 7, vi_round = 3, vi_vote_digest = 5 \<rparr>"
    by (simp add: read_vote_info_def sample_header_def)
  from stale_epoch_refuses_votes[OF this _ r] show ?thesis using r e by simp
qed

section \<open>Certificates from the network\<close>

text \<open>C10: nothing reaches consensus without the signatures of a quorum behind it: whatever certificates peers send
  and whatever collections are fetched, every certificate that the synchronizer forwards to consensus,
  and every one it keeps pending, was accepted by verification with the signatures it arrived with, or
  is a parent of such a certificate, directly or through others. In a fetched collection only part of
  the signatures is checked. The certificates that arrive may name any parents and any digest; those with
  such backing are assumed to be identified by their digests and to be one round above their parents,
  which the authorities that signed them checked. The digests in a fetched collection have no cycles.\<close>

theorem consensus_input_backed:
  assumes "cert_world (backed_in nd H)" "hash_order (nd_iter nd)" "set (map fst (nd_genesis nd)) \<subseteq> K"
    and "store_ok st" "stored_certs st \<subseteq> backed_in nd H" "\<forall>d. store_contains st d \<longrightarrow> d \<in> K"
    and "(sv_step nd H)\<^sup>*\<^sup>* (state_sync_new st latest) s"
  shows "(\<forall>x\<in>set (cm_to_consensus (sv_manager s)). is_verified x \<and> backed nd x) \<and>
    (\<forall>d p. map_of (pm_pending (cm_pending (sv_manager s))) d = Some p \<longrightarrow> backed nd (pc_certificate p)) \<and>
    sv_manager_open s"
proof -
  have "sv_good nd H K (state_sync_new st latest)"
    unfolding sv_good_def state_sync_new_def using cm_good_new[OF assms(1-6)] by simp
  hence "sv_good nd H K s" by (rule sv.inv_reachable[OF _ assms(7)])
  hence inv: "cm_inv (backed_in nd H) K (sv_manager s)" and o: "sv_manager_open s" by (simp_all add: sv_good_def cm_good_def)
  have "backed nd (pc_certificate p)" if "map_of (pm_pending (cm_pending (sv_manager s))) d = Some p" for d p
    using inv that unfolding cm_inv_def pending_all_def backed_in_def by blast
  thus ?thesis using inv o unfolding cm_inv_def backed_in_def by blast
qed

definition fetched_certs :: "certificate list" where
  "fetched_certs = map (\<lambda>(r, a). received_cert (sample_cert r a)) [(2, 1), (1, 1), (1, 2), (1, 3)]"

lemma net_world: "cert_world (certs_of (set voted_headers))"
proof -
  have d: "\<forall>h\<in>set voted_headers. \<forall>g\<in>set voted_headers. h_digest h = h_digest g \<longrightarrow> h_round h = h_round g \<and> h_author h = h_author g"
    and p: "\<forall>h\<in>set voted_headers. \<forall>g\<in>set voted_headers. h_digest g \<in> set (h_parents h) \<longrightarrow> h_round h = Suc (h_round g)"
    by code_simp+
  show ?thesis unfolding cert_world_def digests_identify_def parent_rounds_def certs_of_def cert_digest_def
    using d p by blast
qed

lemma backed_in_certs: "backed_in nd H \<subseteq> certs_of H"
  by (auto simp: backed_in_def)

lemma fetched_acyclic: "hash_acyclic (set fetched_certs)"
proof -
  have "\<forall>x\<in>set fetched_certs. \<forall>p\<in>set (c_parents x). p < cert_digest x" by code_simp
  thus ?thesis unfolding hash_acyclic_def by (intro exI[of _ "\<lambda>d. d"])
qed

theorem consensus_input_backed_witness:
  "\<exists>s r. process_fetched_certificates_in_parallel (net_node 2) fetched_certs (state_sync_new cert_store_empty None) = Some (s, r) \<and>
     map cert_digest (cm_to_consensus (sv_manager s)) = [11, 12, 13, 21] \<and>
     (\<forall>x\<in>set (cm_to_consensus (sv_manager s)). backed (net_node 2) x)"
proof -
  let ?s0 = "state_sync_new cert_store_empty None"
  have "(case process_fetched_certificates_in_parallel (net_node 2) fetched_certs ?s0 of
      Some (s, r) \<Rightarrow> map cert_digest (cm_to_consensus (sv_manager s)) = [11, 12, 13, 21] | None \<Rightarrow> False)" by code_simp
  then obtain s r where s: "process_fetched_certificates_in_parallel (net_node 2) fetched_certs ?s0 = Some (s, r)"
    "map cert_digest (cm_to_consensus (sv_manager s)) = [11, 12, 13, 21]" by (auto split: option.splits)
  have "list_all (\<lambda>x. c_header x \<in> set voted_headers) fetched_certs" by code_simp
  hence "\<forall>x\<in>set fetched_certs. c_header x \<in> set voted_headers \<and> (\<exists>sig. c_state x = Unverified sig)"
    by (auto simp: list_all_iff fetched_certs_def received_cert_def)
  from sv_step.fetched[OF s(1) fetched_acyclic this] have step: "(sv_step (net_node 2) (set voted_headers))\<^sup>*\<^sup>* ?s0 s" by (rule r_into_rtranclp)
  have "hash_order (nd_iter (net_node 2))" by (simp add: net_node_def hash_order_def)
  moreover have "set (map fst (nd_genesis (net_node 2))) \<subseteq> {1, 2, 3, 4}" by (simp add: net_node_def)
  moreover have "stored_certs cert_store_empty \<subseteq> backed_in (net_node 2) (set voted_headers)" "\<forall>d. store_contains cert_store_empty d \<longrightarrow> d \<in> {1, 2, 3, 4}"
    by (auto simp: stored_certs_def store_read_def store_contains_def cert_store_empty_def ran_def)
  ultimately have "\<forall>x\<in>set (cm_to_consensus (sv_manager s)). is_verified x \<and> backed (net_node 2) x"
    using consensus_input_backed[OF cert_world_mono[OF net_world backed_in_certs] _ _ store_ok_empty _ _ step] by blast
  thus ?thesis using s by (intro exI[of _ s] exI[of _ r]) simp
qed

text \<open>Checking the signatures of a fetched collection in chunks, each in a task of its own, gives the same
  result as checking one after the other: the same certificates, and the error of the first that
  fails, for every positive chunk size.\<close>

theorem chunk_size_irrelevant:
  assumes "0 < verification_chunk_size (nd_sync nd)"
  shows "verify_collection nd gc xs =
    (case classify_certificates_for_verification nd xs of
       None \<Rightarrow> None
     | Some (Inl e) \<Rightarrow> Some (Inl e)
     | Some (Inr (cs, es)) \<Rightarrow>
         Some (case verification_task nd gc es of
           Inl e \<Rightarrow> Inl e | Inr ds \<Rightarrow> Inr (fold (\<lambda>(i, y) cs. cs[i := y]) ds cs)))"
proof (cases "xs = []")
  case False
  thus ?thesis unfolding verify_collection_def verify_certificate_chunk_alt[OF assms]
    by (auto split: option.splits sum.splits)
qed (simp add: verify_collection_def classify_certificates_for_verification_def verification_task_def)

theorem chunk_size_irrelevant_witness:
  "verify_collection (net_node 2) 0 fetched_certs = Some (Inr (net_cert (sample_cert 2 1) #
     map (\<lambda>a. (sample_cert 1 a)\<lparr> c_state := VerifiedIndirectly (10 + a + 36) \<rparr>) [1, 2, 3]))"
proof -
  have "0 < verification_chunk_size (nd_sync (net_node 2))" by (simp add: net_node_def)
  from chunk_size_irrelevant[OF this, of 0 fetched_certs] show ?thesis
    by (simp only:) code_simp
qed

end
