(* ===== verification/Network_Error.thy ===== *)
theory Network_Error
  imports TN_Prelude
begin

text \<open>
  The errors of the peer to peer network (crates/network-libp2p/src/error.rs), which the network handles
  of primaries and workers return. Errors of libraries are their messages.
\<close>

datatype p2p_error =
    Dial string
  | RedialAttempt
  | Publish string
  | Subscription string
  | MpscTrySend string
  | ChannelSender string
  | NetworkAckChannelClosed string
  | Listen string
  | GossipsubConfig string
  | EnablePeerScoreBehavior string
  | NetworkStdIo string
  | TryFromIntError string
  | SendResponse
  | PendingRequestChannelLost
  | Outbound string
  | GossipBehavior string
  | BuildSwarm
  | RPCError string
  | NoPeers
  | ProtocolError string
  | NetworkTimeout

end
