(* ===== verification/Quorum_Waiter.thy ===== *)
theory Quorum_Waiter
  imports Committee Worker_Cache Network_Error
begin

text \<open>
  Waiting for a quorum of workers to acknowledge a batch (crates/consensus/worker/src/quorum_waiter.rs). The
  replies of the peers arrive in any order: the argument is the sequence of them until the time is up.
\<close>

datatype waiter_error = WaiterRejected voting_power | WaiterNetwork voting_power

datatype quorum_waiter_error = QuorumRejected | AntiQuorum | QuorumTimeout | QuorumNetwork | QuorumRpc string

record quorum_waiter =
  qw_authority :: authority
  qw_id :: worker_id
  qw_committee :: committee
  qw_worker_cache :: worker_cache

text \<open>The reply of a peer: \<^const>\<open>None\<close> says that the task that asked it was cancelled or panicked.\<close>

type_synonym batch_reply = "(p2p_error, unit) result option"

definition waiter :: "batch_reply \<Rightarrow> voting_power \<Rightarrow> (waiter_error, voting_power) result" where
  "waiter r deliver =
     (case r of
        Some (Inr _) \<Rightarrow> Inr deliver
      | Some (Inl (RPCError msg)) \<Rightarrow> Inl (WaiterRejected deliver)
      | Some (Inl _) \<Rightarrow> Inl (WaiterNetwork deliver)
      | None \<Rightarrow> Inl (WaiterNetwork deliver))"

record quorum_state =
  qs_total :: voting_power
  qs_available :: voting_power
  qs_rejected :: voting_power

text \<open>The reply of one peer: the new state, or that the quorum is reached.\<close>

definition count_reply :: "voting_power \<Rightarrow> (waiter_error, voting_power) result \<Rightarrow> quorum_state \<Rightarrow> quorum_state \<times> bool" where
  "count_reply threshold res s =
     (case res of
        Inr stake \<Rightarrow> (let t = u64_add (qs_total s) stake in (s\<lparr> qs_total := t \<rparr>, t \<ge> threshold))
      | Inl (WaiterRejected stake) \<Rightarrow>
          (s\<lparr> qs_rejected := u64_sub (qs_rejected s) stake, qs_available := u64_sub (qs_available s) stake \<rparr>, False)
      | Inl (WaiterNetwork stake) \<Rightarrow> (s\<lparr> qs_available := u64_sub (qs_available s) stake \<rparr>, False))"

text \<open>A reply that belongs to no peer that is still waited for does not occur; it changes nothing.\<close>

fun quorum_loop ::
  "committee \<Rightarrow> voting_power \<Rightarrow> voting_power \<Rightarrow> bls_pk list \<Rightarrow> (bls_pk \<times> batch_reply) list \<Rightarrow> quorum_state
     \<Rightarrow> (quorum_waiter_error, unit) result" where
  "quorum_loop c threshold max_rejected waiting [] s = (if waiting = [] then Inl AntiQuorum else Inl QuorumTimeout)"
| "quorum_loop c threshold max_rejected waiting ((p, r) # evs) s =
     (if waiting = [] then Inl AntiQuorum
      else if p \<notin> set waiting then quorum_loop c threshold max_rejected waiting evs s
      else
        (case count_reply threshold (waiter r (voting_power_by_key c p)) s of
           (s', True) \<Rightarrow> Inr ()
         | (s', False) \<Rightarrow>
             if qs_rejected s' > max_rejected then Inl QuorumRejected
             else if u64_add (qs_total s') (qs_available s') < threshold then Inl AntiQuorum
             else quorum_loop c threshold max_rejected (remove1 p waiting) evs s'))"

definition quorum_peers :: "quorum_waiter \<Rightarrow> bls_pk list" where
  "quorum_peers qw = map fst (others_workers_by_id (qw_worker_cache qw) (protocol_key (qw_authority qw)) (qw_id qw))"

definition quorum_start :: "quorum_waiter \<Rightarrow> quorum_state" where
  "quorum_start qw = \<lparr> qs_total = voting_power (qw_authority qw),
     qs_available = u64_sum (map (voting_power_by_key (qw_committee qw)) (quorum_peers qw)), qs_rejected = 0 \<rparr>"

definition verify_batch :: "quorum_waiter \<Rightarrow> (bls_pk \<times> batch_reply) list \<Rightarrow> (quorum_waiter_error, unit) result" where
  "verify_batch qw evs =
     quorum_loop (qw_committee qw) (quorum_threshold (qw_committee qw))
       (u64_sub (qs_available (quorum_start qw)) (quorum_threshold (qw_committee qw)))
       (quorum_peers qw) evs (quorum_start qw)"

section \<open>What an acknowledged batch guarantees\<close>

abbreviation acked :: "(bls_pk \<times> batch_reply) list \<Rightarrow> bls_pk \<Rightarrow> bool" where
  "acked evs p \<equiv> (p, Some (Inr ())) \<in> set evs"

lemma waiter_Inr: "waiter r d = Inr n \<Longrightarrow> n = d \<and> (\<exists>u. r = Some (Inr u))"
  by (auto simp: waiter_def split: option.splits sum.splits p2p_error.splits)

lemma waiter_cases:
  obtains (acknowledged) "r = Some (Inr ())" "waiter r d = Inr d"
  | (refused) msg where "r = Some (Inl (RPCError msg))" "waiter r d = Inl (WaiterRejected d)"
  | (failed) "waiter r d = Inl (WaiterNetwork d)"
proof (cases r)
  case None
  thus thesis using failed by (simp add: waiter_def)
next
  case (Some res)
  show thesis
  proof (cases res)
    case (Inl e)
    thus thesis using Some refused failed by (cases e) (simp_all add: waiter_def)
  qed (use Some acknowledged in \<open>simp add: waiter_def\<close>)
qed

lemma quorum_loop_sound:
  assumes "quorum_loop c thr mr waiting evs s = Inr ()" "distinct waiting"
    and "qs_total s + sum_list (map (voting_power_by_key c) waiting) < u64_max"
  shows "\<exists>ps. distinct ps \<and> set ps \<subseteq> set waiting \<and> (\<forall>p\<in>set ps. acked evs p)
           \<and> thr \<le> qs_total s + sum_list (map (voting_power_by_key c) ps)"
  using assms
proof (induction c thr mr waiting evs s rule: quorum_loop.induct)
  case (2 c thr mr waiting p r evs s)
  let ?w = "voting_power_by_key c"
  show ?case
  proof (cases "p \<in> set waiting")
    case False
    hence "\<exists>ps. distinct ps \<and> set ps \<subseteq> set waiting \<and> (\<forall>p\<in>set ps. acked evs p) \<and> thr \<le> qs_total s + sum_list (map ?w ps)"
      using 2 by (auto split: if_splits)
    thus ?thesis by auto
  next
    case True
    have split_sum: "sum_list (map ?w waiting) = ?w p + sum_list (map ?w (remove1 p waiting))"
      using True by (rule sum_list_map_remove1)
    have d: "distinct (remove1 p waiting)" using 2(4) by (rule distinct_remove1)
    have rest: "\<exists>ps. distinct ps \<and> set ps \<subseteq> set (remove1 p waiting) \<and> (\<forall>q\<in>set ps. acked evs q)
                  \<and> thr \<le> qs_total s' + sum_list (map ?w ps)"
      if "count_reply thr (waiter r (?w p)) s = (s', False)" "qs_total s' + sum_list (map ?w (remove1 p waiting)) < u64_max" for s'
      using 2 True that d by (auto split: if_splits)
    show ?thesis
    proof (cases r "?w p" rule: waiter_cases)
      case acknowledged
      have t: "u64_add (qs_total s) (?w p) = qs_total s + ?w p" using 2(5) split_sum by (intro u64_add_exact) linarith
      show ?thesis
      proof (cases "qs_total s + ?w p \<ge> thr")
        case True
        thus ?thesis using \<open>p \<in> set waiting\<close> acknowledged(1) by (intro exI[of _ "[p]"]) auto
      next
        case False
        have "\<exists>ps. distinct ps \<and> set ps \<subseteq> set (remove1 p waiting) \<and> (\<forall>q\<in>set ps. acked evs q)
                \<and> thr \<le> qs_total s + ?w p + sum_list (map ?w ps)"
          using rest[of "s\<lparr>qs_total := qs_total s + ?w p\<rparr>"] False t 2(5) split_sum
          by (simp add: count_reply_def acknowledged(2) Let_def)
        then obtain ps where "distinct ps" "set ps \<subseteq> set (remove1 p waiting)" "\<forall>q\<in>set ps. acked evs q"
          "thr \<le> qs_total s + ?w p + sum_list (map ?w ps)" by blast
        moreover have "p \<notin> set (remove1 p waiting)" using 2(4) by (simp add: set_remove1_eq)
        ultimately show ?thesis using \<open>p \<in> set waiting\<close> acknowledged(1) 2(4)
          by (intro exI[of _ "p # ps"]) (auto simp: set_remove1_eq)
      qed
    next
      case refused
      hence "\<exists>ps. distinct ps \<and> set ps \<subseteq> set (remove1 p waiting) \<and> (\<forall>q\<in>set ps. acked evs q)
               \<and> thr \<le> qs_total s + sum_list (map ?w ps)"
        using rest 2(5) split_sum by (simp add: count_reply_def)
      thus ?thesis using 2(4) by (auto simp: set_remove1_eq)
    next
      case failed
      hence "\<exists>ps. distinct ps \<and> set ps \<subseteq> set (remove1 p waiting) \<and> (\<forall>q\<in>set ps. acked evs q)
               \<and> thr \<le> qs_total s + sum_list (map ?w ps)"
        using rest 2(5) split_sum by (simp add: count_reply_def)
      thus ?thesis using 2(4) by (auto simp: set_remove1_eq)
    qed
  qed
qed (auto split: if_splits)

text \<open>Nothing was rejected yet: then a rejection ends the wait unless the bound wrapped around as well.\<close>

lemma quorum_loop_rejected:
  assumes "p \<in> set waiting" "qs_rejected s = 0" "0 < voting_power_by_key c p"
    and "mr + voting_power_by_key c p < u64_max"
  shows "quorum_loop c thr mr waiting ((p, Some (Inl (RPCError msg))) # evs) s = Inl QuorumRejected"
proof -
  have "u64_sub 0 (voting_power_by_key c p) = u64_max - voting_power_by_key c p"
    using assms(3,4) by (simp add: u64_sub_wraps)
  thus ?thesis using assms by (auto simp: waiter_def count_reply_def)
qed

definition acks :: "(bls_pk \<times> batch_reply) list \<Rightarrow> bls_pk list" where
  "acks evs = map fst (filter (\<lambda>(p, r). r = Some (Inr ())) evs)"

text \<open>
  A rejection that is counted before the acknowledgements reach the quorum ends the wait in an error, whatever
  the replies around it: the wait is over already, or the rejection ends it.
\<close>

lemma quorum_loop_blocked:
  assumes "p \<in> set waiting" "p \<notin> fst ` set pre" "qs_rejected s = 0" "0 < voting_power_by_key c p"
    and "mr + voting_power_by_key c p < u64_max"
    and "qs_total s + sum_list (map (voting_power_by_key c) (acks pre)) < thr" "thr < u64_max"
    and "\<forall>q. voting_power_by_key c q + mr < u64_max"
  shows "quorum_loop c thr mr waiting (pre @ (p, Some (Inl (RPCError msg))) # evs) s \<in> {Inl QuorumRejected, Inl AntiQuorum}"
  using assms
proof (induction pre arbitrary: waiting s)
  case Nil
  thus ?case using quorum_loop_rejected[of p waiting s c mr thr msg evs] by simp
next
  case (Cons e pre)
  obtain q r where e: "e = (q, r)" by fastforce
  let ?w = "voting_power_by_key c"
  have le: "sum_list (map ?w (acks pre)) \<le> sum_list (map ?w (acks (e # pre)))" by (simp add: acks_def)
  have ne: "waiting \<noteq> []" "p \<noteq> q" using Cons.prems(1,2) by (auto simp: e)
  have step: "quorum_loop c thr mr (remove1 q waiting) (pre @ (p, Some (Inl (RPCError msg))) # evs) s' \<in> {Inl QuorumRejected, Inl AntiQuorum}"
    if "qs_rejected s' = 0" "qs_total s' + sum_list (map ?w (acks pre)) < thr" for s'
    using Cons.IH[of "remove1 q waiting" s'] Cons.prems that ne by (auto simp: in_set_remove1)
  show ?case
  proof (cases "q \<in> set waiting")
    case False
    thus ?thesis using Cons.IH[of waiting s] Cons.prems le ne by (auto simp: e)
  next
    case True
    show ?thesis
    proof (cases r "?w q" rule: waiter_cases)
      case acknowledged
      have t: "qs_total s + ?w q + sum_list (map ?w (acks pre)) < thr" using Cons.prems(6) by (simp add: acks_def e acknowledged(1))
      hence "u64_add (qs_total s) (?w q) = qs_total s + ?w q" using Cons.prems(7) by (intro u64_add_exact) linarith
      thus ?thesis using t ne step[of "s\<lparr>qs_total := qs_total s + ?w q\<rparr>"] Cons.prems(3)
        by (simp add: e True count_reply_def acknowledged(2) Let_def)
    next
      case (refused m)
      show ?thesis
      proof (cases "?w q = 0")
        case True
        have "u64_sub (qs_rejected s) 0 = 0" using Cons.prems(3) by (simp add: u64_sub_def)
        thus ?thesis using \<open>q \<in> set waiting\<close> True ne step[of "s\<lparr>qs_rejected := 0, qs_available := u64_sub (qs_available s) 0\<rparr>"] le Cons.prems(6)
          refused(2)[unfolded True] by (simp add: e count_reply_def)
      next
        case False
        thus ?thesis
          using quorum_loop_rejected[of q waiting s c mr thr m "pre @ (p, Some (Inl (RPCError msg))) # evs"] \<open>q \<in> set waiting\<close> Cons.prems(3,8)
          by (simp add: e refused(1) add.commute)
      qed
    next
      case failed
      thus ?thesis using ne step[of "s\<lparr>qs_available := u64_sub (qs_available s) (?w q)\<rparr>"] le Cons.prems(3,6)
        by (simp add: e True count_reply_def)
    qed
  qed
qed

text \<open>When the replies before the rejection are acknowledgements, the error is the one for a rejected batch.\<close>

lemma quorum_loop_acked_rejected:
  assumes "p \<in> set waiting" "p \<notin> fst ` set pre" "qs_rejected s = 0" "0 < voting_power_by_key c p"
    and "mr + voting_power_by_key c p < u64_max"
    and "qs_total s + sum_list (map (voting_power_by_key c) (acks pre)) < thr"
    and "\<forall>e\<in>set pre. snd e = Some (Inr ())" "thr \<le> qs_available s" "thr + qs_available s < u64_max"
  shows "quorum_loop c thr mr waiting (pre @ (p, Some (Inl (RPCError msg))) # evs) s = Inl QuorumRejected"
  using assms
proof (induction pre arbitrary: waiting s)
  case Nil
  thus ?case using quorum_loop_rejected[of p waiting s c mr thr msg evs] by simp
next
  case (Cons e pre)
  obtain q where e: "e = (q, Some (Inr ()))" using Cons.prems(7) by (cases e) auto
  have ne: "waiting \<noteq> []" "p \<noteq> q" using Cons.prems(1,2) by (auto simp: e)
  let ?w = "voting_power_by_key c"
  have t: "qs_total s + ?w q + sum_list (map ?w (acks pre)) < thr" using Cons.prems(6) by (simp add: acks_def e)
  show ?case
  proof (cases "q \<in> set waiting")
    case False
    thus ?thesis using Cons.IH[of waiting s] Cons.prems t ne by (auto simp: e)
  next
    case True
    let ?s = "s\<lparr>qs_total := qs_total s + ?w q\<rparr>"
    have "u64_add (qs_total s) (?w q) = qs_total s + ?w q" "u64_add (qs_total s + ?w q) (qs_available s) = qs_total s + ?w q + qs_available s"
      using t Cons.prems(9) by (simp_all add: u64_simps)
    moreover have "quorum_loop c thr mr (remove1 q waiting) (pre @ (p, Some (Inl (RPCError msg))) # evs) ?s = Inl QuorumRejected"
      by (rule Cons.IH) (use Cons.prems t ne in \<open>auto simp: in_set_remove1\<close>)
    ultimately show ?thesis using t ne Cons.prems(3,8) by (simp add: e True count_reply_def waiter_def Let_def)
  qed
qed

text \<open>Without rejections the wait succeeds as soon as the acknowledged stake is enough.\<close>

definition no_rejection :: "(bls_pk \<times> batch_reply) list \<Rightarrow> bool" where
  "no_rejection evs \<longleftrightarrow> (\<forall>(p, r)\<in>set evs. \<nexists>msg. r = Some (Inl (RPCError msg)))"

lemma quorum_loop_complete:
  assumes "no_rejection evs" "qs_rejected s = 0" "distinct (map fst evs)" "fst ` set evs \<subseteq> set waiting" "distinct waiting"
    and "sum_list (map (voting_power_by_key c) waiting) \<le> qs_available s" "qs_total s + qs_available s + sum_list (map (voting_power_by_key c) waiting) < u64_max"
    and "qs_total s < thr" "thr \<le> qs_total s + sum_list (map (voting_power_by_key c) (acks evs))"
  shows "quorum_loop c thr mr waiting evs s = Inr ()"
  using assms
proof (induction c thr mr waiting evs s rule: quorum_loop.induct)
  case (2 c thr mr waiting p r evs s)
  let ?w = "voting_power_by_key c"
  have p: "p \<in> set waiting" using 2(6) by simp
  have split_sum: "sum_list (map ?w waiting) = ?w p + sum_list (map ?w (remove1 p waiting))"
    using p by (rule sum_list_map_remove1)
  have acks_le: "sum_list (map ?w (acks evs)) \<le> sum_list (map ?w (remove1 p waiting))"
  proof -
    have "set (acks evs) \<subseteq> set (remove1 p waiting)" "distinct (acks evs)"
      using 2(5-7) by (auto simp: acks_def set_remove1_eq distinct_map inj_on_def image_iff distinct_filter)
    thus ?thesis using sum_list_distinct_subset[of "acks evs" "set (remove1 p waiting)" ?w]
      by (simp add: sum_list_distinct_conv_sum_set 2(7))
  qed
  have rest: "quorum_loop c thr mr waiting ((p, r) # evs) s = Inr ()"
    if "count_reply thr (waiter r (?w p)) s = (s', False)" "qs_rejected s' = 0"
      "sum_list (map ?w (remove1 p waiting)) \<le> qs_available s'" "qs_total s' + qs_available s' + sum_list (map ?w (remove1 p waiting)) < u64_max"
      "qs_total s' < thr" "thr \<le> qs_total s' + sum_list (map ?w (acks evs))" for s'
  proof -
    have n: "\<not> u64_add (qs_total s') (qs_available s') < thr" using that(3,4,6) acks_le by (simp add: u64_simps)
    have sub: "no_rejection evs" "distinct (map fst evs)" "fst ` set evs \<subseteq> set (remove1 p waiting)"
      using 2(3,5-7) by (auto simp: no_rejection_def set_remove1_eq)
    have w: "waiting \<noteq> []" using p by auto
    have "quorum_loop c thr mr (remove1 p waiting) evs s' = Inr ()"
      by (rule 2(2)[OF w _ that(1)[symmetric]]) (use that n p w sub distinct_remove1[OF 2(7)] in auto)
    thus ?thesis using that(1,2) p n w by simp
  qed
  show ?case
  proof (cases r "?w p" rule: waiter_cases)
    case acknowledged
    have t: "u64_add (qs_total s) (?w p) = qs_total s + ?w p" using 2(9) split_sum by (intro u64_add_exact) linarith
    have a: "sum_list (map ?w (acks ((p, r) # evs))) = ?w p + sum_list (map ?w (acks evs))"
      using acknowledged(1) by (simp add: acks_def)
    show ?thesis
    proof (cases "thr \<le> qs_total s + ?w p")
      case True
      thus ?thesis using p acknowledged t by (auto simp: count_reply_def)
    next
      case False
      have c: "count_reply thr (waiter r (?w p)) s = (s\<lparr>qs_total := qs_total s + ?w p\<rparr>, False)"
        using False t by (simp add: count_reply_def acknowledged(2) Let_def)
      show ?thesis by (rule rest[OF c]) (use 2(4,8-11) False a split_sum in simp_all)
    qed
  next
    case refused
    thus ?thesis using 2(3) by (auto simp: no_rejection_def)
  next
    case failed
    hence "r \<noteq> Some (Inr ())" by (auto simp: waiter_def)
    hence a: "acks ((p, r) # evs) = acks evs" by (simp add: acks_def)
    have "u64_sub (qs_available s) (?w p) = qs_available s - ?w p" using 2(8,9) split_sum by (intro u64_sub_exact) linarith+
    hence c: "count_reply thr (waiter r (?w p)) s = (s\<lparr>qs_available := qs_available s - ?w p\<rparr>, False)"
      by (simp add: count_reply_def failed)
    show ?thesis by (rule rest[OF c]) (use 2(4,8-11) a split_sum in simp_all)
  qed
qed (auto simp: acks_def)

section \<open>Stake by key\<close>

definition member_keys :: "committee \<Rightarrow> bls_pk set" where
  "member_keys c = set (bt_keys (authorities c))"

lemma finite_member_keys [simp]: "finite (member_keys c)"
  by (simp add: member_keys_def)

lemma power_non_member_key: "k \<notin> member_keys c \<Longrightarrow> voting_power_by_key c k = 0"
  by (simp add: member_keys_def bt_keys_def voting_power_by_key_def map_of_eq_None_iff[THEN iffD2])

lemma power_of_members: "finite A \<Longrightarrow> sum (voting_power_by_key c) A = sum (voting_power_by_key c) (A \<inter> member_keys c)"
  by (intro sum.mono_neutral_right ballI) (simp_all add: power_non_member_key)

lemma power_by_key_total:
  assumes "committee_wf c"
  shows "sum (voting_power_by_key c) (member_keys c) = total_power c"
proof -
  have d: "distinct (map fst (authorities c))"
    using assms by (auto simp: committee_wf_def auths_wf_def intro: bt_sorted_distinct)
  have "sum (voting_power_by_key c) (member_keys c) = sum_list (map (voting_power_by_key c) (map fst (authorities c)))"
    using sum_list_distinct_conv_sum_set[OF d, of "voting_power_by_key c"] by (simp add: member_keys_def bt_keys_def)
  also have "\<dots> = sum_list (map voting_power (bt_values (authorities c)))"
    unfolding map_map bt_values_def
    by (intro arg_cong[where f = sum_list] map_cong) (use d in \<open>auto simp: voting_power_by_key_def\<close>)
  finally show ?thesis by (simp add: total_power_sum_list[OF assms])
qed

lemma power_by_keys_le:
  assumes "committee_wf c" "distinct ks"
  shows "sum_list (map (voting_power_by_key c) ks) \<le> total_power c"
proof -
  have "sum_list (map (voting_power_by_key c) ks) = sum (voting_power_by_key c) (set ks)"
    using assms(2) by (simp add: sum_list_distinct_conv_sum_set)
  also have "\<dots> = sum (voting_power_by_key c) (set ks \<inter> member_keys c)"
    by (intro power_of_members) simp
  also have "\<dots> \<le> sum (voting_power_by_key c) (member_keys c)" by (intro sum_mono2) auto
  finally show ?thesis by (simp add: power_by_key_total[OF assms(1)])
qed

interpretation kq: quorum_system member_keys voting_power_by_key quorum_threshold validity_threshold
  "\<lambda>c. committee_wf c \<and> power_fits c"
  by unfold_locales
    (auto simp: power_by_key_total intro: threshold_sums(1,2) threshold_sums(3)[simplified])

section \<open>The quorum waiter of a committee member\<close>

definition waiter_wf :: "quorum_waiter \<Rightarrow> bool" where
  "waiter_wf qw \<longleftrightarrow> committee_wf (qw_committee qw) \<and> power_fits (qw_committee qw) \<and> cache_wf (qw_worker_cache qw)
     \<and> authority_by_key (qw_committee qw) (protocol_key (qw_authority qw)) = Some (qw_authority qw)"

lemma quorum_peers_distinct:
  assumes "waiter_wf qw"
  shows "distinct (protocol_key (qw_authority qw) # quorum_peers qw)"
proof -
  have "cache_wf (qw_worker_cache qw)" using assms by (simp add: waiter_wf_def)
  thus ?thesis unfolding quorum_peers_def
    by (auto simp: others_workers_by_id_keys_distinct others_workers_by_id_iff)
qed

lemma own_power:
  "waiter_wf qw \<Longrightarrow> voting_power_by_key (qw_committee qw) (protocol_key (qw_authority qw)) = voting_power (qw_authority qw)"
  by (simp add: waiter_wf_def authority_by_key_def voting_power_by_key_def)

lemma peers_power:
  assumes "waiter_wf qw"
  shows "voting_power (qw_authority qw) + sum_list (map (voting_power_by_key (qw_committee qw)) (quorum_peers qw)) \<le> total_power (qw_committee qw)"
    "2 * total_power (qw_committee qw) < u64_max"
proof -
  have w: "committee_wf (qw_committee qw)" using assms by (simp add: waiter_wf_def)
  show "voting_power (qw_authority qw) + sum_list (map (voting_power_by_key (qw_committee qw)) (quorum_peers qw)) \<le> total_power (qw_committee qw)"
    using power_by_keys_le[OF w quorum_peers_distinct[OF assms]] own_power[OF assms] by simp
  show "2 * total_power (qw_committee qw) < u64_max"
    using assms by (simp add: waiter_wf_def power_fits_def total_power_sum_list)
qed

lemma available_exact:
  "waiter_wf qw \<Longrightarrow> qs_available (quorum_start qw) = sum_list (map (voting_power_by_key (qw_committee qw)) (quorum_peers qw))"
  using peers_power[of qw] by (simp add: quorum_start_def u64_simps)

lemma verify_batch_quorum:
  assumes "waiter_wf qw" "verify_batch qw evs = Inr ()"
  shows "\<exists>Q. Q \<subseteq> member_keys (qw_committee qw) \<and> sum (voting_power_by_key (qw_committee qw)) Q \<ge> quorum_threshold (qw_committee qw)
           \<and> (\<forall>p\<in>Q. p = protocol_key (qw_authority qw) \<or> acked evs p)"
proof -
  let ?c = "qw_committee qw" and ?own = "protocol_key (qw_authority qw)"
  have d: "distinct (?own # quorum_peers qw)" by (rule quorum_peers_distinct[OF assms(1)])
  have "\<exists>ps. distinct ps \<and> set ps \<subseteq> set (quorum_peers qw) \<and> (\<forall>p\<in>set ps. acked evs p)
      \<and> quorum_threshold ?c \<le> qs_total (quorum_start qw) + sum_list (map (voting_power_by_key ?c) ps)"
    using assms(2)[unfolded verify_batch_def] d peers_power[OF assms(1)]
    by (intro quorum_loop_sound) (auto simp: quorum_start_def)
  then obtain ps where ps: "distinct ps" "set ps \<subseteq> set (quorum_peers qw)" "\<forall>p\<in>set ps. acked evs p"
    "quorum_threshold ?c \<le> voting_power (qw_authority qw) + sum_list (map (voting_power_by_key ?c) ps)"
    by (auto simp: quorum_start_def)
  have dist: "distinct (?own # ps)" using ps(1,2) d by auto
  have "sum_list (map (voting_power_by_key ?c) (?own # ps)) = sum (voting_power_by_key ?c) (set (?own # ps))"
    using dist by (intro sum_list_distinct_conv_sum_set)
  also have "\<dots> = sum (voting_power_by_key ?c) (set (?own # ps) \<inter> member_keys ?c)"
    by (intro power_of_members) simp
  finally have "quorum_threshold ?c \<le> sum (voting_power_by_key ?c) (set (?own # ps) \<inter> member_keys ?c)"
    using ps(4) own_power[OF assms(1)] by simp
  thus ?thesis using ps(3) by (intro exI[of _ "set (?own # ps) \<inter> member_keys ?c"]) auto
qed

lemma verify_batch_rejected:
  assumes "waiter_wf qw" "p \<in> set (quorum_peers qw)" "0 < voting_power_by_key (qw_committee qw) p"
    and "quorum_threshold (qw_committee qw) \<le> sum_list (map (voting_power_by_key (qw_committee qw)) (quorum_peers qw))"
    and "p \<notin> fst ` set pre"
    and "voting_power (qw_authority qw) + sum_list (map (voting_power_by_key (qw_committee qw)) (acks pre)) < quorum_threshold (qw_committee qw)"
  shows "verify_batch qw (pre @ (p, Some (Inl (RPCError msg))) # evs) \<in> {Inl QuorumRejected, Inl AntiQuorum}"
    "\<forall>e\<in>set pre. snd e = Some (Inr ()) \<Longrightarrow> verify_batch qw (pre @ (p, Some (Inl (RPCError msg))) # evs) = Inl QuorumRejected"
proof -
  let ?w = "voting_power_by_key (qw_committee qw)"
  let ?av = "sum_list (map ?w (quorum_peers qw))" and ?thr = "quorum_threshold (qw_committee qw)"
  have wf: "committee_wf (qw_committee qw)" using assms(1) by (simp add: waiter_wf_def)
  have a: "u64_sub (qs_available (quorum_start qw)) ?thr = ?av - ?thr"
    using assms(4) peers_power[OF assms(1)] by (simp add: available_exact[OF assms(1)] u64_simps)
  have w: "?w q \<le> total_power (qw_committee qw)" for q using power_by_keys_le[OF wf, of "[q]"] by simp
  have fits: "?av - ?thr + ?w q < u64_max" for q using peers_power[OF assms(1)] w[of q] by linarith
  have thr: "?thr + ?av < u64_max" "?thr < u64_max" using assms(4) peers_power[OF assms(1)] by linarith+
  show "verify_batch qw (pre @ (p, Some (Inl (RPCError msg))) # evs) \<in> {Inl QuorumRejected, Inl AntiQuorum}"
    unfolding verify_batch_def a using assms(2,3,5,6) fits thr
    by (intro quorum_loop_blocked) (auto simp: quorum_start_def add.commute)
  show "verify_batch qw (pre @ (p, Some (Inl (RPCError msg))) # evs) = Inl QuorumRejected" if "\<forall>e\<in>set pre. snd e = Some (Inr ())"
    unfolding verify_batch_def a using assms(2-6) fits thr that available_exact[OF assms(1)]
    by (intro quorum_loop_acked_rejected) (auto simp: quorum_start_def)
qed

lemma verify_batch_complete:
  assumes "waiter_wf qw" "no_rejection evs" "distinct (map fst evs)" "fst ` set evs \<subseteq> set (quorum_peers qw)"
    and "voting_power (qw_authority qw) < quorum_threshold (qw_committee qw)"
    and "quorum_threshold (qw_committee qw) \<le> voting_power (qw_authority qw) + sum_list (map (voting_power_by_key (qw_committee qw)) (acks evs))"
  shows "verify_batch qw evs = Inr ()"
  unfolding verify_batch_def
  using assms quorum_peers_distinct[OF assms(1)] peers_power[OF assms(1)] available_exact[OF assms(1)]
  by (intro quorum_loop_complete) (auto simp: quorum_start_def)

end
