(* ===== verification/Batches.thy ===== *)
theory Batches
  imports Rust_Collections
begin

text \<open>
  Batches of transactions (crates/types/src/worker/sealed_batch.rs) and the validation of a batch that a
  peer reports (crates/execution/batch-validator/src/validator.rs).

  The hash is the argument \<open>hb\<close>. What the code uses of a transaction is the record \<open>tx_lib\<close>: decoding with
  recovery of the signer, the gas limit, the size in memory, the encoding and the hash. The executed chain
  is the record \<open>chain_db\<close>, of whose headers only the timestamp is read.
\<close>

section \<open>Batches\<close>

type_synonym bytes = "nat list"
type_synonym address = nat
type_synonym tx_hash = nat

record batch =
  b_transactions :: "bytes list"
  b_parent_hash :: block_hash
  b_beneficiary :: address
  b_timestamp :: timestamp
  b_base_fee :: "nat option"
  b_received_at :: "timestamp option"

record sealed_batch =
  sb_batch :: batch
  sb_digest :: block_hash

text \<open>The time of receipt is skipped by serialisation: what is hashed, stored and sent is a batch without it.\<close>

definition encoded :: "batch \<Rightarrow> batch" where
  "encoded b = b\<lparr> b_received_at := None \<rparr>"

definition batch_digest :: "(batch \<Rightarrow> block_hash) \<Rightarrow> batch \<Rightarrow> block_hash" where
  "batch_digest hb b = hb (encoded b)"

definition set_received_at :: "timestamp \<Rightarrow> batch \<Rightarrow> batch" where
  "set_received_at t b = b\<lparr> b_received_at := Some t \<rparr>"

definition seal_slow :: "(batch \<Rightarrow> block_hash) \<Rightarrow> batch \<Rightarrow> sealed_batch" where
  "seal_slow hb b = \<lparr> sb_batch = b, sb_digest = batch_digest hb b \<rparr>"

definition batch_split :: "sealed_batch \<Rightarrow> batch \<times> block_hash" where
  "batch_split sb = (sb_batch sb, sb_digest sb)"

text \<open>The size of a batch is the size of the struct, a number \<open>sz\<close> of the platform, and not of its contents.\<close>

definition batch_size :: "nat \<Rightarrow> batch \<Rightarrow> nat" where
  "batch_size sz b = sz"

definition max_batch_gas :: "timestamp \<Rightarrow> nat" where
  "max_batch_gas t = 30000000"

definition max_batch_size :: "timestamp \<Rightarrow> nat" where
  "max_batch_size t = 1000000"

datatype batch_validation_error =
    InvalidDigest
  | TimestampIsInPast timestamp timestamp
  | CanonicalChain block_hash
  | EmptyBatch
  | HeaderMaxGasExceedsGasLimit nat nat
  | CalculateMaxPossibleGas
  | HeaderTransactionBytesExceedsMax nat
  | RecoverTransaction block_hash string

lemma digest_ignores_receipt [simp]: "batch_digest hb (set_received_at t b) = batch_digest hb b"
  by (simp add: batch_digest_def encoded_def set_received_at_def)

lemma digest_encoded [simp]: "batch_digest hb (encoded b) = batch_digest hb b"
  by (simp add: batch_digest_def encoded_def)

lemma split_seal_slow [simp]: "batch_split (seal_slow hb b) = (b, batch_digest hb b)"
  by (simp add: batch_split_def seal_slow_def)

section \<open>Validation\<close>

record 'tx tx_lib =
  tl_recover :: "bytes \<Rightarrow> (string, 'tx) result"
  tl_gas_limit :: "'tx \<Rightarrow> nat"
  tl_size :: "'tx \<Rightarrow> nat"
  tl_encode :: "'tx \<Rightarrow> bytes"
  tl_hash :: "'tx \<Rightarrow> tx_hash"

record exec_header =
  eh_timestamp :: timestamp

definition default_exec_header :: exec_header where
  "default_exec_header = \<lparr> eh_timestamp = 0 \<rparr>"

record chain_db =
  cd_header :: "block_hash \<Rightarrow> (string, exec_header option) result"
  cd_finalized :: "(string, (nat \<times> block_hash) option) result"

fun unwrap_or_default :: "('e, 'a option) result \<Rightarrow> 'a option" where
  "unwrap_or_default (Inl e) = None"
| "unwrap_or_default (Inr x) = x"

definition batch_parent :: "chain_db \<Rightarrow> block_hash \<Rightarrow> exec_header" where
  "batch_parent cd h =
     (case unwrap_or_default (cd_header cd h) of
        Some x \<Rightarrow> x
      | None \<Rightarrow>
        (case unwrap_or_default (cd_finalized cd) of
           Some (_, fh) \<Rightarrow> (case unwrap_or_default (cd_header cd fh) of Some x \<Rightarrow> x | None \<Rightarrow> default_exec_header)
         | None \<Rightarrow> default_exec_header))"

definition reduce_sum :: "nat list \<Rightarrow> nat option" where
  "reduce_sum xs = (case xs of [] \<Rightarrow> None | y # ys \<Rightarrow> Some (foldl u64_add y ys))"

definition validate_against_parent_timestamp ::
  "timestamp \<Rightarrow> exec_header \<Rightarrow> (batch_validation_error, unit) result" where
  "validate_against_parent_timestamp t parent =
     (if t \<le> eh_timestamp parent then Inl (TimestampIsInPast (eh_timestamp parent) t) else Inr ())"

definition validate_batch_size_bytes :: "bytes list \<Rightarrow> timestamp \<Rightarrow> (batch_validation_error, unit) result" where
  "validate_batch_size_bytes txs t =
     (case reduce_sum (map length txs) of
        None \<Rightarrow> Inl EmptyBatch
      | Some n \<Rightarrow>
          if n > max_batch_size t then Inl (HeaderTransactionBytesExceedsMax n) else Inr ())"

definition recover_and_validate ::
  "'tx tx_lib \<Rightarrow> block_hash \<Rightarrow> bytes \<Rightarrow> (batch_validation_error, 'tx) result" where
  "recover_and_validate lib d tx =
     (case tl_recover lib tx of Inl e \<Rightarrow> Inl (RecoverTransaction d e) | Inr x \<Rightarrow> Inr x)"

text \<open>
  From \<open>thr\<close> transactions on, decoding runs in parallel; when several transactions fail, which of the
  errors is returned is open: the argument \<open>pick\<close> chooses among them.
\<close>

definition collect_parallel :: "('e list \<Rightarrow> 'e) \<Rightarrow> ('e, 'a) result list \<Rightarrow> ('e, 'a list) result" where
  "collect_parallel pick rs =
     (if list_all is_ok rs then Inr (map projr rs) else Inl (pick (map projl (filter (\<lambda>r. \<not> is_ok r) rs))))"

definition decode_transactions ::
  "'tx tx_lib \<Rightarrow> nat \<Rightarrow> (batch_validation_error list \<Rightarrow> batch_validation_error) \<Rightarrow> bytes list \<Rightarrow> block_hash
     \<Rightarrow> (batch_validation_error, 'tx list) result" where
  "decode_transactions lib thr pick txs d =
     (if length txs < thr then try_map (recover_and_validate lib d) txs
      else collect_parallel pick (map (recover_and_validate lib d) txs))"

definition validate_batch_gas :: "'tx tx_lib \<Rightarrow> 'tx list \<Rightarrow> timestamp \<Rightarrow> (batch_validation_error, unit) result" where
  "validate_batch_gas lib txs t =
     (case reduce_sum (map (tl_gas_limit lib) txs) of
        None \<Rightarrow> Inl EmptyBatch
      | Some n \<Rightarrow>
          if n > max_batch_gas t then Inl (HeaderMaxGasExceedsGasLimit n (max_batch_gas t)) else Inr ())"

definition validate_basefee :: "(batch_validation_error, unit) result" where
  "validate_basefee = Inr ()"

definition validate_batch ::
  "(batch \<Rightarrow> block_hash) \<Rightarrow> 'tx tx_lib \<Rightarrow> nat \<Rightarrow> (batch_validation_error list \<Rightarrow> batch_validation_error) \<Rightarrow> chain_db
     \<Rightarrow> sealed_batch \<Rightarrow> (batch_validation_error, unit) result" where
  "validate_batch hb lib thr pick cd sb =
     (case batch_split sb of (b, d) \<Rightarrow>
        if d \<noteq> sb_digest (seal_slow hb b) then Inl InvalidDigest else
        case validate_against_parent_timestamp (b_timestamp b) (batch_parent cd (b_parent_hash b)) of Inl e \<Rightarrow> Inl e | Inr _ \<Rightarrow>
        case validate_batch_size_bytes (b_transactions b) (b_timestamp b) of Inl e \<Rightarrow> Inl e | Inr _ \<Rightarrow>
        case decode_transactions lib thr pick (b_transactions b) d of Inl e \<Rightarrow> Inl e | Inr txs \<Rightarrow>
        case validate_batch_gas lib txs (b_timestamp b) of Inl e \<Rightarrow> Inl e | Inr _ \<Rightarrow> validate_basefee)"

subsection \<open>What validation accepts\<close>

lemma reduce_sum_Nil [simp]: "reduce_sum [] = None"
  by (simp add: reduce_sum_def)

lemma reduce_sum_eq_None [simp]: "reduce_sum xs = None \<longleftrightarrow> xs = []"
  by (cases xs) (simp_all add: reduce_sum_def)

lemma reduce_sum_exact:
  assumes "xs \<noteq> []" "sum_list xs < u64_max"
  shows "reduce_sum xs = Some (sum_list xs)"
proof -
  obtain y ys where "xs = y # ys" using assms(1) by (cases xs) auto
  thus ?thesis using assms(2) by (simp add: reduce_sum_def u64_sum_acc)
qed

lemma foldl_u64_mod: "a < u64_max \<Longrightarrow> foldl u64_add a xs = (a + sum_list xs) mod u64_max"
proof (induction xs arbitrary: a)
  case (Cons x xs)
  have "foldl u64_add (u64_add a x) xs = (u64_add a x + sum_list xs) mod u64_max" by (rule Cons.IH) simp
  also have "\<dots> = (a + x + sum_list xs) mod u64_max" by (simp add: u64_add_def mod_add_left_eq)
  finally show ?case by (simp add: add.assoc)
qed simp

lemma reduce_sum_mod:
  assumes "xs \<noteq> []" "\<forall>x\<in>set xs. x < u64_max"
  shows "reduce_sum xs = Some (sum_list xs mod u64_max)"
proof -
  obtain y ys where "xs = y # ys" using assms(1) by (cases xs) auto
  thus ?thesis using assms(2) by (simp add: reduce_sum_def foldl_u64_mod)
qed

lemma collect_parallel_Inr_iff:
  "collect_parallel pick (map f xs) = Inr ys \<longleftrightarrow> list_all2 (\<lambda>x y. f x = Inr y) xs ys"
proof -
  have ok: "is_ok r \<longleftrightarrow> (\<exists>y. r = Inr y)" for r :: "('a, 'b) result" by (cases r) auto
  have "list_all is_ok (map f xs) \<and> map projr (map f xs) = ys \<longleftrightarrow> list_all2 (\<lambda>x y. f x = Inr y) xs ys"
  proof (induction xs arbitrary: ys)
    case (Cons x xs)
    show ?case using Cons.IH[of "tl ys"] by (cases ys) (auto simp: ok)
  qed auto
  thus ?thesis by (auto simp: collect_parallel_def)
qed

lemma decode_transactions_Inr_iff:
  "decode_transactions lib thr pick txs d = Inr xs \<longleftrightarrow> list_all2 (\<lambda>t x. tl_recover lib t = Inr x) txs xs"
proof -
  have r: "recover_and_validate lib d t = Inr x \<longleftrightarrow> tl_recover lib t = Inr x" for t x
    by (simp add: recover_and_validate_def split: sum.splits)
  show ?thesis by (simp add: decode_transactions_def try_map_Inr_iff collect_parallel_Inr_iff r)
qed

lemma validate_batch_Inr_iff:
  "validate_batch hb lib thr pick cd sb = Inr () \<longleftrightarrow>
     sb_digest sb = batch_digest hb (sb_batch sb)
     \<and> eh_timestamp (batch_parent cd (b_parent_hash (sb_batch sb))) < b_timestamp (sb_batch sb)
     \<and> (\<exists>n. reduce_sum (map length (b_transactions (sb_batch sb))) = Some n \<and> n \<le> max_batch_size (b_timestamp (sb_batch sb)))
     \<and> (\<exists>xs gas. list_all2 (\<lambda>t x. tl_recover lib t = Inr x) (b_transactions (sb_batch sb)) xs
          \<and> reduce_sum (map (tl_gas_limit lib) xs) = Some gas \<and> gas \<le> max_batch_gas (b_timestamp (sb_batch sb)))"
  unfolding decode_transactions_Inr_iff[symmetric, of lib _ _ thr pick "batch_digest hb (sb_batch sb)"]
  by (auto simp: validate_batch_def batch_split_def seal_slow_def validate_against_parent_timestamp_def
      validate_batch_size_bytes_def validate_batch_gas_def validate_basefee_def
      not_less not_le split: sum.splits option.splits if_splits)

end
