(* ===== verification/Batch_Builder.thy ===== *)
theory Batch_Builder
  imports Batches
begin

text \<open>
  The task that builds batches (crates/execution/batch-builder/src/batch.rs, lib.rs and error.rs): it
  takes transactions from the pool until the limits of gas and bytes, hands the sealed batch to the worker,
  and removes the transactions from the pool when the worker reached a quorum.

  The transaction pool is library code. Its iterator over the best transactions is the record \<open>best_txs\<close> and
  the pool itself, with the base fee of the protocol, the record \<open>pool_lib\<close>. The loop over the iterator ends when the iterator does, so it is a
  partial function.
\<close>

section \<open>Building a batch\<close>

record ('tx, 'it) best_txs =
  bt_next :: "'it \<Rightarrow> ('tx \<times> 'it) option"
  bt_mark_invalid :: "'tx \<Rightarrow> 'it \<Rightarrow> 'it"

record sealed_block =
  bk_hash :: block_hash
  bk_timestamp :: timestamp

record last_canonical_update =
  lu_tip :: sealed_block
  lu_base_fee :: nat
  lu_blob_fee :: "nat option"

record pending_block_config =
  pb_beneficiary :: address
  pb_parent_info :: last_canonical_update

record build_state =
  bd_bytes :: nat
  bd_gas :: nat
  bd_transactions :: "bytes list"
  bd_mined :: "tx_hash list"

record batch_output =
  bo_batch :: batch
  bo_mined :: "tx_hash list"

definition add_tx :: "'tx tx_lib \<Rightarrow> 'tx \<Rightarrow> build_state \<Rightarrow> build_state" where
  "add_tx lib tx bd = bd\<lparr> bd_bytes := u64_add (bd_bytes bd) (tl_size lib tx), bd_gas := u64_add (bd_gas bd) (tl_gas_limit lib tx),
     bd_transactions := bd_transactions bd @ [tl_encode lib tx], bd_mined := bd_mined bd @ [tl_hash lib tx] \<rparr>"

partial_function (option) build_loop ::
  "'tx tx_lib \<Rightarrow> ('tx, 'it) best_txs \<Rightarrow> nat \<Rightarrow> nat \<Rightarrow> 'it \<Rightarrow> build_state \<Rightarrow> build_state option" where
  "build_loop lib pl gas_limit max_size it bd =
     (case bt_next pl it of
        None \<Rightarrow> Some bd
      | Some (tx, it') \<Rightarrow>
          if u64_add (bd_gas bd) (tl_gas_limit lib tx) > gas_limit
          then build_loop lib pl gas_limit max_size (bt_mark_invalid pl tx it') bd
          else if u64_add (bd_bytes bd) (tl_size lib tx) > max_size
          then build_loop lib pl gas_limit max_size (bt_mark_invalid pl tx it') bd
          else build_loop lib pl gas_limit max_size it' (add_tx lib tx bd))"

declare build_loop.simps [code]

definition build_start :: build_state where
  "build_start = \<lparr> bd_bytes = 0, bd_gas = 0, bd_transactions = [], bd_mined = [] \<rparr>"

definition build_batch ::
  "'tx tx_lib \<Rightarrow> ('tx, 'it) best_txs \<Rightarrow> timestamp \<Rightarrow> 'it \<Rightarrow> pending_block_config \<Rightarrow> batch_output option" where
  "build_batch lib pl now it cfg =
     (let tip = lu_tip (pb_parent_info cfg);
          t = (if now = bk_timestamp tip then u64_add (bk_timestamp tip) 1 else now)
      in case build_loop lib pl (max_batch_gas (bk_timestamp tip)) (max_batch_size (bk_timestamp tip)) it build_start of
           None \<Rightarrow> None
         | Some bd \<Rightarrow> Some \<lparr> bo_batch = \<lparr> b_transactions = bd_transactions bd, b_parent_hash = bk_hash tip,
               b_beneficiary = pb_beneficiary cfg, b_timestamp = t, b_base_fee = Some (lu_base_fee (pb_parent_info cfg)),
               b_received_at = None \<rparr>, bo_mined = bd_mined bd \<rparr>)"

subsection \<open>The limits are kept\<close>

text \<open>The pool offers finitely many transactions: a measure that every one taken lowers.\<close>

definition pool_ends :: "('tx, 'it) best_txs \<Rightarrow> ('it \<Rightarrow> nat) \<Rightarrow> bool" where
  "pool_ends pl m \<longleftrightarrow> (\<forall>it tx it'. bt_next pl it = Some (tx, it') \<longrightarrow> m it' < m it \<and> m (bt_mark_invalid pl tx it') < m it)"

inductive offered :: "('tx, 'it) best_txs \<Rightarrow> 'it \<Rightarrow> 'tx \<Rightarrow> bool" for pl where
  now_next: "bt_next pl it = Some (tx, it') \<Longrightarrow> offered pl it tx"
| after_take: "bt_next pl it = Some (x, it') \<Longrightarrow> offered pl it' tx \<Longrightarrow> offered pl it tx"
| after_mark: "bt_next pl it = Some (x, it') \<Longrightarrow> offered pl (bt_mark_invalid pl x it') tx \<Longrightarrow> offered pl it tx"

text \<open>The transactions taken so far are those of a list of offered ones, and the totals are theirs.\<close>

definition built_from :: "'tx tx_lib \<Rightarrow> 'tx list \<Rightarrow> build_state \<Rightarrow> bool" where
  "built_from lib xs bd \<longleftrightarrow> bd_transactions bd = map (tl_encode lib) xs \<and> bd_mined bd = map (tl_hash lib) xs
     \<and> bd_gas bd = sum_list (map (tl_gas_limit lib) xs) \<and> bd_bytes bd = sum_list (map (tl_size lib) xs)"

definition fits :: "'tx tx_lib \<Rightarrow> 'tx \<Rightarrow> bool" where
  "fits lib tx \<longleftrightarrow> tl_gas_limit lib tx + 30000000 < u64_max \<and> tl_size lib tx + 1000000 < u64_max"

lemma built_from_start: "built_from lib [] build_start"
  by (simp add: built_from_def build_start_def)

lemma built_from_add:
  assumes "built_from lib xs bd" "bd_gas bd + tl_gas_limit lib tx < u64_max" "bd_bytes bd + tl_size lib tx < u64_max"
  shows "built_from lib (xs @ [tx]) (add_tx lib tx bd)"
  using assms by (simp add: built_from_def add_tx_def u64_simps)

lemma build_loop_returns:
  assumes "pool_ends pl m"
  shows "\<exists>bd'. build_loop lib pl g b it bd = Some bd'"
proof (induction "m it" arbitrary: it bd rule: less_induct)
  case less
  show ?case
  proof (cases "bt_next pl it")
    case None
    thus ?thesis by (simp add: build_loop.simps[of lib pl g b it])
  next
    case (Some p)
    obtain tx it' where p: "p = (tx, it')" by (cases p)
    have "m it' < m it" "m (bt_mark_invalid pl tx it') < m it" using assms Some p by (auto simp: pool_ends_def)
    thus ?thesis using less[of it'] less[of "bt_mark_invalid pl tx it'"] Some p
      by (simp add: build_loop.simps[of lib pl g b it])
  qed
qed

lemma build_loop_within:
  assumes "pool_ends pl m" "build_loop lib pl 30000000 1000000 it bd = Some bd'" "built_from lib xs bd"
    and "\<And>tx. offered pl it tx \<Longrightarrow> fits lib tx" "bd_gas bd \<le> 30000000" "bd_bytes bd \<le> 1000000"
  shows "\<exists>ys. built_from lib (xs @ ys) bd' \<and> bd_gas bd' \<le> 30000000 \<and> bd_bytes bd' \<le> 1000000 \<and> (\<forall>y\<in>set ys. offered pl it y)"
  using assms(2-)
proof (induction "m it" arbitrary: it bd xs rule: less_induct)
  case less
  note step = less.prems(1)[unfolded build_loop.simps[of lib pl _ _ it]]
  show ?case
  proof (cases "bt_next pl it")
    case None
    thus ?thesis using step less.prems by (intro exI[of _ "[]"]) simp
  next
    case (Some p)
    obtain tx it' where p: "bt_next pl it = Some (tx, it')" using Some by (cases p) simp
    have m: "m it' < m it" "m (bt_mark_invalid pl tx it') < m it" using assms(1) p by (auto simp: pool_ends_def)
    have off: "offered pl it' y \<Longrightarrow> offered pl it y" "offered pl (bt_mark_invalid pl tx it') y \<Longrightarrow> offered pl it y" for y
      using p by (auto intro: offered.intros)
    have ft: "fits lib tx" using less.prems(3)[OF now_next[OF p]] .
    show ?thesis
    proof (cases "u64_add (bd_gas bd) (tl_gas_limit lib tx) > 30000000 \<or> u64_add (bd_bytes bd) (tl_size lib tx) > 1000000")
      case True
      hence "build_loop lib pl 30000000 1000000 (bt_mark_invalid pl tx it') bd = Some bd'" using step p by (auto split: if_splits)
      thus ?thesis using less.hyps[OF m(2) _ less.prems(2)] less.prems(3-5) off(2) by blast
    next
      case False
      hence l: "build_loop lib pl 30000000 1000000 it' (add_tx lib tx bd) = Some bd'" using step p by (auto split: if_splits)
      have no_wrap: "bd_gas bd + tl_gas_limit lib tx < u64_max" "bd_bytes bd + tl_size lib tx < u64_max"
        using ft less.prems(4,5) by (auto simp: fits_def)
      have "bd_gas (add_tx lib tx bd) \<le> 30000000" "bd_bytes (add_tx lib tx bd) \<le> 1000000"
        using False by (simp_all add: add_tx_def)
      from less.hyps[OF m(1) l built_from_add[OF less.prems(2) no_wrap] _ this] less.prems(3) off(1)
      obtain ys where ys: "built_from lib ((xs @ [tx]) @ ys) bd'" "bd_gas bd' \<le> 30000000" "bd_bytes bd' \<le> 1000000"
        "\<forall>y\<in>set ys. offered pl it' y" by blast
      show ?thesis using ys off(1) now_next[OF p] by (intro exI[of _ "tx # ys"]) auto
    qed
  qed
qed

lemma build_batch_within:
  assumes "pool_ends pl m" "\<And>tx. offered pl it tx \<Longrightarrow> fits lib tx"
  obtains out xs where "build_batch lib pl now it cfg = Some out"
    "b_transactions (bo_batch out) = map (tl_encode lib) xs" "bo_mined out = map (tl_hash lib) xs"
    "sum_list (map (tl_gas_limit lib) xs) \<le> 30000000" "sum_list (map (tl_size lib) xs) \<le> 1000000"
    "\<forall>x\<in>set xs. offered pl it x"
    "b_timestamp (bo_batch out) = (if now = bk_timestamp (lu_tip (pb_parent_info cfg)) then u64_add now 1 else now)"
    "b_parent_hash (bo_batch out) = bk_hash (lu_tip (pb_parent_info cfg))"
proof -
  obtain bd where bd: "build_loop lib pl 30000000 1000000 it build_start = Some bd"
    using build_loop_returns[OF assms(1)] by blast
  have "\<exists>ys. built_from lib ([] @ ys) bd \<and> bd_gas bd \<le> 30000000 \<and> bd_bytes bd \<le> 1000000 \<and> (\<forall>y\<in>set ys. offered pl it y)"
    by (rule build_loop_within[OF assms(1) bd built_from_start assms(2)]) (simp_all add: build_start_def)
  then obtain xs where "built_from lib xs bd" "bd_gas bd \<le> 30000000" "bd_bytes bd \<le> 1000000" "\<forall>y\<in>set xs. offered pl it y"
    by auto
  thus thesis using bd by (intro that[of _ xs]) (auto simp: build_batch_def Let_def max_batch_gas_def max_batch_size_def built_from_def)
qed

section \<open>The builder task\<close>

datatype batch_builder_error =
    BReth string
  | BProvider string
  | NextBatchDigestMissing
  | SealBlockWithSenders
  | BCanonical string
  | AckChannelClosed
  | WorkerChannelClosed
  | BFatalDBFailure
  | MaxBatchSize nat nat

datatype block_seal_error = SealQuorumRejected | SealAntiQuorum | SealTimeout | SealFailedQuorum | SealFatalDBFailure

text \<open>Accounts that changed in the last round, with nonce and balance.\<close>

type_synonym changed_account = "address \<times> nat \<times> nat"

record canonical_state_update =
  cu_new_tip :: sealed_block
  cu_base_fee :: nat
  cu_blob_fee :: "nat option"
  cu_changed_accounts :: "changed_account list"
  cu_mined :: "tx_hash list"

record ('pool, 'it) pool_lib =
  pl_best :: "'pool \<Rightarrow> 'it"
  pl_no_pending :: "'pool \<Rightarrow> bool"
  pl_update :: "canonical_state_update \<Rightarrow> 'pool \<Rightarrow> 'pool"
  pl_min_base_fee :: nat

text \<open>A committed chain segment as the engine announces it: its tip, its accounts and its transactions.\<close>

record chain_segment =
  cs_tip :: sealed_block
  cs_accounts :: "(address \<times> (nat \<times> nat) option) list"
  cs_tx_hashes :: "tx_hash list"

text \<open>The task that builds one batch: spawned, waiting for the worker with the batch it sent, or finished.\<close>

datatype build_task =
    Spawned pending_block_config
  | Sent sealed_batch "tx_hash list"
  | Finished "(batch_builder_error, tx_hash list) result"

record 'pool batch_builder =
  bb_pending :: "build_task option"
  bb_pool :: 'pool
  bb_latest :: last_canonical_update
  bb_worker_open :: bool
  bb_address :: address

definition process_canon_state_update :: "('pool, 'it) pool_lib \<Rightarrow> chain_segment \<Rightarrow> 'pool batch_builder \<Rightarrow> 'pool batch_builder" where
  "process_canon_state_update pool u bb =
     (let changed = List.map_filter (\<lambda>(a, acc). map_option (\<lambda>(n, b). (a, n, b)) acc) (cs_accounts u);
          upd = \<lparr> cu_new_tip = cs_tip u, cu_base_fee = pl_min_base_fee pool, cu_blob_fee = None,
                  cu_changed_accounts = changed, cu_mined = cs_tx_hashes u \<rparr>;
          latest = \<lparr> lu_tip = cs_tip u, lu_base_fee = pl_min_base_fee pool, lu_blob_fee = None \<rparr>
      in bb\<lparr> bb_latest := latest, bb_pool := pl_update pool upd (bb_pool bb) \<rparr>)"

definition spawn_execution_task :: "'pool batch_builder \<Rightarrow> build_task" where
  "spawn_execution_task bb = Spawned \<lparr> pb_beneficiary = bb_address bb, pb_parent_info = bb_latest bb \<rparr>"

text \<open>The spawned task builds and seals the batch and sends it to the worker.\<close>

definition run_build ::
  "(batch \<Rightarrow> block_hash) \<Rightarrow> 'tx tx_lib \<Rightarrow> ('tx, 'it) best_txs \<Rightarrow> ('pool, 'it) pool_lib \<Rightarrow> timestamp \<Rightarrow> pending_block_config
     \<Rightarrow> 'pool batch_builder \<Rightarrow> build_task option" where
  "run_build hb lib pl pool now cfg bb =
     (case build_batch lib pl now (pl_best pool (bb_pool bb)) cfg of
        None \<Rightarrow> None
      | Some out \<Rightarrow>
          Some (if bb_worker_open bb then Sent (seal_slow hb (bo_batch out)) (bo_mined out)
                else Finished (Inl WorkerChannelClosed)))"

text \<open>The answer of the worker; \<^const>\<open>None\<close> is a reply channel that was dropped.\<close>

fun ack_result :: "tx_hash list \<Rightarrow> (block_seal_error, unit) result option \<Rightarrow> (batch_builder_error, tx_hash list) result" where
  "ack_result mined None = Inl AckChannelClosed"
| "ack_result mined (Some (Inr _)) = Inr mined"
| "ack_result mined (Some (Inl SealFatalDBFailure)) = Inl BFatalDBFailure"
| "ack_result mined (Some (Inl SealQuorumRejected)) = Inr []"
| "ack_result mined (Some (Inl SealAntiQuorum)) = Inr []"
| "ack_result mined (Some (Inl SealTimeout)) = Inr []"
| "ack_result mined (Some (Inl SealFailedQuorum)) = Inr []"

text \<open>One iteration of the loop of \<open>poll\<close>: whether it goes around again, waits, or ends with an error.\<close>

datatype poll_flow = Again | PollPending | PollError batch_builder_error

definition mined_update :: "last_canonical_update \<Rightarrow> tx_hash list \<Rightarrow> canonical_state_update" where
  "mined_update lu mined = \<lparr> cu_new_tip = lu_tip lu, cu_base_fee = lu_base_fee lu, cu_blob_fee = lu_blob_fee lu,
     cu_changed_accounts = [], cu_mined = mined \<rparr>"

definition poll_iteration ::
  "('pool, 'it) pool_lib \<Rightarrow> chain_segment list \<Rightarrow> 'pool batch_builder \<Rightarrow> 'pool batch_builder \<times> poll_flow" where
  "poll_iteration pool updates bb =
     (let bb1 = fold (process_canon_state_update pool) updates bb
      in if bb_pending bb1 = None \<and> pl_no_pending pool (bb_pool bb1) then (bb1, PollPending)
         else
           (let task = (case bb_pending bb1 of None \<Rightarrow> spawn_execution_task bb1 | Some t \<Rightarrow> t)
            in case task of
                 Finished (Inl e) \<Rightarrow> (bb1\<lparr> bb_pending := None \<rparr>, PollError e)
               | Finished (Inr mined) \<Rightarrow>
                   if mined = [] then (bb1\<lparr> bb_pending := None \<rparr>, PollPending)
                   else (bb1\<lparr> bb_pending := None, bb_pool := pl_update pool (mined_update (bb_latest bb1) mined) (bb_pool bb1) \<rparr>, Again)
               | _ \<Rightarrow> (bb1\<lparr> bb_pending := Some task \<rparr>, PollPending)))"

end
