(* ===== verification/Worker.thy ===== *)
theory Worker
  imports Quorum_Waiter Batch_Builder Header_Validator
begin

text \<open>
  A worker (crates/consensus/worker/src): sealing a batch that reached a quorum (worker.rs), the requests of
  other workers (network/handler.rs and mod.rs), and fetching batches that are missing (network/mod.rs and
  batch_fetcher.rs).

  The table of batches stores what serialisation keeps of a batch. A database that no longer answers is
  \<open>wk_db_ok = False\<close>. The payload table of the primary, which the worker fills through the local network, is
  \<open>wk_payload\<close>; while the primary has not set its handler, reports to it are dropped without an error.
\<close>

section \<open>State\<close>

record own_batch_message =
  om_worker_id :: worker_id
  om_digest :: block_hash
  om_timestamp :: timestamp

record worker =
  wk_id :: worker_id
  wk_store :: "(block_hash, batch) btree_map"
  wk_db_ok :: bool
  wk_published :: "block_hash list"
  wk_reported :: "own_batch_message list"
  wk_payload :: payload_store
  wk_primary_set :: bool
  wk_network_set :: bool

datatype worker_network_error =
    WDecode string
  | WBatchValidation batch_validation_error
  | WInternal string
  | WTimeout
  | WNetworkError p2p_error

datatype worker_response = ReportBatchAck | RequestedBatches "batch list" | WorkerRPCError string

definition store_batch :: "block_hash \<Rightarrow> batch \<Rightarrow> worker \<Rightarrow> (string, worker) result" where
  "store_batch d b w =
     (if wk_db_ok w then Inr (w\<lparr> wk_store := bt_insert d (encoded b) (wk_store w) \<rparr>) else Inl ''database'')"

definition get_batch :: "worker \<Rightarrow> block_hash \<Rightarrow> (string, batch option) result" where
  "get_batch w d = (if wk_db_ok w then Inr (map_of (wk_store w) d) else Inl ''database'')"

definition multi_get_batches :: "worker \<Rightarrow> block_hash list \<Rightarrow> (string, batch option list) result" where
  "multi_get_batches w ds = (if wk_db_ok w then Inr (map (map_of (wk_store w)) ds) else Inl ''database'')"

section \<open>Own batches\<close>

definition report_own_batch :: "own_batch_message \<Rightarrow> worker \<Rightarrow> worker" where
  "report_own_batch m w = (if wk_primary_set w then w\<lparr> wk_reported := wk_reported w @ [m] \<rparr> else w)"

fun seal_error :: "quorum_waiter_error \<Rightarrow> block_seal_error" where
  "seal_error QuorumRejected = SealQuorumRejected"
| "seal_error AntiQuorum = SealAntiQuorum"
| "seal_error QuorumTimeout = SealTimeout"
| "seal_error QuorumNetwork = SealFailedQuorum"
| "seal_error (QuorumRpc s) = SealFailedQuorum"

text \<open>The argument \<open>attest\<close> is what the quorum waiter returned, or \<^const>\<open>None\<close> when its task failed.\<close>

definition worker_seal ::
  "sealed_batch \<Rightarrow> (quorum_waiter_error, unit) result option \<Rightarrow> worker \<Rightarrow> worker \<times> (block_seal_error, unit) result" where
  "worker_seal sb attest w =
     (case attest of
        None \<Rightarrow> (w, Inl SealFailedQuorum)
      | Some (Inl e) \<Rightarrow> (w, Inl (seal_error e))
      | Some (Inr _) \<Rightarrow>
          (let w1 = w\<lparr> wk_published := wk_published w @ [sb_digest sb] \<rparr>;
               (b, d) = batch_split sb
           in case store_batch d b w1 of
                Inl e \<Rightarrow> (w1, Inl SealFatalDBFailure)
              | Inr w2 \<Rightarrow> (report_own_batch \<lparr> om_worker_id = wk_id w2, om_digest = d, om_timestamp = b_timestamp b \<rparr> w2, Inr ())))"

section \<open>Requests of other workers\<close>

definition report_others_batch :: "block_hash \<Rightarrow> worker \<Rightarrow> worker" where
  "report_others_batch d w =
     (if wk_primary_set w then w\<lparr> wk_payload := write_payload (wk_id w) d (wk_payload w) \<rparr> else w)"

definition process_report_batch ::
  "(sealed_batch \<Rightarrow> (batch_validation_error, unit) result) \<Rightarrow> timestamp \<Rightarrow> sealed_batch \<Rightarrow> worker
     \<Rightarrow> worker \<times> (worker_network_error, unit) result" where
  "process_report_batch vb now sb w =
     (case vb sb of
        Inl e \<Rightarrow> (w, Inl (WBatchValidation e))
      | Inr _ \<Rightarrow>
          (let (b, d) = batch_split sb
           in case store_batch d (set_received_at now b) w of
                Inl e \<Rightarrow> (w, Inl (WInternal e))
              | Inr w1 \<Rightarrow> (report_others_batch d w1, Inr ())))"

definition max_request_batches_response_size :: nat where
  "max_request_batches_response_size = 6000000"

definition batch_digests_read_chunk_size :: nat where
  "batch_digests_read_chunk_size = 200"

text \<open>Reaching the size limit leaves the loop over one chunk only.\<close>

fun add_stored :: "nat \<Rightarrow> batch list \<Rightarrow> nat \<times> batch list \<Rightarrow> nat \<times> batch list" where
  "add_stored sz [] acc = acc"
| "add_stored sz (b # bs) (n, out) =
     (if u64_add n (batch_size sz b) \<le> max_request_batches_response_size
      then add_stored sz bs (u64_add n (batch_size sz b), out @ [b]) else (n, out))"

definition process_request_batches :: "nat \<Rightarrow> block_hash list \<Rightarrow> worker \<Rightarrow> (worker_network_error, batch list) result" where
  "process_request_batches sz ds w =
     (case try_fold (\<lambda>chunk acc. case multi_get_batches w chunk of
                Inl e \<Rightarrow> Inl (WInternal e)
              | Inr found \<Rightarrow> Inr (add_stored sz (List.map_filter id found) acc))
             (chunks batch_digests_read_chunk_size ds) (0, []) of
        Inl e \<Rightarrow> Inl e
      | Inr (n, out) \<Rightarrow> Inr out)"

text \<open>The responses that the network task sends for these two requests; \<open>sh\<close> prints an error.\<close>

definition report_response :: "(worker_network_error \<Rightarrow> string) \<Rightarrow> (worker_network_error, unit) result \<Rightarrow> worker_response" where
  "report_response sh r = (case r of Inr _ \<Rightarrow> ReportBatchAck | Inl e \<Rightarrow> WorkerRPCError (sh e))"

definition request_response :: "(worker_network_error \<Rightarrow> string) \<Rightarrow> (worker_network_error, batch list) result \<Rightarrow> worker_response" where
  "request_response sh r = (case r of Inr bs \<Rightarrow> RequestedBatches bs | Inl e \<Rightarrow> WorkerRPCError (sh e))"

section \<open>Requests to other workers\<close>

text \<open>The outcome of sending a request is an argument.\<close>

definition report_batch :: "(p2p_error, worker_response) result \<Rightarrow> (p2p_error, unit) result" where
  "report_batch res =
     (case res of
        Inl e \<Rightarrow> Inl e
      | Inr ReportBatchAck \<Rightarrow> Inr ()
      | Inr (RequestedBatches _) \<Rightarrow> Inl (RPCError ''Got wrong response, not a report batch is request batches!'')
      | Inr (WorkerRPCError e) \<Rightarrow> Inl (RPCError e))"

definition request_batches_from_peer ::
  "(batch \<Rightarrow> block_hash) \<Rightarrow> block_hash list \<Rightarrow> (p2p_error, worker_response) result
     \<Rightarrow> (p2p_error, batch list) result" where
  "request_batches_from_peer hb ds res =
     (case res of
        Inl e \<Rightarrow> Inl e
      | Inr ReportBatchAck \<Rightarrow> Inl (RPCError ''Got wrong response, not a request batches is report batch!'')
      | Inr (RequestedBatches bs) \<Rightarrow>
          if list_all (\<lambda>b. batch_digest hb b \<in> set ds) bs then Inr bs
          else Inl (ProtocolError ''batch is not part of the requested digests'')
      | Inr (WorkerRPCError e) \<Rightarrow> Inl (RPCError e))"

definition batch_of_batches :: "nat \<Rightarrow> block_hash list \<Rightarrow> block_hash list list" where
  "batch_of_batches n ds = map (\<lambda>i. map snd (filter (\<lambda>e. fst e mod n = i) (zip [0..<length ds] ds))) [0..<n]"

definition absorb_batch ::
  "(batch \<Rightarrow> block_hash) \<Rightarrow> block_hash list \<Rightarrow> batch \<Rightarrow> block_hash list \<times> batch list \<Rightarrow> block_hash list \<times> batch list" where
  "absorb_batch hb requested b acc =
     (case acc of (remaining, out) \<Rightarrow>
        if batch_digest hb b \<in> set requested \<and> b \<notin> set out
        then (filter (\<lambda>d. d \<noteq> batch_digest hb b) remaining, out @ [b]) else acc)"

text \<open>The replies of one round in the order they arrive; nothing more is awaited once no digest remains.\<close>

fun absorb_replies ::
  "(batch \<Rightarrow> block_hash) \<Rightarrow> block_hash list \<Rightarrow> (p2p_error, batch list) result list \<Rightarrow> block_hash list \<times> batch list
     \<Rightarrow> bool \<times> block_hash list \<times> batch list" where
  "absorb_replies hb requested [] acc = (False, acc)"
| "absorb_replies hb requested (Inl e # rs) acc = absorb_replies hb requested rs acc"
| "absorb_replies hb requested (Inr bs # rs) acc =
     (let acc' = fold (absorb_batch hb requested) bs acc
      in if fst acc' = [] then (True, acc') else absorb_replies hb requested rs acc')"

text \<open>
  In round \<open>k\<close> the peer \<open>p\<close> answers the request for \<open>ds\<close> with \<open>ask k p ds\<close>, and the answers arrive in the
  order that \<open>arrive k\<close> gives them.
\<close>

definition round_replies ::
  "(batch \<Rightarrow> block_hash) \<Rightarrow> (nat \<Rightarrow> nat \<Rightarrow> block_hash list \<Rightarrow> (p2p_error, worker_response) result)
     \<Rightarrow> nat \<Rightarrow> nat list \<Rightarrow> block_hash list \<Rightarrow> (p2p_error, batch list) result list" where
  "round_replies hb ask k peers remaining =
     map (\<lambda>(p, ds). request_batches_from_peer hb ds (ask k p ds))
       (filter (\<lambda>e. snd e \<noteq> []) (zip peers (batch_of_batches (length peers) remaining)))"

fun request_rounds ::
  "(batch \<Rightarrow> block_hash) \<Rightarrow> (nat \<Rightarrow> nat \<Rightarrow> block_hash list \<Rightarrow> (p2p_error, worker_response) result)
     \<Rightarrow> (nat \<Rightarrow> (p2p_error, batch list) result list \<Rightarrow> (p2p_error, batch list) result list)
     \<Rightarrow> block_hash list \<Rightarrow> nat list \<Rightarrow> nat list \<Rightarrow> block_hash list \<times> batch list \<Rightarrow> batch list" where
  "request_rounds hb ask arrive requested [] peers acc = snd acc"
| "request_rounds hb ask arrive requested (k # ks) peers acc =
     (let peers' = rotate1 peers
      in case absorb_replies hb requested (arrive k (round_replies hb ask k peers' (fst acc))) acc of
           (True, acc') \<Rightarrow> snd acc'
         | (False, acc') \<Rightarrow> request_rounds hb ask arrive requested ks peers' acc')"

definition request_batches ::
  "(batch \<Rightarrow> block_hash) \<Rightarrow> (nat \<Rightarrow> nat \<Rightarrow> block_hash list \<Rightarrow> (p2p_error, worker_response) result)
     \<Rightarrow> (nat \<Rightarrow> (p2p_error, batch list) result list \<Rightarrow> (p2p_error, batch list) result list)
     \<Rightarrow> (p2p_error, nat list) result \<Rightarrow> block_hash list \<Rightarrow> (p2p_error, batch list) result" where
  "request_batches hb ask arrive connected requested =
     (case connected of
        Inl e \<Rightarrow> Inl e
      | Inr peers \<Rightarrow>
          if requested = [] \<or> peers = [] then Inr []
          else
            (let out = request_rounds hb ask arrive requested [0..<length peers] peers (requested, [])
             in if out = [] then Inl (RPCError ''Unable to get batches from any peers!'') else Inr out))"

section \<open>Gossip, synchronisation and fetching\<close>

text \<open>The argument \<open>reply\<close> is what \<^const>\<open>request_batches\<close> returned for the digest.\<close>

definition worker_gossip ::
  "(batch \<Rightarrow> block_hash) \<Rightarrow> (string, block_hash) result \<Rightarrow> (p2p_error, batch list) result \<Rightarrow> worker
     \<Rightarrow> worker \<times> (worker_network_error, unit) result" where
  "worker_gossip hb msg reply w =
     (case msg of
        Inl e \<Rightarrow> (w, Inl (WDecode e))
      | Inr d \<Rightarrow>
          (case get_batch w d of
             Inr (Some _) \<Rightarrow> (w, Inr ())
           | _ \<Rightarrow>
               (case reply of
                  Inl e \<Rightarrow> (w, Inr ())
                | Inr [] \<Rightarrow> (w, Inr ())
                | Inr (b # _) \<Rightarrow>
                    (case store_batch (batch_digest hb b) b w of
                       Inl e \<Rightarrow> (w, Inl (WInternal e)) | Inr w1 \<Rightarrow> (w1, Inr ())))))"

datatype synchronize_error =
    SyncUnsupported
  | SyncRead string
  | SyncRequest p2p_error
  | SyncInvalid batch_validation_error
  | SyncWrite string
  | SyncNotRequested block_hash
  | SyncIncomplete

fun store_received ::
  "(batch \<Rightarrow> block_hash) \<Rightarrow> (sealed_batch \<Rightarrow> (batch_validation_error, unit) result) \<Rightarrow> bool \<Rightarrow> timestamp \<Rightarrow> batch list
     \<Rightarrow> block_hash list \<Rightarrow> worker \<Rightarrow> worker \<times> (synchronize_error, block_hash list) result" where
  "store_received hb vb certified now [] missing w = (w, Inr missing)"
| "store_received hb vb certified now (b # bs) missing w =
     (case (if certified then Inr () else vb (seal_slow hb b)) of
        Inl e \<Rightarrow> (w, Inl (SyncInvalid e))
      | Inr _ \<Rightarrow>
          (let d = batch_digest hb b
           in if d \<in> set missing then
                (case store_batch d (set_received_at now b) w of
                   Inl e \<Rightarrow> (w, Inl (SyncWrite e))
                 | Inr w1 \<Rightarrow> store_received hb vb certified now bs (removeAll d missing) w1)
              else (w, Inl (SyncNotRequested d))))"

definition synchronize ::
  "(batch \<Rightarrow> block_hash) \<Rightarrow> (sealed_batch \<Rightarrow> (batch_validation_error, unit) result) \<Rightarrow> bool \<Rightarrow> timestamp
     \<Rightarrow> block_hash list \<Rightarrow> (block_hash list \<Rightarrow> (p2p_error, batch list) result) \<Rightarrow> worker \<Rightarrow> worker \<times> (synchronize_error, unit) result" where
  "synchronize hb vb certified now ds request w =
     (if \<not> wk_network_set w then (w, Inl SyncUnsupported)
      else case try_map (get_batch w) ds of
        Inl e \<Rightarrow> (w, Inl (SyncRead e))
      | Inr found \<Rightarrow>
          (let missing = remdups (map fst (filter (\<lambda>e. snd e = None) (zip ds found)))
           in if missing = [] then (w, Inr ())
              else case request missing of
                Inl e \<Rightarrow> (w, Inl (SyncRequest e))
              | Inr bs \<Rightarrow>
                  (case store_received hb vb certified now bs missing w of
                     (w1, Inl e) \<Rightarrow> (w1, Inl e)
                   | (w1, Inr rest) \<Rightarrow> (w1, if rest = [] then Inr () else Inl SyncIncomplete))))"

definition fetch_local :: "worker \<Rightarrow> block_hash list \<Rightarrow> (block_hash, batch) hash_map" where
  "fetch_local w ds =
     (case multi_get_batches w ds of
        Inl e \<Rightarrow> []
      | Inr found \<Rightarrow> fold (\<lambda>(d, ob) m. case ob of Some b \<Rightarrow> AList.update d b m | None \<Rightarrow> m) (zip ds found) [])"

definition safe_request_batches ::
  "(batch \<Rightarrow> block_hash) \<Rightarrow> (p2p_error, batch list) result \<Rightarrow> (p2p_error, (block_hash, batch) hash_map) result" where
  "safe_request_batches hb res =
     (case res of Inl e \<Rightarrow> Inl e | Inr bs \<Rightarrow> Inr (fold (\<lambda>b m. AList.update (batch_digest hb b) b m) bs []))"

text \<open>The batches of one answer that were asked for: they are stamped, stored and handed out.\<close>

fun keep_fetched ::
  "timestamp \<Rightarrow> (block_hash \<times> batch) list \<Rightarrow> block_hash list \<Rightarrow> (block_hash, batch) hash_map \<Rightarrow> worker
     \<Rightarrow> (string, block_hash list \<times> (block_hash, batch) hash_map \<times> worker) result" where
  "keep_fetched now [] remaining fetched w = Inr (remaining, fetched, w)"
| "keep_fetched now ((d, b) # es) remaining fetched w =
     (if d \<in> set remaining then
        (case store_batch d (set_received_at now b) w of
           Inl e \<Rightarrow> Inl e
         | Inr w1 \<Rightarrow> keep_fetched now es (removeAll d remaining) (AList.update d (set_received_at now b) fetched) w1)
      else keep_fetched now es remaining fetched w)"

datatype fetch_outcome = Fetched "(block_hash, batch) hash_map" worker | FetchWaits worker | FetchPanics

text \<open>
  Fetching repeats until every batch is there; the argument lists the time and the answer of every attempt.
\<close>

fun fetch ::
  "(batch \<Rightarrow> block_hash) \<Rightarrow> (timestamp \<times> (p2p_error, batch list) result) list \<Rightarrow> block_hash list
     \<Rightarrow> (block_hash, batch) hash_map \<Rightarrow> worker \<Rightarrow> fetch_outcome" where
  "fetch hb attempts remaining fetched w =
     (if remaining = [] then Fetched fetched w
      else
        (let fetched1 = fold (\<lambda>(d, b). AList.update d b) (fetch_local w remaining) fetched;
             remaining1 = filter (\<lambda>d. map_of fetched1 d = None) remaining
         in if remaining1 = [] then Fetched fetched1 w
            else case attempts of
              [] \<Rightarrow> FetchWaits w
            | (now, res) # later \<Rightarrow>
                (case safe_request_batches hb res of
                   Inl e \<Rightarrow> fetch hb later remaining1 fetched1 w
                 | Inr new \<Rightarrow>
                     (case keep_fetched now new remaining1 fetched1 w of
                        Inl e \<Rightarrow> FetchPanics
                      | Inr (remaining2, fetched2, w2) \<Rightarrow>
                          if remaining2 = [] then Fetched fetched2 w2 else fetch hb later remaining2 fetched2 w2))))"

declare fetch.simps [simp del]

section \<open>The table of batches\<close>

text \<open>Every batch is stored under its digest, without a time of receipt.\<close>

definition batches_typed :: "(batch \<Rightarrow> block_hash) \<Rightarrow> worker \<Rightarrow> bool" where
  "batches_typed hb w \<longleftrightarrow> bt_sorted (wk_store w)
     \<and> (\<forall>d b. map_of (wk_store w) d = Some b \<longrightarrow> batch_digest hb b = d \<and> encoded b = b)"

abbreviation holds :: "worker \<Rightarrow> block_hash \<Rightarrow> bool" where
  "holds w d \<equiv> map_of (wk_store w) d \<noteq> None"

lemma encoded_encoded [simp]: "encoded (encoded b) = encoded b" "encoded (set_received_at t b) = encoded b"
  by (simp_all add: encoded_def set_received_at_def)

lemma store_batch_fields:
  assumes "store_batch d b w = Inr w'"
  shows "w' = w\<lparr> wk_store := bt_insert d (encoded b) (wk_store w) \<rparr>" "wk_db_ok w"
  using assms by (auto simp: store_batch_def split: if_splits)

lemma store_batch_typed:
  assumes "store_batch d b w = Inr w'" "batches_typed hb w" "batch_digest hb b = d"
  shows "batches_typed hb w'"
  using assms by (auto simp: store_batch_fields(1)[OF assms(1)] batches_typed_def map_simps bt_sorted_insert)

lemma store_batch_holds: "store_batch d b w = Inr w' \<Longrightarrow> holds w' x \<longleftrightarrow> x = d \<or> holds w x"
  by (auto dest!: store_batch_fields(1) simp: map_simps)

lemma report_keeps_store [simp]:
  "wk_store (report_own_batch m w) = wk_store w" "wk_store (report_others_batch d w) = wk_store w"
  by (simp_all add: report_own_batch_def report_others_batch_def)

lemma batches_typed_cong: "wk_store w' = wk_store w \<Longrightarrow> batches_typed hb w' = batches_typed hb w"
  by (simp add: batches_typed_def)

lemma seal_typed:
  assumes "worker_seal (seal_slow hb b) attest w = (w', r)" "batches_typed hb w"
  shows "batches_typed hb w'"
proof -
  let ?w1 = "w\<lparr> wk_published := wk_published w @ [batch_digest hb b] \<rparr>"
  have t: "batches_typed hb ?w1" using assms(2) by (simp add: batches_typed_def)
  consider "wk_store w' = wk_store w"
    | w2 where "store_batch (batch_digest hb b) b ?w1 = Inr w2" "wk_store w' = wk_store w2"
    using assms(1)
    by (auto simp: worker_seal_def Let_def seal_slow_def batch_split_def split: option.splits sum.splits)
  thus ?thesis
  proof cases
    case (2 w2)
    have "batches_typed hb w2" using store_batch_typed[OF 2(1) t] by simp
    thus ?thesis using 2(2) by (simp add: batches_typed_def)
  qed (use assms(2) in \<open>simp add: batches_typed_def\<close>)
qed

lemma seal_Ok:
  assumes "worker_seal sb attest w = (w', Inr ())"
  shows "attest = Some (Inr ())" "holds w' (sb_digest sb)"
  using assms
  by (auto simp: worker_seal_def Let_def batch_split_def dest!: store_batch_fields(1) split: option.splits sum.splits)
    (simp_all add: map_simps)

lemma report_typed:
  assumes "process_report_batch vb now sb w = (w', r)" "batches_typed hb w"
    and "vb sb = Inr () \<Longrightarrow> sb_digest sb = batch_digest hb (sb_batch sb)"
  shows "batches_typed hb w'"
proof -
  consider "w' = w"
    | w1 where "vb sb = Inr ()" "store_batch (sb_digest sb) (set_received_at now (sb_batch sb)) w = Inr w1" "wk_store w' = wk_store w1"
    using assms(1) by (auto simp: process_report_batch_def batch_split_def split: sum.splits)
  thus ?thesis
  proof cases
    case (2 w1)
    have "batches_typed hb w1" using store_batch_typed[OF 2(2) assms(2)] assms(3)[OF 2(1)] by simp
    thus ?thesis using 2(3) by (simp add: batches_typed_def)
  qed (use assms(2) in simp)
qed

lemma report_Ok:
  assumes "process_report_batch vb now sb w = (w', Inr ())"
  shows "vb sb = Inr ()" "holds w' (sb_digest sb)"
    "wk_primary_set w \<Longrightarrow> contains_payload (wk_payload w') (sb_digest sb) (wk_id w)"
  using assms
  by (auto simp: process_report_batch_def batch_split_def store_batch_def report_others_batch_def contains_payload_def
      write_payload_def map_simps split: sum.splits if_splits)

lemma gossip_typed:
  assumes "worker_gossip hb msg reply w = (w', r)" "batches_typed hb w"
  shows "batches_typed hb w'"
proof -
  consider "w' = w" | b where "store_batch (batch_digest hb b) b w = Inr w'"
    using assms(1) by (auto simp: worker_gossip_def split: sum.splits option.splits list.splits)
  thus ?thesis using assms(2) store_batch_typed by cases (simp, blast)
qed

lemma store_received_typed:
  assumes "store_received hb vb certified now bs missing w = (w', r)" "batches_typed hb w"
  shows "batches_typed hb w'"
  using assms
proof (induction bs arbitrary: missing w)
  case (Cons b bs)
  consider "w' = w"
    | w1 where "store_batch (batch_digest hb b) (set_received_at now b) w = Inr w1"
        "store_received hb vb certified now bs (removeAll (batch_digest hb b) missing) w1 = (w', r)"
    using Cons.prems(1) by (auto simp: Let_def split: sum.splits if_splits)
  thus ?case
  proof cases
    case (2 w1)
    have "batches_typed hb w1" using store_batch_typed[OF 2(1) Cons.prems(2)] by simp
    thus ?thesis using Cons.IH[OF 2(2)] by blast
  qed (use Cons.prems(2) in simp)
qed simp

lemma store_received_holds:
  assumes "store_received hb vb certified now bs missing w = (w', Inr rest)"
  shows "holds w d \<or> d \<in> set missing - set rest \<Longrightarrow> holds w' d"
  using assms
proof (induction bs arbitrary: missing w)
  case (Cons b bs)
  obtain w1 where w1: "store_batch (batch_digest hb b) (set_received_at now b) w = Inr w1"
    "store_received hb vb certified now bs (removeAll (batch_digest hb b) missing) w1 = (w', Inr rest)"
    using Cons.prems(2) by (auto simp: Let_def split: sum.splits if_splits)
  show ?case using Cons.IH[OF _ w1(2)] store_batch_holds[OF w1(1)] Cons.prems(1) by auto
qed simp

lemma synchronize_typed:
  assumes "synchronize hb vb certified now ds request w = (w', r)" "batches_typed hb w"
  shows "batches_typed hb w'"
proof -
  consider "w' = w" | bs missing r' where "store_received hb vb certified now bs missing w = (w', r')"
    using assms(1) by (auto simp: synchronize_def Let_def split: sum.splits if_splits prod.splits)
  thus ?thesis using assms(2) store_received_typed by cases (simp, blast)
qed

lemma synchronize_Ok:
  assumes "synchronize hb vb certified now ds request w = (w', Inr ())" "d \<in> set ds"
  shows "holds w' d"
proof -
  obtain found where f: "try_map (get_batch w) ds = Inr found"
    using assms(1) by (auto simp: synchronize_def split: if_splits sum.splits)
  define missing where "missing = remdups (map fst (filter (\<lambda>e. snd e = None) (zip ds found)))"
  have "list_all2 (\<lambda>x y. get_batch w x = Inr y) ds found" using f by (simp add: try_map_Inr_iff)
  hence "\<exists>y. (d, y) \<in> set (zip ds found) \<and> get_batch w d = Inr y"
    using assms(2) by (induction ds found) auto
  hence m: "holds w d \<or> d \<in> set missing"
    by (force simp: missing_def get_batch_def split: if_splits)
  consider "missing = []" "w' = w" | bs where "store_received hb vb certified now bs missing w = (w', Inr [])"
    using assms(1) f by (auto simp: synchronize_def Let_def missing_def[symmetric] split: if_splits sum.splits prod.splits)
  thus ?thesis using m store_received_holds[of hb vb certified now _ missing w w' "[]" d] by cases auto
qed

end
