(* ===== verification/Worker_Fetch.thy ===== *)
theory Worker_Fetch
  imports Worker
begin

text \<open>
  Correctness of fetching batches: what a peer answers passes the checks of the worker that asks, every batch
  that is returned was asked for, and fetching ends with exactly the batches that were wanted, each of them
  stored.
\<close>

section \<open>Answering requests\<close>

lemma add_stored_subset: "set (snd (add_stored sz bs acc)) \<subseteq> set (snd acc) \<union> set bs"
  by (induction sz bs acc rule: add_stored.induct) auto

lemma concat_chunks: "n \<noteq> 0 \<Longrightarrow> concat (chunks n xs) = xs"
proof (induction n xs rule: chunks.induct)
  case (1 n xs)
  thus ?case by (cases "xs = []") (simp_all add: chunks.simps[of n])
qed

lemma process_request_batches_sound:
  assumes "process_request_batches sz ds w = Inr out" "b \<in> set out"
  shows "\<exists>d\<in>set ds. map_of (wk_store w) d = Some b"
proof -
  let ?f = "\<lambda>chunk acc. case multi_get_batches w chunk of
                Inl e \<Rightarrow> Inl (WInternal e) | Inr found \<Rightarrow> Inr (add_stored sz (List.map_filter id found) acc)"
  obtain n where n: "try_fold ?f (chunks batch_digests_read_chunk_size ds) (0, []) = Inr (n, out)"
    using assms(1) by (auto simp: process_request_batches_def split: sum.splits)
  have "\<forall>b\<in>set (snd (n, out)). \<exists>d\<in>set (concat (chunks batch_digests_read_chunk_size ds)). map_of (wk_store w) d = Some b"
    using n
  proof (rule try_fold_invariant)
    fix chunk acc acc'
    assume c: "chunk \<in> set (chunks batch_digests_read_chunk_size ds)"
      and i: "\<forall>b\<in>set (snd acc). \<exists>d\<in>set (concat (chunks batch_digests_read_chunk_size ds)). map_of (wk_store w) d = Some b"
      and s: "?f chunk acc = Inr acc'"
    have a: "acc' = add_stored sz (List.map_filter id (map (map_of (wk_store w)) chunk)) acc"
      using s by (auto simp: multi_get_batches_def split: if_splits)
    show "\<forall>b\<in>set (snd acc'). \<exists>d\<in>set (concat (chunks batch_digests_read_chunk_size ds)). map_of (wk_store w) d = Some b"
    proof
      fix b assume "b \<in> set (snd acc')"
      hence "b \<in> set (snd acc) \<or> b \<in> set (List.map_filter id (map (map_of (wk_store w)) chunk))"
        using add_stored_subset[of sz _ acc] a by blast
      thus "\<exists>d\<in>set (concat (chunks batch_digests_read_chunk_size ds)). map_of (wk_store w) d = Some b"
        using i c by (force simp: List.map_filter_def)
    qed
  qed simp
  thus ?thesis using assms(2) by (simp add: concat_chunks batch_digests_read_chunk_size_def)
qed

text \<open>What a worker with a well formed table answers is accepted by the worker that asked.\<close>

lemma answer_accepted:
  assumes "batches_typed hb w" "process_request_batches sz ds w = Inr out"
  shows "request_batches_from_peer hb ds (Inr (request_response sh (Inr out))) = Inr out"
  using process_request_batches_sound[OF assms(2)] assms(1)
  by (force simp: request_batches_from_peer_def request_response_def batches_typed_def list_all_iff)

section \<open>Requesting\<close>

lemma from_peer_requested: "request_batches_from_peer hb ds res = Inr bs \<Longrightarrow> b \<in> set bs \<Longrightarrow> batch_digest hb b \<in> set ds"
  by (auto simp: request_batches_from_peer_def list_all_iff split: sum.splits worker_response.splits if_splits)

text \<open>A batch that was collected is one that was asked for, and a digest is dropped only with its batch.\<close>

definition collected :: "(batch \<Rightarrow> block_hash) \<Rightarrow> block_hash list \<Rightarrow> block_hash list \<times> batch list \<Rightarrow> bool" where
  "collected hb requested acc \<longleftrightarrow> batch_digest hb ` set (snd acc) \<subseteq> set requested
     \<and> set requested - set (fst acc) \<subseteq> batch_digest hb ` set (snd acc)"

lemma absorb_batch_collected: "collected hb requested acc \<Longrightarrow> collected hb requested (absorb_batch hb requested b acc)"
  by (cases acc) (auto simp: collected_def absorb_batch_def)

lemma absorb_replies_collected:
  "collected hb requested acc \<Longrightarrow> collected hb requested (snd (absorb_replies hb requested rs acc))"
proof (induction hb requested rs acc rule: absorb_replies.induct)
  case (3 hb requested bs rs acc)
  have "collected hb requested (fold (absorb_batch hb requested) bs acc)"
    using 3(2) absorb_batch_collected by (rule fold_invariant_list[where P = "collected hb requested"])
  thus ?case using 3(1)[OF refl] by (cases "fst (fold (absorb_batch hb requested) bs acc) = []") (simp_all add: Let_def)
qed simp_all

lemma request_rounds_requested:
  assumes "collected hb requested acc"
  shows "batch_digest hb ` set (request_rounds hb ask arrive requested ks peers acc) \<subseteq> set requested"
  using assms
proof (induction ks arbitrary: peers acc)
  case (Cons k ks)
  let ?r = "absorb_replies hb requested (arrive k (round_replies hb ask k (rotate1 peers) (fst acc))) acc"
  have c: "collected hb requested (snd ?r)" using Cons.prems by (rule absorb_replies_collected)
  obtain fin acc' where r: "?r = (fin, acc')" by (cases ?r)
  show ?case using Cons.IH[of acc' "rotate1 peers"] c r by (cases fin) (auto simp: Let_def collected_def)
qed (auto simp: collected_def)

lemma request_batches_requested:
  assumes "request_batches hb ask arrive connected requested = Inr out" "b \<in> set out"
  shows "batch_digest hb b \<in> set requested"
proof -
  have "collected hb requested (requested, [])" by (simp add: collected_def)
  hence "batch_digest hb ` set (request_rounds hb ask arrive requested [0..<length peers] peers (requested, [])) \<subseteq> set requested"
    for peers by (rule request_rounds_requested)
  thus ?thesis using assms by (auto simp: request_batches_def Let_def split: sum.splits if_splits)
qed

section \<open>Fetching\<close>

abbreviation digests_right :: "(batch \<Rightarrow> block_hash) \<Rightarrow> (block_hash, batch) hash_map \<Rightarrow> bool" where
  "digests_right hb m \<equiv> \<forall>d b. map_of m d = Some b \<longrightarrow> batch_digest hb b = d"

lemma fold_found:
  "map_of (fold (\<lambda>(d, ob) m. case ob of Some b \<Rightarrow> AList.update d b m | None \<Rightarrow> m) (zip ds (map g ds)) m) d
     = (if d \<in> set ds \<and> g d \<noteq> None then g d else map_of m d)"
proof (induction ds arbitrary: m)
  case (Cons x ds)
  show ?case by (cases "g x") (auto simp: Cons.IH map_simps)
qed simp

lemma fetch_local_map:
  assumes "wk_db_ok w"
  shows "map_of (fetch_local w ds) d = (if d \<in> set ds then map_of (wk_store w) d else None)"
  by (simp add: fetch_local_def multi_get_batches_def assms fold_found)

lemma fetch_local_down: "\<not> wk_db_ok w \<Longrightarrow> fetch_local w ds = []"
  by (simp add: fetch_local_def multi_get_batches_def)

lemma map_of_extend: "map_of (fold (\<lambda>(d, b). AList.update d b) es m) = map_of m ++ map_of (rev es)"
proof (induction es arbitrary: m)
  case (Cons e es)
  obtain d b where e: "e = (d, b)" by (cases e)
  have upd: "map_of (AList.update d b m) = map_of m ++ [d \<mapsto> b]" by (simp add: map_simps)
  have "map_of (fold (\<lambda>(d, b). AList.update d b) (e # es) m) = map_of (AList.update d b m) ++ map_of (rev es)"
    by (simp add: e Cons.IH)
  also have "\<dots> = map_of m ++ ([d \<mapsto> b] ++ map_of (rev es))" by (simp only: upd map_add_assoc)
  also have "[d \<mapsto> b] ++ map_of (rev es) = map_of (rev (e # es))" by (simp add: e)
  finally show ?case .
qed simp

lemma fetch_local_distinct: "distinct (map fst (fetch_local w ds))"
proof -
  have "distinct (map fst m) \<Longrightarrow>
      distinct (map fst (fold (\<lambda>(d, ob) m. case ob of Some b \<Rightarrow> AList.update d b m | None \<Rightarrow> m) es m))"
    for es :: "(block_hash \<times> batch option) list" and m
    by (induction es arbitrary: m) (auto simp: distinct_update split: option.splits)
  thus ?thesis by (auto simp: fetch_local_def split: sum.splits)
qed

lemma after_local:
  assumes "batches_typed hb w" "digests_right hb fetched"
    and "fetched1 = fold (\<lambda>(d, b). AList.update d b) (fetch_local w remaining) fetched"
    and "remaining1 = filter (\<lambda>d. map_of fetched1 d = None) remaining"
  shows "digests_right hb fetched1" "dom (map_of fetched1) \<union> set remaining1 = dom (map_of fetched) \<union> set remaining"
    "\<forall>d\<in>dom (map_of fetched1). d \<in> dom (map_of fetched) \<or> holds w d"
proof -
  have m: "map_of fetched1 = map_of fetched ++ map_of (fetch_local w remaining)"
    using assms(3) by (simp add: map_of_extend map_of_eqI_rev fetch_local_distinct)
  have l: "map_of (fetch_local w remaining) d = Some b \<Longrightarrow> d \<in> set remaining \<and> map_of (wk_store w) d = Some b" for d b
    by (cases "wk_db_ok w") (auto simp: fetch_local_map fetch_local_down split: if_splits)
  have some: "map_of fetched1 d = Some b \<Longrightarrow> map_of fetched d = Some b \<or> d \<in> set remaining \<and> map_of (wk_store w) d = Some b" for d b
    using l[of d b] by (auto simp: m map_add_Some_iff)
  show "digests_right hb fetched1" using some assms(1,2) unfolding batches_typed_def by blast
  have "dom (map_of fetched1) = dom (map_of fetched) \<union> dom (map_of (fetch_local w remaining))" by (simp add: m Un_commute)
  moreover have "dom (map_of (fetch_local w remaining)) \<subseteq> set remaining" using l by blast
  moreover have "set remaining1 = set remaining - dom (map_of fetched1)" by (auto simp: assms(4))
  ultimately show "dom (map_of fetched1) \<union> set remaining1 = dom (map_of fetched) \<union> set remaining" by blast
  show "\<forall>d\<in>dom (map_of fetched1). d \<in> dom (map_of fetched) \<or> holds w d" using some by (metis domIff option.exhaust option.distinct(1))
qed

lemma safe_request_right:
  assumes "safe_request_batches hb res = Inr new"
  shows "\<forall>(d, b)\<in>set new. batch_digest hb b = d"
proof -
  obtain bs where new: "new = fold (\<lambda>b m. AList.update (batch_digest hb b) b m) bs []"
    using assms by (auto simp: safe_request_batches_def split: sum.splits)
  have key: "\<forall>(d, b)\<in>set m. batch_digest hb b = d \<Longrightarrow>
      \<forall>(d, b)\<in>set (fold (\<lambda>b m. AList.update (batch_digest hb b) b m) bs m). batch_digest hb b = d" for bs m
  proof (induction bs arbitrary: m)
    case (Cons b bs)
    have "\<forall>(d, x)\<in>set (AList.update (batch_digest hb b) b m). batch_digest hb x = d"
      using Cons.prems by (induction m) (auto split: if_splits)
    thus ?case using Cons.IH by simp
  qed simp
  show ?thesis unfolding new by (rule key) simp
qed

lemma keep_fetched_sound:
  assumes "keep_fetched now es remaining fetched w = Inr (remaining', fetched', w')"
    and "batches_typed hb w" "digests_right hb fetched" "\<forall>(d, b)\<in>set es. batch_digest hb b = d"
  shows "batches_typed hb w' \<and> digests_right hb fetched' \<and> dom (map_of fetched') \<union> set remaining' = dom (map_of fetched) \<union> set remaining
    \<and> (\<forall>d. holds w d \<longrightarrow> holds w' d) \<and> (\<forall>d\<in>dom (map_of fetched'). d \<in> dom (map_of fetched) \<or> holds w' d)"
  using assms
proof (induction es arbitrary: remaining fetched w)
  case (Cons e es)
  obtain d b where e: "e = (d, b)" by (cases e)
  show ?case
  proof (cases "d \<in> set remaining")
    case True
    then obtain w1 where w1: "store_batch d (set_received_at now b) w = Inr w1"
      "keep_fetched now es (removeAll d remaining) (AList.update d (set_received_at now b) fetched) w1 = Inr (remaining', fetched', w')"
      using Cons.prems(1) e by (auto split: sum.splits)
    have b: "batch_digest hb b = d" using Cons.prems(4) e by simp
    have t1: "batches_typed hb w1" by (rule store_batch_typed[OF w1(1) Cons.prems(2)]) (simp add: b)
    have f1: "digests_right hb (AList.update d (set_received_at now b) fetched)" using Cons.prems(3) b by (auto simp: map_simps)
    have es: "\<forall>(d, b)\<in>set es. batch_digest hb b = d" using Cons.prems(4) by simp
    note ih0 = Cons.IH[OF w1(2) t1 f1 es]
    note ih = conjunct1[OF ih0] conjunct1[OF conjunct2[OF ih0]] conjunct1[OF conjunct2[OF conjunct2[OF ih0]]]
      conjunct1[OF conjunct2[OF conjunct2[OF conjunct2[OF ih0]]]] conjunct2[OF conjunct2[OF conjunct2[OF conjunct2[OF ih0]]]]
    have d: "dom (map_of (AList.update d (set_received_at now b) fetched)) = insert d (dom (map_of fetched))" by (simp add: map_simps)
    have "dom (map_of fetched') \<union> set remaining' = dom (map_of fetched) \<union> set remaining" using ih(3) True by (auto simp only: d set_removeAll)
    moreover have "\<forall>x. holds w x \<longrightarrow> holds w' x" "holds w' d" using ih(4) store_batch_holds[OF w1(1)] by simp_all
    moreover have "\<forall>x\<in>dom (map_of fetched'). x \<in> dom (map_of fetched) \<or> holds w' x" using ih(5) \<open>holds w' d\<close> by (auto simp only: d)
    ultimately show ?thesis using ih(1,2) by blast
  next
    case False
    hence k: "keep_fetched now es remaining fetched w = Inr (remaining', fetched', w')" using Cons.prems(1) e by simp
    show ?thesis by (rule Cons.IH[OF k Cons.prems(2,3)]) (use Cons.prems(4) in simp)
  qed
qed simp

lemma fetch_sound:
  assumes "fetch hb attempts remaining fetched w = Fetched m w'" "batches_typed hb w" "digests_right hb fetched"
    and "\<forall>d\<in>dom (map_of fetched). holds w d"
  shows "batches_typed hb w' \<and> digests_right hb m \<and> dom (map_of m) = dom (map_of fetched) \<union> set remaining
    \<and> (\<forall>d\<in>dom (map_of m). holds w' d)"
  using assms
proof (induction attempts arbitrary: remaining fetched w)
  case Nil
  define f1 where "f1 = fold (\<lambda>(d, b). AList.update d b) (fetch_local w remaining) fetched"
  define r1 where "r1 = filter (\<lambda>d. map_of f1 d = None) remaining"
  note al = after_local[OF Nil(2,3) f1_def r1_def]
  have h1: "\<forall>d\<in>dom (map_of f1). holds w d" using al(3) Nil(4) by blast
  note st = Nil(1)[unfolded fetch.simps[of hb "[]"] Let_def f1_def[symmetric] r1_def[symmetric]]
  consider "remaining = []" "m = fetched" "w' = w" | "r1 = []" "m = f1" "w' = w" using st by (auto split: if_splits)
  thus ?case by cases (use Nil(2-4) al(1,2) h1 in simp_all)
next
  case (Cons at later)
  define f1 where "f1 = fold (\<lambda>(d, b). AList.update d b) (fetch_local w remaining) fetched"
  define r1 where "r1 = filter (\<lambda>d. map_of f1 d = None) remaining"
  note al = after_local[OF Cons.prems(2,3) f1_def r1_def]
  obtain now res where at: "at = (now, res)" by (cases at)
  have h1: "\<forall>d\<in>dom (map_of f1). holds w d" using al(3) Cons.prems(4) by blast
  note st = Cons.prems(1)[unfolded at, unfolded fetch.simps[of hb "(now, res) # later"] Let_def f1_def[symmetric] r1_def[symmetric]]
  consider "remaining = []" "m = fetched" "w' = w" | "r1 = []" "m = f1" "w' = w"
    | e where "safe_request_batches hb res = Inl e" "fetch hb later r1 f1 w = Fetched m w'"
    | new r2 f2 w2 where "safe_request_batches hb res = Inr new" "keep_fetched now new r1 f1 w = Inr (r2, f2, w2)"
        "r2 = [] \<and> m = f2 \<and> w' = w2 \<or> fetch hb later r2 f2 w2 = Fetched m w'"
    using st by (auto split: if_splits sum.splits)
  thus ?case
  proof cases
    case 3
    thus ?thesis using Cons.IH[OF 3(2) Cons.prems(2) al(1) h1] al(2) by simp
  next
    case (4 new r2 f2 w2)
    note kf = keep_fetched_sound[OF 4(2) Cons.prems(2) al(1) safe_request_right[OF 4(1)]]
    have h2: "\<forall>d\<in>dom (map_of f2). holds w2 d" using kf h1 by blast
    show ?thesis using 4(3) kf h2 al(2) Cons.IH[of r2 f2 w2] by auto
  qed (use Cons.prems(2-4) al(1,2) h1 in simp_all)
qed

text \<open>A fetch that waits for an answer has stored the batches of the answers so far under their digests.\<close>

lemma fetch_waits_typed:
  assumes "fetch hb attempts remaining fetched w = FetchWaits w'" "batches_typed hb w" "digests_right hb fetched"
  shows "batches_typed hb w'"
  using assms
proof (induction attempts arbitrary: remaining fetched w)
  case Nil
  thus ?case by (simp add: fetch.simps[of hb "[]"] Let_def split: if_splits)
next
  case (Cons at later)
  define f1 where "f1 = fold (\<lambda>(d, b). AList.update d b) (fetch_local w remaining) fetched"
  define r1 where "r1 = filter (\<lambda>d. map_of f1 d = None) remaining"
  note al = after_local[OF Cons.prems(2,3) f1_def r1_def]
  obtain now res where at: "at = (now, res)" by (cases at)
  note st = Cons.prems(1)[unfolded at, unfolded fetch.simps[of hb "(now, res) # later"] Let_def f1_def[symmetric] r1_def[symmetric]]
  consider e where "safe_request_batches hb res = Inl e" "fetch hb later r1 f1 w = FetchWaits w'"
    | new r2 f2 w2 where "safe_request_batches hb res = Inr new" "keep_fetched now new r1 f1 w = Inr (r2, f2, w2)"
        "fetch hb later r2 f2 w2 = FetchWaits w'"
    using st by (auto split: if_splits sum.splits)
  thus ?case
  proof cases
    case 1
    thus ?thesis using Cons.IH Cons.prems(2) al(1) by blast
  next
    case (2 new r2 f2 w2)
    thus ?thesis using Cons.IH keep_fetched_sound[OF 2(2) Cons.prems(2) al(1) safe_request_right[OF 2(1)]] by blast
  qed
qed

text \<open>Fetching returns as soon as every batch is stored or was in one of the answers.\<close>

definition answered :: "(batch \<Rightarrow> block_hash) \<Rightarrow> (timestamp \<times> (p2p_error, batch list) result) list \<Rightarrow> block_hash set" where
  "answered hb attempts = {batch_digest hb b |t bs b. (t, Inr bs) \<in> set attempts \<and> b \<in> set bs}"

lemma keep_fetched_returns:
  assumes "wk_db_ok w"
  shows "\<exists>f w'. keep_fetched now es remaining fetched w = Inr (filter (\<lambda>d. d \<notin> fst ` set es) remaining, f, w')
           \<and> wk_db_ok w' \<and> (\<forall>d. holds w d \<longrightarrow> holds w' d)"
  using assms
proof (induction es arbitrary: remaining fetched w)
  case (Cons e es)
  obtain d b where e: "e = (d, b)" by (cases e)
  have flt: "filter (\<lambda>x. x \<notin> fst ` set es) (removeAll d remaining) = filter (\<lambda>x. x \<notin> fst ` set (e # es)) remaining"
    by (simp add: e removeAll_filter_not_eq) (rule filter_cong, auto)
  show ?case
  proof (cases "d \<in> set remaining")
    case True
    define w1 where "w1 = w\<lparr> wk_store := bt_insert d (encoded (set_received_at now b)) (wk_store w) \<rparr>"
    have s: "store_batch d (set_received_at now b) w = Inr w1" using Cons.prems by (simp add: store_batch_def w1_def)
    have ok: "wk_db_ok w1" using Cons.prems by (simp add: w1_def)
    from Cons.IH[OF ok, of "removeAll d remaining" "AList.update d (set_received_at now b) fetched"]
    obtain f w' where "keep_fetched now es (removeAll d remaining) (AList.update d (set_received_at now b) fetched) w1
        = Inr (filter (\<lambda>x. x \<notin> fst ` set es) (removeAll d remaining), f, w')" "wk_db_ok w'" "\<forall>x. holds w1 x \<longrightarrow> holds w' x" by blast
    thus ?thesis using True s store_batch_holds[OF s] flt by (intro exI[of _ f] exI[of _ w']) (simp add: e)
  next
    case False
    hence "filter (\<lambda>x. x \<notin> fst ` set es) remaining = filter (\<lambda>x. x \<notin> fst ` set (e # es)) remaining"
      by (intro filter_cong) (auto simp: e)
    thus ?thesis using Cons.IH[OF Cons.prems, of remaining fetched] False by (simp add: e)
  qed
qed simp

lemma safe_request_keys:
  assumes "b \<in> set bs"
  shows "\<exists>new. safe_request_batches hb (Inr bs) = Inr new \<and> batch_digest hb b \<in> fst ` set new"
proof -
  have "fst ` set (fold (\<lambda>b m. AList.update (batch_digest hb b) b m) xs m) = batch_digest hb ` set xs \<union> fst ` set m" for xs m
    by (induction xs arbitrary: m) (auto simp: dom_update image_iff)
  thus ?thesis using assms by (simp add: safe_request_batches_def)
qed

lemma fetch_returns:
  assumes "wk_db_ok w" "\<forall>d\<in>set remaining. holds w d \<or> d \<in> answered hb attempts"
  shows "\<exists>m w'. fetch hb attempts remaining fetched w = Fetched m w'"
  using assms
proof (induction attempts arbitrary: remaining fetched w)
  case Nil
  define f1 where "f1 = fold (\<lambda>(d, b). AList.update d b) (fetch_local w remaining) fetched"
  have "map_of f1 d \<noteq> None" if "d \<in> set remaining" for d
    using Nil that by (auto simp: f1_def map_of_extend map_of_eqI_rev fetch_local_distinct fetch_local_map answered_def map_add_def)
  hence "filter (\<lambda>d. map_of f1 d = None) remaining = []" by (simp add: filter_empty_conv)
  thus ?case by (simp add: fetch.simps[of hb "[]"] Let_def f1_def[symmetric])
next
  case (Cons at later)
  define f1 where "f1 = fold (\<lambda>(d, b). AList.update d b) (fetch_local w remaining) fetched"
  define r1 where "r1 = filter (\<lambda>d. map_of f1 d = None) remaining"
  obtain now res where at: "at = (now, res)" by (cases at)
  have nh: "\<not> holds w d" if "d \<in> set r1" for d
    using that Cons.prems(1) by (auto simp: r1_def f1_def map_of_extend map_of_eqI_rev fetch_local_distinct fetch_local_map map_add_def split: option.splits)
  have r1: "\<forall>d\<in>set r1. d \<in> answered hb (at # later)" using nh Cons.prems(2) by (auto simp: r1_def)
  note eq = fetch.simps[of hb "at # later" remaining fetched w, unfolded Let_def f1_def[symmetric] r1_def[symmetric] at]
  show ?case
  proof (cases res)
    case (Inl e)
    have "\<forall>d\<in>set r1. holds w d \<or> d \<in> answered hb later" using r1 Inl by (auto simp: answered_def at)
    from Cons.IH[OF Cons.prems(1) this, of f1] show ?thesis using Inl eq by (auto simp: at safe_request_batches_def)
  next
    case (Inr bs)
    obtain new where new: "safe_request_batches hb res = Inr new" using Inr by (simp add: safe_request_batches_def)
    obtain f2 w2 where k: "keep_fetched now new r1 f1 w = Inr (filter (\<lambda>d. d \<notin> fst ` set new) r1, f2, w2)" "wk_db_ok w2"
      using keep_fetched_returns[OF Cons.prems(1)] by blast
    have "d \<in> answered hb later" if d: "d \<in> set (filter (\<lambda>d. d \<notin> fst ` set new) r1)" for d
    proof -
      have "d \<notin> batch_digest hb ` set bs" using d new Inr safe_request_keys[of _ bs hb] by auto
      moreover have "d \<in> answered hb (at # later)" using d r1 by simp
      ultimately show ?thesis using Inr unfolding answered_def at by fastforce
    qed
    hence "\<forall>d\<in>set (filter (\<lambda>d. d \<notin> fst ` set new) r1). holds w2 d \<or> d \<in> answered hb later" by blast
    from Cons.IH[OF k(2) this, of f2] show ?thesis using eq new k(1) by (auto simp: at)
  qed
qed

end
