(* ===== verification/Worker_Properties.thy ===== *)
theory Worker_Properties
  imports Worker_Fetch Sample_Network
begin

text \<open>
  The properties of batches: what the builder builds the validator accepts, what an acknowledged batch
  guarantees, the table of batches, and fetching.
\<close>

section \<open>Samples\<close>

text \<open>A transaction of the sample is its gas limit; it is encoded as one word.\<close>

definition sample_lib :: "nat tx_lib" where
  "sample_lib = \<lparr> tl_recover = (\<lambda>bs. case bs of [g] \<Rightarrow> Inr g | _ \<Rightarrow> Inl ''length''), tl_gas_limit = (\<lambda>g. g), tl_size = (\<lambda>g. 100),
     tl_encode = (\<lambda>g. [g]), tl_hash = (\<lambda>g. g) \<rparr>"

definition list_pool :: "(nat, nat list) best_txs" where
  "list_pool = \<lparr> bt_next = (\<lambda>xs. case xs of [] \<Rightarrow> None | x # xs' \<Rightarrow> Some (x, xs')), bt_mark_invalid = (\<lambda>x xs. xs) \<rparr>"

definition sample_hash :: "batch \<Rightarrow> block_hash" where
  "sample_hash b = b_timestamp b + sum_list (concat (b_transactions b))"

definition sample_tip :: sealed_block where
  "sample_tip = \<lparr> bk_hash = 7, bk_timestamp = 100 \<rparr>"

definition sample_config :: pending_block_config where
  "sample_config = \<lparr> pb_beneficiary = 5, pb_parent_info = \<lparr> lu_tip = sample_tip, lu_base_fee = 7, lu_blob_fee = None \<rparr> \<rparr>"

definition sample_chain :: chain_db where
  "sample_chain = \<lparr> cd_header = (\<lambda>h. if h = 7 then Inr (Some \<lparr> eh_timestamp = 100 \<rparr>) else Inr None), cd_finalized = Inr None \<rparr>"

definition sample_batch_of :: "bytes list \<Rightarrow> batch" where
  "sample_batch_of txs = \<lparr> b_transactions = txs, b_parent_hash = 7, b_beneficiary = 5, b_timestamp = 101, b_base_fee = Some 7,
     b_received_at = None \<rparr>"

definition sample_cache :: worker_cache where
  "sample_cache = \<lparr> wc_epoch = 0, wc_workers = map (\<lambda>k. (k, [(0, \<lparr> w_name = k, w_transactions = ''tx'', w_address = ''addr'' \<rparr>)])) [11, 12, 13, 14] \<rparr>"

definition sample_waiter :: quorum_waiter where
  "sample_waiter = \<lparr> qw_authority = the (authority_by_key sample_committee 11), qw_id = 0, qw_committee = sample_committee,
     qw_worker_cache = sample_cache \<rparr>"

definition sample_worker :: worker where
  "sample_worker = \<lparr> wk_id = 0, wk_store = [], wk_db_ok = True, wk_published = [], wk_reported = [], wk_payload = [],
     wk_primary_set = True, wk_network_set = True \<rparr>"

lemma sample_waiter_wf: "waiter_wf sample_waiter"
proof -
  have "cache_wf sample_cache" by code_simp
  moreover have "authority_by_key sample_committee (protocol_key (the (authority_by_key sample_committee 11)))
      = Some (the (authority_by_key sample_committee 11))" by code_simp
  ultimately show ?thesis using sample_committee_wf sample_power(1) by (simp add: waiter_wf_def sample_waiter_def)
qed

section \<open>Building and validating\<close>

text \<open>The bytes that the validator counts, and what it answers once the clock of the builder is past the parent block.\<close>

definition batch_bytes :: "batch \<Rightarrow> nat" where
  "batch_bytes b = the (reduce_sum (map length (b_transactions b)))"

lemma batch_bytes_within:
  assumes "xs \<noteq> []" "b_transactions b = map (tl_encode lib) xs" "\<forall>x\<in>set xs. length (tl_encode lib x) \<le> tl_size lib x"
    and "sum_list (map (tl_size lib) xs) \<le> 1000000"
  shows "batch_bytes b \<le> 1000000"
proof -
  have "sum_list (map length (map (tl_encode lib) xs)) \<le> sum_list (map (tl_size lib) xs)"
    unfolding map_map using assms(3) by (intro sum_list_mono) simp
  thus ?thesis using assms(1,2,4) reduce_sum_exact[of "map length (map (tl_encode lib) xs)"]
    by (auto simp: batch_bytes_def u64_max_def)
qed

lemma validate_built:
  assumes "b_transactions b = map (tl_encode lib) xs" "\<forall>x\<in>set xs. tl_recover lib (tl_encode lib x) = Inr x"
    and "sum_list (map (tl_gas_limit lib) xs) \<le> 30000000"
  shows "validate_batch hb lib thr pick cd (seal_slow hb b) =
     (if b_timestamp b \<le> eh_timestamp (batch_parent cd (b_parent_hash b))
      then Inl (TimestampIsInPast (eh_timestamp (batch_parent cd (b_parent_hash b))) (b_timestamp b))
      else if b_transactions b = [] then Inl EmptyBatch
      else if batch_bytes b > 1000000 then Inl (HeaderTransactionBytesExceedsMax (batch_bytes b)) else Inr ())"
proof (cases "b_timestamp b \<le> eh_timestamp (batch_parent cd (b_parent_hash b)) \<or> xs = []")
  case True
  thus ?thesis using assms(1)
    by (auto simp: validate_batch_def batch_split_def seal_slow_def validate_against_parent_timestamp_def validate_batch_size_bytes_def)
next
  case False
  then obtain n where n: "reduce_sum (map length (b_transactions b)) = Some n" using assms(1)
    by (cases "reduce_sum (map length (b_transactions b))") auto
  have "reduce_sum (map (tl_gas_limit lib) xs) = Some (sum_list (map (tl_gas_limit lib) xs))"
    using assms(3) False reduce_sum_exact[of "map (tl_gas_limit lib) xs"] by (simp add: u64_max_def)
  moreover have "list_all2 (\<lambda>t x. tl_recover lib t = Inr x) (b_transactions b) xs"
    using assms(1,2) by (auto simp: list_all2_conv_all_nth)
  ultimately have "n \<le> 1000000 \<Longrightarrow> validate_batch hb lib thr pick cd (seal_slow hb b) = Inr ()"
    unfolding validate_batch_Inr_iff using False assms(3) n by (auto simp: seal_slow_def max_batch_size_def max_batch_gas_def)
  moreover have "1000000 < n \<Longrightarrow> validate_batch hb lib thr pick cd (seal_slow hb b) = Inl (HeaderTransactionBytesExceedsMax n)"
    using False n by (simp add: validate_batch_def batch_split_def seal_slow_def validate_against_parent_timestamp_def
        validate_batch_size_bytes_def max_batch_size_def)
  ultimately show ?thesis using False assms(1) n by (auto simp: batch_bytes_def not_le)
qed

text \<open>C17: what a peer that knows the parent block answers to a batch that the builder builds. Building ends, and
  the peer refuses the batch in exactly three cases: the clock of the builder is behind the timestamp of
  the parent block, since the builder moves its timestamp forward only when the two are equal; the batch
  is empty; or its encoded transactions sum to more bytes than the limit, since the builder counts sizes in
  memory and the validator encoded bytes. The last case does not occur when no transaction is longer
  encoded than its size in memory. Digest, decoding and gas never fail. Of the transactions in the pool it
  is assumed that their gas limits and sizes do not reach the end of 64 bits and that decoding undoes
  encoding; of the clock, that it does not reach the end of 64 bits.\<close>

theorem built_batch_accepted:
  assumes "pool_ends pl m" "\<And>tx. offered pl it tx \<Longrightarrow> fits lib tx \<and> tl_recover lib (tl_encode lib tx) = Inr tx"
    and "cd_header cd (bk_hash (lu_tip (pb_parent_info cfg))) = Inr (Some \<lparr> eh_timestamp = bk_timestamp (lu_tip (pb_parent_info cfg)) \<rparr>)"
    and "now + 1 < u64_max"
  shows "\<exists>out. build_batch lib pl now it cfg = Some out
    \<and> validate_batch hb lib thr pick cd (seal_slow hb (bo_batch out))
        = (if now < bk_timestamp (lu_tip (pb_parent_info cfg)) then Inl (TimestampIsInPast (bk_timestamp (lu_tip (pb_parent_info cfg))) now)
           else if b_transactions (bo_batch out) = [] then Inl EmptyBatch
           else if batch_bytes (bo_batch out) > 1000000 then Inl (HeaderTransactionBytesExceedsMax (batch_bytes (bo_batch out)))
           else Inr ())
    \<and> ((\<forall>tx. offered pl it tx \<longrightarrow> length (tl_encode lib tx) \<le> tl_size lib tx) \<and> b_transactions (bo_batch out) \<noteq> []
        \<longrightarrow> batch_bytes (bo_batch out) \<le> 1000000)"
proof -
  let ?tip = "lu_tip (pb_parent_info cfg)"
  obtain out xs where out: "build_batch lib pl now it cfg = Some out"
    "b_transactions (bo_batch out) = map (tl_encode lib) xs"
    "sum_list (map (tl_gas_limit lib) xs) \<le> 30000000" "sum_list (map (tl_size lib) xs) \<le> 1000000" "\<forall>x\<in>set xs. offered pl it x"
    "b_timestamp (bo_batch out) = (if now = bk_timestamp ?tip then u64_add now 1 else now)"
    "b_parent_hash (bo_batch out) = bk_hash ?tip"
    using build_batch_within[of pl m it lib now cfg, OF assms(1)] assms(2) by metis
  have parent: "eh_timestamp (batch_parent cd (b_parent_hash (bo_batch out))) = bk_timestamp ?tip"
    using out(7) assms(3) by (simp add: batch_parent_def)
  have ts: "b_timestamp (bo_batch out) \<le> bk_timestamp ?tip \<longleftrightarrow> now < bk_timestamp ?tip"
    "now < bk_timestamp ?tip \<Longrightarrow> b_timestamp (bo_batch out) = now"
    using out(6) assms(4) by (auto simp: u64_simps)
  have "\<forall>x\<in>set xs. tl_recover lib (tl_encode lib x) = Inr x" using out(5) assms(2) by blast
  from validate_built[OF out(2) this out(3), of hb thr pick cd, unfolded parent] ts
  have "validate_batch hb lib thr pick cd (seal_slow hb (bo_batch out))
        = (if now < bk_timestamp ?tip then Inl (TimestampIsInPast (bk_timestamp ?tip) now)
           else if b_transactions (bo_batch out) = [] then Inl EmptyBatch
           else if batch_bytes (bo_batch out) > 1000000 then Inl (HeaderTransactionBytesExceedsMax (batch_bytes (bo_batch out)))
           else Inr ())" by auto
  thus ?thesis using out(1,2,4,5) batch_bytes_within[of xs "bo_batch out" lib] by (intro exI[of _ out]) auto
qed

lemma list_pool_offered: "offered list_pool it tx \<Longrightarrow> tx \<in> set it"
  by (induction rule: offered.induct) (auto simp: list_pool_def split: list.splits)

theorem built_batch_accepted_witness:
  "\<exists>out. build_batch sample_lib list_pool 100 [20000000, 15000000, 21000] sample_config = Some out
     \<and> bo_mined out = [20000000, 21000]
     \<and> validate_batch sample_hash sample_lib 10 hd sample_chain (seal_slow sample_hash (bo_batch out)) = Inr ()"
proof -
  have off: "offered list_pool [20000000, 15000000, 21000] tx \<Longrightarrow> fits sample_lib tx \<and> tl_recover sample_lib (tl_encode sample_lib tx) = Inr tx
      \<and> length (tl_encode sample_lib tx) \<le> tl_size sample_lib tx" for tx
    by (drule list_pool_offered) (auto simp: fits_def sample_lib_def u64_max_def)
  have "pool_ends list_pool length" by (auto simp: pool_ends_def list_pool_def split: list.splits)
  from built_batch_accepted[OF this, of "[20000000, 15000000, 21000]" sample_lib sample_chain sample_config 100 sample_hash 10 hd] off
  obtain out where out: "build_batch sample_lib list_pool 100 [20000000, 15000000, 21000] sample_config = Some out"
    "b_transactions (bo_batch out) \<noteq> [] \<longrightarrow> validate_batch sample_hash sample_lib 10 hd sample_chain (seal_slow sample_hash (bo_batch out)) = Inr ()"
    by (auto simp: sample_chain_def sample_config_def sample_tip_def u64_max_def)
  moreover have "map_option (\<lambda>out. (bo_mined out, b_transactions (bo_batch out)))
      (build_batch sample_lib list_pool 100 [20000000, 15000000, 21000] sample_config) = Some ([20000000, 21000], [[20000000], [21000]])"
    by code_simp
  ultimately show ?thesis by auto
qed

text \<open>C38: the sum of the gas limits wraps around at 64 bits, so that a peer can have a batch accepted whose transactions
  may use far more gas than the limit: two transactions with gas limits that sum to a little more than
  \<open>2^64\<close> pass the check.\<close>

theorem gas_limit_wraps:
  assumes "tl_recover lib t1 = Inr x1" "tl_recover lib t2 = Inr x2" "tl_gas_limit lib x1 < u64_max" "tl_gas_limit lib x2 < u64_max"
    and "u64_max \<le> tl_gas_limit lib x1 + tl_gas_limit lib x2" "tl_gas_limit lib x1 + tl_gas_limit lib x2 \<le> u64_max + 30000000"
    and "b_transactions b = [t1, t2]" "length t1 + length t2 \<le> 1000000"
    and "eh_timestamp (batch_parent cd (b_parent_hash b)) < b_timestamp b"
  shows "validate_batch hb lib thr pick cd (seal_slow hb b) = Inr ()
    \<and> tl_gas_limit lib x1 + tl_gas_limit lib x2 > max_batch_gas (b_timestamp b)"
proof -
  have "(tl_gas_limit lib x1 + tl_gas_limit lib x2) mod u64_max = tl_gas_limit lib x1 + tl_gas_limit lib x2 - u64_max"
    using assms(3-5) by (simp add: mod_if)
  hence g: "reduce_sum (map (tl_gas_limit lib) [x1, x2]) = Some (tl_gas_limit lib x1 + tl_gas_limit lib x2 - u64_max)"
    using assms(3,4) reduce_sum_mod[of "map (tl_gas_limit lib) [x1, x2]"] by simp
  have l: "reduce_sum (map length [t1, t2]) = Some (length t1 + length t2)"
    using assms(8) reduce_sum_exact[of "map length [t1, t2]"] by (simp add: u64_max_def)
  have "validate_batch hb lib thr pick cd (seal_slow hb b) = Inr ()"
    unfolding validate_batch_Inr_iff using assms g l
    by (auto simp: seal_slow_def max_batch_size_def max_batch_gas_def intro!: exI[of _ "[x1, x2]"])
  thus ?thesis using assms(5) by (simp add: max_batch_gas_def u64_max_def)
qed

theorem gas_limit_wraps_witness:
  "validate_batch sample_hash sample_lib 10 hd sample_chain (seal_slow sample_hash (sample_batch_of [[2 ^ 63], [2 ^ 63 + 21000]])) = Inr ()
   \<and> tl_gas_limit sample_lib (2 ^ 63) + tl_gas_limit sample_lib (2 ^ 63 + 21000) > max_batch_gas 101"
proof -
  have "b_timestamp (sample_batch_of [[2 ^ 63], [2 ^ 63 + 21000]]) = 101" by (simp add: sample_batch_of_def)
  thus ?thesis
    using gas_limit_wraps[of sample_lib "[2 ^ 63]" "2 ^ 63" "[2 ^ 63 + 21000]" "2 ^ 63 + 21000"
        "sample_batch_of [[2 ^ 63], [2 ^ 63 + 21000]]" sample_chain sample_hash 10 hd]
    by (simp add: sample_lib_def sample_batch_of_def sample_chain_def batch_parent_def u64_max_def)
qed

section \<open>Quorums of workers\<close>

text \<open>C15: a batch that the worker sealed is available: every quorum of authorities contains a correct one whose worker
  stores the batch, provided that the faulty authorities hold less than the validity threshold and that
  a correct worker acknowledges only what its handler of reported batches accepted.\<close>

theorem sealed_batch_available:
  assumes "waiter_wf qw" "worker_seal sb (Some (verify_batch qw evs)) w = (w', Inr ())"
    and "\<And>p. p \<notin> F \<Longrightarrow> acked evs p \<Longrightarrow>
      report_batch (Inr (report_response sh (snd (process_report_batch (vb p) (now p) sb (peer p))))) = Inr ()"
    and "sum (voting_power_by_key (qw_committee qw)) (F \<inter> member_keys (qw_committee qw)) < validity_threshold (qw_committee qw)"
    and "B \<subseteq> member_keys (qw_committee qw)" "quorum_threshold (qw_committee qw) \<le> sum (voting_power_by_key (qw_committee qw)) B"
  shows "\<exists>p\<in>B. p \<notin> F \<and> (p = protocol_key (qw_authority qw) \<and> holds w' (sb_digest sb)
           \<or> holds (fst (process_report_batch (vb p) (now p) sb (peer p))) (sb_digest sb))"
proof -
  obtain Q where Q: "Q \<subseteq> member_keys (qw_committee qw)" "sum (voting_power_by_key (qw_committee qw)) Q \<ge> quorum_threshold (qw_committee qw)"
    "\<forall>p\<in>Q. p = protocol_key (qw_authority qw) \<or> acked evs p"
    using verify_batch_quorum[OF assms(1), of evs] seal_Ok(1)[OF assms(2)] by blast
  have w: "committee_wf (qw_committee qw) \<and> power_fits (qw_committee qw)" using assms(1) by (simp add: waiter_wf_def)
  obtain p where p: "p \<in> Q" "p \<in> B" "p \<notin> F" using kq.quorums_share_correct[OF w Q(1) assms(5) Q(2) assms(6,4)] by blast
  have "holds (fst (process_report_batch (vb p) (now p) sb (peer p))) (sb_digest sb)" if a: "acked evs p"
  proof -
    obtain w1 r where r: "process_report_batch (vb p) (now p) sb (peer p) = (w1, r)" by fastforce
    have "r = Inr ()" using assms(3)[OF p(3) a] r by (cases r) (auto simp: report_batch_def report_response_def)
    thus ?thesis using report_Ok(2)[of "vb p" "now p" sb "peer p" w1] r by simp
  qed
  thus ?thesis using p Q(3) seal_Ok(2)[OF assms(2)] by blast
qed

definition sample_sealed :: sealed_batch where
  "sample_sealed = seal_slow sample_hash (sample_batch_of [[21000]])"

definition sample_replies :: "(bls_pk \<times> batch_reply) list" where
  "sample_replies = [(13, Some (Inl NetworkTimeout)), (12, Some (Inr ())), (14, Some (Inr ()))]"

theorem sealed_batch_available_witness:
  "\<exists>w'. worker_seal sample_sealed (Some (verify_batch sample_waiter sample_replies)) sample_worker = (w', Inr ())
     \<and> (\<exists>p\<in>{12, 13, 14}. p \<notin> {14} \<and> (p = protocol_key (qw_authority sample_waiter) \<and> holds w' (sb_digest sample_sealed)
         \<or> holds (fst (process_report_batch (validate_batch sample_hash sample_lib 10 hd sample_chain) 102 sample_sealed sample_worker))
             (sb_digest sample_sealed)))"
proof -
  have "\<exists>w'. worker_seal sample_sealed (Some (verify_batch sample_waiter sample_replies)) sample_worker = (w', Inr ())"
  proof -
    have "case worker_seal sample_sealed (Some (verify_batch sample_waiter sample_replies)) sample_worker of (w', r) \<Rightarrow> r = Inr ()"
      by code_simp
    thus ?thesis by (auto split: prod.splits)
  qed
  then obtain w' where w': "worker_seal sample_sealed (Some (verify_batch sample_waiter sample_replies)) sample_worker = (w', Inr ())" by blast
  have keys: "member_keys (qw_committee sample_waiter) = set [11, 12, 13, 14]" unfolding member_keys_def
    by (rule arg_cong[where f = set]) code_simp
  have rep: "report_batch (Inr (report_response (\<lambda>e. []) (snd (process_report_batch
      (validate_batch sample_hash sample_lib 10 hd sample_chain) 102 sample_sealed sample_worker)))) = Inr ()" by code_simp
  have pw: "voting_power_by_key (qw_committee sample_waiter) 12 = 1" "voting_power_by_key (qw_committee sample_waiter) 13 = 1"
    "voting_power_by_key (qw_committee sample_waiter) 14 = 1" "quorum_threshold (qw_committee sample_waiter) = 3"
    "validity_threshold (qw_committee sample_waiter) = 2" by code_simp+
  have F: "{14} \<inter> member_keys (qw_committee sample_waiter) = {14}" by (simp add: keys)
  show ?thesis
    using sealed_batch_available[OF sample_waiter_wf w', where F = "{14}" and B = "{12, 13, 14}" and sh = "\<lambda>e. []"
        and vb = "\<lambda>p. validate_batch sample_hash sample_lib 10 hd sample_chain" and now = "\<lambda>p. 102" and peer = "\<lambda>p. sample_worker"] rep
    by (intro exI[of _ w'] conjI[OF w']) (simp add: keys pw F)
qed

text \<open>C35: one peer with stake that rejects a batch makes the wait for a quorum fail when its rejection is counted
  before the acknowledged stake reaches the quorum, whatever the replies before and after it: nothing is
  sealed and the error is that of a rejected batch or of an anti-quorum, the former when only
  acknowledgements came before. The rest of the committee could still accept the batch: the rejected stake
  is subtracted from zero instead of added, and the result exceeds every bound. The comment on the bound
  says that only more stake than it can rule a quorum out. A rejection that arrives after the quorum is
  not counted. The peers together are assumed to hold a quorum, so that the bound itself does not wrap.\<close>

theorem one_rejection_blocks_batch:
  assumes "waiter_wf qw" "p \<in> set (quorum_peers qw)" "0 < voting_power_by_key (qw_committee qw) p"
    and "quorum_threshold (qw_committee qw) \<le> sum_list (map (voting_power_by_key (qw_committee qw)) (quorum_peers qw))"
    and "p \<notin> fst ` set pre"
    and "voting_power (qw_authority qw) + sum_list (map (voting_power_by_key (qw_committee qw)) (acks pre)) < quorum_threshold (qw_committee qw)"
  shows "\<exists>e. worker_seal sb (Some (verify_batch qw (pre @ (p, Some (Inl (RPCError msg))) # evs))) w = (w, Inl e)
    \<and> e \<in> {SealQuorumRejected, SealAntiQuorum}
    \<and> ((\<forall>x\<in>set pre. snd x = Some (Inr ())) \<longrightarrow> e = SealQuorumRejected)"
  using verify_batch_rejected[OF assms, of msg evs] by (auto simp: worker_seal_def)

theorem one_rejection_blocks_batch_witness:
  "worker_seal sample_sealed (Some (verify_batch sample_waiter
     [(12, Some (Inr ())), (14, Some (Inl (RPCError ''no''))), (13, Some (Inr ()))])) sample_worker = (sample_worker, Inl SealQuorumRejected)"
proof -
  have "14 \<in> set (quorum_peers sample_waiter) \<and> 0 < voting_power_by_key (qw_committee sample_waiter) 14
    \<and> quorum_threshold (qw_committee sample_waiter) \<le> sum_list (map (voting_power_by_key (qw_committee sample_waiter)) (quorum_peers sample_waiter))
    \<and> voting_power (qw_authority sample_waiter) + sum_list (map (voting_power_by_key (qw_committee sample_waiter)) (acks [(12, Some (Inr ()))]))
        < quorum_threshold (qw_committee sample_waiter)"
    by code_simp
  thus ?thesis using one_rejection_blocks_batch[OF sample_waiter_wf, of 14 "[(12, Some (Inr ()))]" sample_sealed "''no''" "[(13, Some (Inr ()))]" sample_worker]
    by auto
qed

section \<open>The table of batches\<close>

text \<open>Everything a worker does with its table; a fetch may also be left, or have other requests run, between two attempts.\<close>

inductive worker_step ::
  "(batch \<Rightarrow> block_hash) \<Rightarrow> 'tx tx_lib \<Rightarrow> nat \<Rightarrow> (batch_validation_error list \<Rightarrow> batch_validation_error) \<Rightarrow> worker \<Rightarrow> worker \<Rightarrow> bool"
  for hb lib thr pick where
  seal_own: "worker_seal (seal_slow hb b) attest w = (w', r) \<Longrightarrow> worker_step hb lib thr pick w w'"
| report: "process_report_batch (validate_batch hb lib thr pick cd) now sb w = (w', r) \<Longrightarrow> worker_step hb lib thr pick w w'"
| gossip: "worker_gossip hb msg reply w = (w', r) \<Longrightarrow> worker_step hb lib thr pick w w'"
| sync: "synchronize hb (validate_batch hb lib thr pick cd) certified now ds request w = (w', r) \<Longrightarrow> worker_step hb lib thr pick w w'"
| fetched: "fetch hb attempts ds [] w = Fetched m w' \<Longrightarrow> worker_step hb lib thr pick w w'"
| fetching: "fetch hb attempts ds [] w = FetchWaits w' \<Longrightarrow> worker_step hb lib thr pick w w'"
| outage: "worker_step hb lib thr pick w (w\<lparr> wk_db_ok := ok, wk_primary_set := connected \<rparr>)"

interpretation wk: step_system "\<lambda>w. wk_store w = []" "worker_step hb lib thr pick" "batches_typed hb"
proof
  show "wk_store w = [] \<Longrightarrow> batches_typed hb w" for w by (simp add: batches_typed_def bt_sorted_Nil)
next
  fix w w' assume t: "batches_typed hb w" and "worker_step hb lib thr pick w w'"
  from this(2) show "batches_typed hb w'"
  proof cases
    case seal_own thus ?thesis using t by (rule seal_typed)
  next
    case report thus ?thesis using t by (rule report_typed) (simp add: validate_batch_Inr_iff)
  next
    case gossip thus ?thesis using t by (rule gossip_typed)
  next
    case sync thus ?thesis using t by (rule synchronize_typed)
  next
    case (fetched attempts ds m)
    thus ?thesis using fetch_sound[of hb attempts ds "[]" w m w'] t by simp
  next
    case fetching thus ?thesis using fetch_waits_typed[OF _ t] by simp
  next
    case outage thus ?thesis using t by (simp add: batches_typed_def)
  qed
qed

text \<open>C28: every entry of a worker's table is well formed: a batch is stored under its own digest, whether it was built here,
  reported or gossiped by a peer, or fetched, and it carries no time of receipt, because the field that
  is set before storing is not serialised.\<close>

theorem batches_stored_under_digest:
  assumes "wk_store w = []" "(worker_step hb lib thr pick)\<^sup>*\<^sup>* w w'" "map_of (wk_store w') d = Some b"
  shows "batch_digest hb b = d \<and> b_received_at b = None"
proof -
  have "batches_typed hb w'" using wk.inv_reachable[OF assms(1,2)] .
  hence b: "batch_digest hb b = d" "encoded b = b" using assms(3) by (simp_all add: batches_typed_def)
  have "b_received_at (encoded b) = None" by (simp add: encoded_def)
  thus ?thesis using b by simp
qed

theorem batches_stored_under_digest_witness:
  "\<exists>w' b. (worker_step sample_hash sample_lib 10 hd)\<^sup>*\<^sup>* sample_worker w' \<and> map_of (wk_store w') (sb_digest sample_sealed) = Some b \<and> batch_digest sample_hash b = sb_digest sample_sealed \<and> b_received_at b = None"
proof -
  define v where "v = validate_batch sample_hash sample_lib 10 hd sample_chain"
  have "case process_report_batch v 102 sample_sealed sample_worker of (w', r) \<Rightarrow> map_of (wk_store w') (sb_digest sample_sealed) \<noteq> None"
    unfolding v_def by code_simp
  then obtain w' r b where w': "process_report_batch v 102 sample_sealed sample_worker = (w', r)"
    "map_of (wk_store w') (sb_digest sample_sealed) = Some b" by (auto split: prod.splits)
  have reach: "(worker_step sample_hash sample_lib 10 hd)\<^sup>*\<^sup>* sample_worker w'"
    using w'(1) unfolding v_def by (intro r_into_rtranclp worker_step.report)
  from batches_stored_under_digest[OF _ reach w'(2)]
  have "batch_digest sample_hash b = sb_digest sample_sealed \<and> b_received_at b = None" by (simp add: sample_worker_def)
  thus ?thesis using reach w'(2) by blast
qed

section \<open>Fetching\<close>

text \<open>C26: fetching batches returns once every batch is stored or was in the answer of some peer, and then it returns exactly
  the batches that were asked for, each with the right digest whatever else the peers sent, and all of
  them are in the table afterwards.\<close>

theorem fetch_returns_wanted:
  assumes "batches_typed hb w" "wk_db_ok w" "\<And>d. d \<in> set ds \<Longrightarrow> holds w d \<or> d \<in> answered hb attempts"
  shows "\<exists>m w'. fetch hb attempts ds [] w = Fetched m w' \<and> dom (map_of m) = set ds
    \<and> (\<forall>d b. map_of m d = Some b \<longrightarrow> batch_digest hb b = d \<and> holds w' d)"
proof -
  have "\<forall>d\<in>set ds. holds w d \<or> d \<in> answered hb attempts" using assms(3) by blast
  then obtain m w' where f: "fetch hb attempts ds [] w = Fetched m w'" using fetch_returns[OF assms(2)] by blast
  have "batches_typed hb w' \<and> digests_right hb m \<and> dom (map_of m) = dom (map_of ([] :: (block_hash, batch) hash_map)) \<union> set ds \<and> (\<forall>d\<in>dom (map_of m). holds w' d)"
    by (rule fetch_sound[OF f assms(1)]) simp_all
  hence r: "digests_right hb m" "dom (map_of m) = set ds" "\<forall>d\<in>dom (map_of m). holds w' d" by simp_all
  hence "\<forall>d b. map_of m d = Some b \<longrightarrow> batch_digest hb b = d \<and> holds w' d" by blast
  thus ?thesis using f r(2) by blast
qed

theorem fetch_returns_wanted_witness:
  "\<exists>m w'. fetch sample_hash [(5, Inl NetworkTimeout), (6, Inr [sample_batch_of [[9]], sample_batch_of [[21000]]])] [sb_digest sample_sealed] [] sample_worker
       = Fetched m w' \<and> dom (map_of m) = {sb_digest sample_sealed}"
proof -
  have t: "batches_typed sample_hash sample_worker" by (simp add: batches_typed_def sample_worker_def bt_sorted_Nil)
  have ok: "wk_db_ok sample_worker" by (simp add: sample_worker_def)
  have a: "sb_digest sample_sealed \<in> answered sample_hash [(5, Inl NetworkTimeout), (6, Inr [sample_batch_of [[9]], sample_batch_of [[21000]]])]"
    unfolding answered_def sample_sealed_def seal_slow_def by auto
  show ?thesis
    using fetch_returns_wanted[OF t ok, of "[sb_digest sample_sealed]"
        "[(5, Inl NetworkTimeout), (6, Inr [sample_batch_of [[9]], sample_batch_of [[21000]]])]"] a by auto
qed

end
