(* ===== verification/Cert_Exchange.thy ===== *)
theory Cert_Exchange
  imports Vote_Handler Network_Error
begin

text \<open>
  Fetching the certificates that a primary misses: the request with its bounds
  (crates/network-types/src/request.rs and crates/consensus/primary/src/network/message.rs), the collector with
  which a peer answers it (state_sync/cert_collector.rs and network/handler.rs), and the fetcher
  (certificate_fetcher.rs).

  A RoaringBitmap is the ascending list of its elements; its serialisation is the record \<open>roaring\<close>. The
  heap of the collector is a list in ascending order. Whether the time for reading is used up is an
  argument of every call of the iterator.
\<close>

section \<open>Requests\<close>

record roaring =
  rl_serialize :: "nat list \<Rightarrow> nat list"
  rl_deserialize :: "nat list \<Rightarrow> (string, nat list) result"

type_synonym round_sets = "(authority_id, round list) btree_map"

record missing_certificates_request =
  mr_exclusive_lower_bound :: round
  mr_skip_rounds :: "(authority_id \<times> nat list) list"
  mr_max_items :: nat

definition default_request :: missing_certificates_request where
  "default_request = \<lparr> mr_exclusive_lower_bound = 0, mr_skip_rounds = [], mr_max_items = 0 \<rparr>"

definition set_bounds :: "roaring \<Rightarrow> round \<Rightarrow> round_sets \<Rightarrow> missing_certificates_request \<Rightarrow> missing_certificates_request" where
  "set_bounds rl gc skip req =
     req\<lparr> mr_exclusive_lower_bound := gc,
          mr_skip_rounds := map (\<lambda>(k, rs). (k, rl_serialize rl (bs_collect (map (\<lambda>v. u32_sub v gc) rs)))) skip \<rparr>"

definition set_max_items :: "nat \<Rightarrow> missing_certificates_request \<Rightarrow> missing_certificates_request" where
  "set_max_items n req = req\<lparr> mr_max_items := n \<rparr>"

definition get_bounds :: "roaring \<Rightarrow> missing_certificates_request \<Rightarrow> (network_error, round \<times> round_sets) result" where
  "get_bounds rl req =
     (case try_map (\<lambda>(k, bytes). case rl_deserialize rl bytes of
                Inl e \<Rightarrow> Inl StdIo
              | Inr rs \<Rightarrow> Inr (k, bs_collect (map (u32_add (mr_exclusive_lower_bound req)) rs))) (mr_skip_rounds req) of
        Inl e \<Rightarrow> Inl e
      | Inr es \<Rightarrow> Inr (mr_exclusive_lower_bound req, bt_collect es))"

section \<open>The collector\<close>

record collector =
  cl_queue :: "(round \<times> authority_id) list"
  cl_skip_rounds :: round_sets
  cl_max_items :: nat
  cl_items_returned :: nat

partial_function (option) find_next_round :: "cert_store \<Rightarrow> authority_id \<Rightarrow> round \<Rightarrow> round list \<Rightarrow> round option option" where
  "find_next_round st origin current skip =
     (case next_round_number st origin current of
        None \<Rightarrow> Some None
      | Some r \<Rightarrow> if r \<notin> set skip then Some (Some r) else find_next_round st origin r skip)"

declare find_next_round.simps [code]

text \<open>The collector of a request: the first round of every authority that is not skipped.\<close>

fun start_queue ::
  "nat \<Rightarrow> cert_store \<Rightarrow> round \<Rightarrow> round_sets \<Rightarrow> (round \<times> authority_id) list
     \<Rightarrow> (network_error, (round \<times> authority_id) list) result option" where
  "start_queue max_skip st lower [] q = Some (Inr q)"
| "start_queue max_skip st lower ((origin, rounds) # es) q =
     (if length rounds > max_skip then Some (Inl (InvalidRequest ''Request for rounds out of bounds''))
      else case find_next_round st origin lower rounds of
        None \<Rightarrow> None
      | Some None \<Rightarrow> start_queue max_skip st lower es q
      | Some (Some r) \<Rightarrow> start_queue max_skip st lower es (insort (r, origin) q))"

definition collector_new ::
  "roaring \<Rightarrow> nat \<Rightarrow> cert_store \<Rightarrow> missing_certificates_request \<Rightarrow> (network_error, collector) result option" where
  "collector_new rl max_skip st req =
     (case get_bounds rl req of
        Inl e \<Rightarrow> Some (Inl e)
      | Inr (lower, skip) \<Rightarrow>
          (case start_queue max_skip st lower skip [] of
             None \<Rightarrow> None
           | Some (Inl e) \<Rightarrow> Some (Inl e)
           | Some (Inr q) \<Rightarrow>
               Some (Inr \<lparr> cl_queue = q, cl_skip_rounds = skip, cl_max_items = mr_max_items req, cl_items_returned = 0 \<rparr>)))"

fun next_certificate ::
  "cert_store \<Rightarrow> round_sets \<Rightarrow> (round \<times> authority_id) list
     \<Rightarrow> ((round \<times> authority_id) list \<times> (network_error, certificate option) result) option" where
  "next_certificate st skip [] = Some ([], Inr None)"
| "next_certificate st skip ((r, origin) # q) =
     (case read_by_index st origin r of
        None \<Rightarrow> next_certificate st skip q
      | Some x \<Rightarrow>
          (case map_of skip origin of
             None \<Rightarrow> Some (q, Inl (Internal ''failed to retrieve authority from skipped rounds''))
           | Some rounds \<Rightarrow>
               (case find_next_round st origin r rounds of
                  None \<Rightarrow> None
                | Some None \<Rightarrow> Some (q, Inr (Some x))
                | Some (Some r') \<Rightarrow> Some (insort (r', origin) q, Inr (Some x)))))"

definition max_limits_reached :: "bool \<Rightarrow> collector \<Rightarrow> bool" where
  "max_limits_reached expired cl = (cl_items_returned cl \<ge> cl_max_items cl \<or> expired)"

definition collector_next ::
  "cert_store \<Rightarrow> bool \<Rightarrow> collector \<Rightarrow> (collector \<times> (network_error, certificate) result option) option" where
  "collector_next st expired cl =
     (if max_limits_reached expired cl then Some (cl, None)
      else case next_certificate st (cl_skip_rounds cl) (cl_queue cl) of
        None \<Rightarrow> None
      | Some (q, Inr (Some x)) \<Rightarrow> Some (cl\<lparr> cl_queue := q, cl_items_returned := cl_items_returned cl + 1 \<rparr>, Some (Inr x))
      | Some (q, Inr None) \<Rightarrow> Some (cl\<lparr> cl_queue := q \<rparr>, None)
      | Some (q, Inl e) \<Rightarrow> Some (cl\<lparr> cl_queue := q \<rparr>, Some (Inl e)))"

text \<open>The time to read is bounded, so finitely many calls are made before it is used up.\<close>

fun collect_missing ::
  "cert_store \<Rightarrow> bool list \<Rightarrow> collector \<Rightarrow> (network_error, certificate list) result option" where
  "collect_missing st [] cl = Some (Inr [])"
| "collect_missing st (expired # es) cl =
     (case collector_next st expired cl of
        None \<Rightarrow> None
      | Some (cl', None) \<Rightarrow> Some (Inr [])
      | Some (cl', Some (Inl e)) \<Rightarrow> Some (Inl e)
      | Some (cl', Some (Inr x)) \<Rightarrow>
          (case collect_missing st es cl' of
             None \<Rightarrow> None | Some (Inl e) \<Rightarrow> Some (Inl e) | Some (Inr xs) \<Rightarrow> Some (Inr (x # xs))))"

text \<open>Room for \<open>max_items\<close> certificates is reserved first, which panics when more is asked for than can be allocated.\<close>

definition retrieve_missing_certs ::
  "roaring \<Rightarrow> nat \<Rightarrow> nat \<Rightarrow> cert_store \<Rightarrow> bool list \<Rightarrow> missing_certificates_request \<Rightarrow> (network_error, primary_response) result option" where
  "retrieve_missing_certs rl capacity max_skip st clock req =
     (if mr_max_items req > capacity then None
      else case collector_new rl max_skip st req of
        None \<Rightarrow> None
      | Some (Inl e) \<Rightarrow> Some (Inl e)
      | Some (Inr cl) \<Rightarrow>
          (case collect_missing st clock cl of
             None \<Rightarrow> None | Some (Inl e) \<Rightarrow> Some (Inl e) | Some (Inr xs) \<Rightarrow> Some (Inr (RequestedCertificates xs))))"

section \<open>The fetcher\<close>

definition MAX_CERTIFICATES_TO_FETCH :: nat where
  "MAX_CERTIFICATES_TO_FETCH = 2000"

record cert_fetcher =
  cf_committee :: committee
  cf_targets :: "(authority_id, round) btree_map"
  cf_task :: "(round \<times> round_sets) option"

definition add_written :: "round \<Rightarrow> authority_id \<Rightarrow> round_sets \<Rightarrow> round_sets" where
  "add_written r origin m = bt_insert origin (bs_insert r (case map_of m origin of Some rs \<Rightarrow> rs | None \<Rightarrow> [])) m"

definition written_rounds :: "committee \<Rightarrow> cert_store \<Rightarrow> round \<Rightarrow> round_sets" where
  "written_rounds c st gc =
     fold (\<lambda>(r, origins). fold (add_written r) origins) (origins_after_round st (u32_add gc 1))
       (fold (\<lambda>a. bt_insert (auth_id a) []) (committee_authorities c) [])"

definition last_written :: "round \<Rightarrow> round_sets \<Rightarrow> authority_id \<Rightarrow> round" where
  "last_written gc m origin = (case map_of m origin of Some rs \<Rightarrow> if rs = [] then gc else last rs | None \<Rightarrow> gc)"

definition kickstart :: "cert_store \<Rightarrow> round \<Rightarrow> cert_fetcher \<Rightarrow> cert_fetcher" where
  "kickstart st gc f =
     (let written = written_rounds (cf_committee f) st gc;
          targets = bt_retain (\<lambda>origin target. last_written gc written origin < target) (cf_targets f)
      in if targets = [] then f\<lparr> cf_targets := targets \<rparr>
         else f\<lparr> cf_targets := targets, cf_task := Some (gc, written) \<rparr>)"

text \<open>A command, or the end of the task that fetches.\<close>

datatype fetcher_event = FetchCommand fetcher_command | TaskJoined

definition fetcher_step :: "cert_store \<Rightarrow> round \<Rightarrow> fetcher_event \<Rightarrow> cert_fetcher \<Rightarrow> cert_fetcher" where
  "fetcher_step st gc ev f =
     (case ev of
        FetchCommand Kick \<Rightarrow> if cf_task f = None then kickstart st gc f else f
      | FetchCommand (Ancestors x) \<Rightarrow>
          (let h = c_header x
           in if h_epoch h \<noteq> c_epoch (cf_committee f) then f
              else if (case map_of (cf_targets f) (h_author h) of Some r \<Rightarrow> h_round h \<le> r | None \<Rightarrow> False) then f
              else if h_round h \<le> (case last_round_number st (h_author h) of Some r \<Rightarrow> r | None \<Rightarrow> 0) then f
              else
                (let f1 = f\<lparr> cf_targets := bt_insert (h_author h) (h_round h) (cf_targets f) \<rparr>
                 in if cf_task f1 = None then kickstart st gc f1 else f1))
      | TaskJoined \<Rightarrow> if cf_task f = None then f else kickstart st gc (f\<lparr> cf_task := None \<rparr>))"

text \<open>Peers are asked one after the other, a new one whenever an answer or the end of an interval arrives.\<close>

datatype fetch_event = PeerReply "(p2p_error, certificate list) result" | IntervalElapsed

fun fetch_certificates_helper :: "nat \<Rightarrow> nat \<Rightarrow> fetch_event list \<Rightarrow> certificate list option" where
  "fetch_certificates_helper peers inflight [] = None"
| "fetch_certificates_helper peers inflight (ev # evs) =
     (let inflight1 = (if peers > 0 then inflight + 1 else inflight); peers1 = peers - 1
      in if inflight1 = 0 then None
         else case ev of
           IntervalElapsed \<Rightarrow> fetch_certificates_helper peers1 inflight1 evs
         | PeerReply (Inr (x # xs)) \<Rightarrow> Some (x # xs)
         | PeerReply _ \<Rightarrow> fetch_certificates_helper peers1 (inflight1 - 1) evs)"

text \<open>What a handle makes of the response to a request for certificates.\<close>

definition fetch_certificates :: "(p2p_error, primary_response) result \<Rightarrow> (p2p_error, certificate list) result" where
  "fetch_certificates res =
     (case res of
        Inl e \<Rightarrow> Inl e
      | Inr (RequestedCertificates xs) \<Rightarrow> Inr xs
      | Inr (ErrorResponse s) \<Rightarrow> Inl (RPCError s)
      | Inr _ \<Rightarrow> Inl (RPCError ''Got wrong response, not a certificate!''))"

definition process_certificates_helper :: "node \<Rightarrow> certificate list \<Rightarrow> validator \<Rightarrow> unit sv_result option" where
  "process_certificates_helper nd xs s =
     (if length xs > MAX_CERTIFICATES_TO_FETCH
      then Some (s, Inl (MTooManyFetchedCertificatesReturned (length xs) MAX_CERTIFICATES_TO_FETCH))
      else case try_map validate_received xs of
        Inl e \<Rightarrow> Some (s, Inl (MCertificate e))
      | Inr ys \<Rightarrow> process_fetched_certificates_in_parallel nd ys s)"

definition fetch_request :: "roaring \<Rightarrow> round \<Rightarrow> round_sets \<Rightarrow> missing_certificates_request" where
  "fetch_request rl gc written = set_max_items MAX_CERTIFICATES_TO_FETCH (set_bounds rl gc written default_request)"

definition run_fetch_task :: "node \<Rightarrow> fetch_event list \<Rightarrow> validator \<Rightarrow> unit sv_result option" where
  "run_fetch_task nd evs s =
     (case fetch_certificates_helper (length (others_primaries_by_id (nd_committee nd) (nd_self nd))) 0 evs of
        None \<Rightarrow> Some (s, Inl MNoCertificateFetched)
      | Some xs \<Rightarrow> process_certificates_helper nd xs s)"

end
