(* ===== verification/Cert_Exchange_Proofs.thy ===== *)
theory Cert_Exchange_Proofs
  imports Cert_Exchange
begin

text \<open>
  Correctness of the exchange of missing certificates: the bounds survive the message, the collector returns
  the certificates that were asked for in the order of their rounds, and so the answer to a fetcher is
  what its store lacks.
\<close>

section \<open>The next round\<close>

abbreviation at :: "cert_store \<Rightarrow> authority_id \<Rightarrow> round \<Rightarrow> bool" where
  "at st a r \<equiv> map_of (cs_by_origin st) (a, r) \<noteq> None"

definition rounds_bounded :: "cert_store \<Rightarrow> bool" where
  "rounds_bounded st \<longleftrightarrow> (\<forall>a r. at st a r \<longrightarrow> r + 1 < u32_max)"

lemma dropWhile_keys:
  fixes m :: "('k::linorder, 'v) btree_map"
  assumes "bt_sorted m"
  shows "dropWhile (\<lambda>e. fst e < k) m = filter (\<lambda>e. k \<le> fst e) m"
  using assms
proof (induction m)
  case (Cons e m)
  have s: "bt_sorted m" "\<forall>x\<in>set m. fst e < fst x" using Cons.prems by (auto simp: bt_sorted_def)
  show ?case
  proof (cases "fst e < k")
    case False
    hence "filter (\<lambda>e. k \<le> fst e) m = m" using s(2) by (auto simp: filter_id_conv)
    thus ?thesis using False by simp
  qed (use Cons.IH[OF s(1)] in simp)
qed simp

lemma next_round_number_spec:
  assumes "bt_sorted (cs_by_origin st)" "r + 1 < u32_max"
  shows "next_round_number st a r = Some r' \<Longrightarrow> at st a r' \<and> r < r' \<and> (\<forall>x. at st a x \<longrightarrow> r < x \<longrightarrow> r' \<le> x)"
    "next_round_number st a r = None \<Longrightarrow> at st a x \<Longrightarrow> x \<le> r"
proof -
  let ?m = "cs_by_origin st" and ?k = "(a, r + 1)"
  have dw: "dropWhile (\<lambda>e. fst e < (a, u32_add r 1)) ?m = filter (\<lambda>e. ?k \<le> fst e) ?m"
    using assms by (simp add: dropWhile_keys u64_simps)
  have mem: "at st a x \<longleftrightarrow> (a, x) \<in> fst ` set ?m" for x by (simp add: map_of_eq_None_iff)
  have srt: "sorted_wrt (<) (map fst (filter (\<lambda>e. ?k \<le> fst e) ?m))" using bt_sorted_filter[OF assms(1)] by (simp add: bt_sorted_def)
  have in_f: "\<exists>e\<in>set (filter (\<lambda>e. ?k \<le> fst e) ?m). fst e = (a, x)" if "at st a x" "r < x" for x
  proof -
    have "(a, x) \<in> fst ` set ?m" using that(1) mem by blast
    then obtain e where "e \<in> set ?m" "fst e = (a, x)" by (rule imageE) simp
    thus ?thesis using that(2) by (intro bexI[of _ e]) (auto simp: less_eq_prod_def)
  qed
  show "at st a r' \<and> r < r' \<and> (\<forall>x. at st a x \<longrightarrow> r < x \<longrightarrow> r' \<le> x)" if n: "next_round_number st a r = Some r'"
  proof -
    obtain d es where f: "filter (\<lambda>e. ?k \<le> fst e) ?m = ((a, r'), d) # es"
      using n[unfolded next_round_number_def dw] by (auto split: list.splits if_splits)
    have "((a, r'), d) \<in> set (filter (\<lambda>e. ?k \<le> fst e) ?m)" using f by simp
    hence 1: "((a, r'), d) \<in> set ?m" "?k \<le> (a, r')" by simp_all
    have 2: "at st a r'" unfolding mem using 1(1) by (rule rev_image_eqI) simp
    have 3: "r < r'" using 1(2) by (simp add: less_eq_prod_def)
    have "r' \<le> x" if x: "at st a x" "r < x" for x
    proof -
      obtain e where "e \<in> set (((a, r'), d) # es)" "fst e = (a, x)" using in_f[OF x] unfolding f by blast
      moreover have "\<forall>e\<in>set es. (a, r') < fst e" using srt f by simp
      ultimately have "(a, r') \<le> (a, x)" by (cases "e = ((a, r'), d)") (simp, metis less_imp_le set_ConsD)
      thus ?thesis by (simp add: less_eq_prod_def)
    qed
    thus ?thesis using 2 3 by blast
  qed
  show "x \<le> r" if n: "next_round_number st a r = None" and x: "at st a x"
  proof (rule ccontr)
    assume "\<not> x \<le> r"
    then obtain e where e: "e \<in> set (filter (\<lambda>e. ?k \<le> fst e) ?m)" "fst e = (a, x)" using in_f[OF x] by auto
    then obtain e0 es where f: "filter (\<lambda>e. ?k \<le> fst e) ?m = e0 # es" by (metis list.set_cases)
    have "fst (fst e0) \<noteq> a" using n[unfolded next_round_number_def dw f] by (auto split: prod.splits if_splits)
    moreover have "e0 \<in> set (filter (\<lambda>e. ?k \<le> fst e) ?m)" using f by simp
    hence "?k \<le> fst e0" by simp
    moreover have "\<forall>y\<in>set es. fst e0 < fst y" using srt f by simp
    hence "fst e0 \<le> (a, x)" using e unfolding f by (cases "e = e0") (simp, metis less_imp_le set_ConsD)
    ultimately show False by (auto simp: less_eq_prod_def)
  qed
qed

lemma finite_at: "finite {r. at st a r}"
proof -
  have "{r. at st a r} \<subseteq> snd ` fst ` set (cs_by_origin st)"
  proof
    fix r assume "r \<in> {r. at st a r}"
    hence "(a, r) \<in> fst ` set (cs_by_origin st)" by (simp add: map_of_eq_None_iff)
    thus "r \<in> snd ` fst ` set (cs_by_origin st)" by (metis imageI snd_conv)
  qed
  thus ?thesis by (rule finite_subset) simp
qed

definition next_wanted :: "cert_store \<Rightarrow> authority_id \<Rightarrow> round \<Rightarrow> round list \<Rightarrow> round option \<Rightarrow> bool" where
  "next_wanted st a r skip res \<longleftrightarrow>
     (case res of
        None \<Rightarrow> \<forall>x. at st a x \<and> r < x \<longrightarrow> x \<in> set skip
      | Some r' \<Rightarrow> at st a r' \<and> r < r' \<and> r' \<notin> set skip \<and> (\<forall>x. at st a x \<and> r < x \<and> x < r' \<longrightarrow> x \<in> set skip))"

lemma next_wanted_reached:
  assumes "next_wanted st a r skip res"
  shows "at st a x \<and> x \<notin> set skip \<and> (\<exists>r'. res = Some r' \<and> r' \<le> x) \<longleftrightarrow> at st a x \<and> x \<notin> set skip \<and> r < x"
proof (cases res)
  case None
  thus ?thesis using assms unfolding next_wanted_def by fastforce
next
  case (Some r')
  hence w: "r < r'" "\<forall>x. at st a x \<and> r < x \<and> x < r' \<longrightarrow> x \<in> set skip" using assms by (simp_all add: next_wanted_def)
  show ?thesis
  proof
    assume "at st a x \<and> x \<notin> set skip \<and> r < x"
    hence "\<not> x < r'" using w(2) by blast
    thus "at st a x \<and> x \<notin> set skip \<and> (\<exists>r'. res = Some r' \<and> r' \<le> x)" using Some \<open>at st a x \<and> _\<close> by simp
  qed (use w(1) Some in auto)
qed

lemma find_next_round_spec:
  assumes "bt_sorted (cs_by_origin st)" "rounds_bounded st" "r + 1 < u32_max"
  shows "\<exists>res. find_next_round st a r skip = Some res \<and> next_wanted st a r skip res"
  using assms(3)
proof (induction "card {x. at st a x \<and> r < x}" arbitrary: r rule: less_induct)
  case less
  show ?case
  proof (cases "next_round_number st a r")
    case None
    hence "next_wanted st a r skip None"
      using next_round_number_spec(2)[OF assms(1) less.prems None] by (force simp: next_wanted_def)
    thus ?thesis using None by (simp add: find_next_round.simps[of st a r])
  next
    case (Some r')
    note sp = next_round_number_spec(1)[OF assms(1) less.prems Some]
    show ?thesis
    proof (cases "r' \<in> set skip")
      case False
      hence "next_wanted st a r skip (Some r')" using sp by (force simp: next_wanted_def)
      thus ?thesis using Some False by (simp add: find_next_round.simps[of st a r])
    next
      case True
      have "{x. at st a x \<and> r' < x} \<subset> {x. at st a x \<and> r < x}" using sp by fastforce
      hence "card {x. at st a x \<and> r' < x} < card {x. at st a x \<and> r < x}"
        by (intro psubset_card_mono) (use finite_at[of st a] in \<open>auto intro: rev_finite_subset\<close>)
      moreover have "r' + 1 < u32_max" using sp assms(2) unfolding rounds_bounded_def by blast
      ultimately obtain res where res: "find_next_round st a r' skip = Some res" "next_wanted st a r' skip res"
        using less.hyps by blast
      have "x \<in> set skip" if "at st a x" "r < x" "x \<le> r'" for x using sp that True by (metis le_antisym)
      hence "next_wanted st a r skip res" using res(2) sp
        unfolding next_wanted_def by (cases res) (auto, (metis not_less less_trans)+)
      thus ?thesis using Some True res(1) by (simp add: find_next_round.simps[of st a r])
    qed
  qed
qed

section \<open>The collector\<close>

text \<open>The index leads from every origin and round to a certificate of them.\<close>

definition index_reads :: "cert_store \<Rightarrow> bool" where
  "index_reads st \<longleftrightarrow> (\<forall>a r. at st a r \<longrightarrow> read_by_index st a r \<noteq> None)"

abbreviation skips :: "round_sets \<Rightarrow> authority_id \<Rightarrow> round set" where
  "skips skip a \<equiv> set (the (map_of skip a))"

text \<open>What a queue still has to return, and what is true of a queue.\<close>

definition pending :: "cert_store \<Rightarrow> round_sets \<Rightarrow> (round \<times> authority_id) list \<Rightarrow> (round \<times> authority_id) set" where
  "pending st skip q = {(r, a). at st a r \<and> r \<notin> skips skip a \<and> (\<exists>r0. (r0, a) \<in> set q \<and> r0 \<le> r)}"

definition queue_ok :: "cert_store \<Rightarrow> round_sets \<Rightarrow> (round \<times> authority_id) list \<Rightarrow> bool" where
  "queue_ok st skip q \<longleftrightarrow> sorted q \<and> distinct (map snd q)
     \<and> (\<forall>(r, a)\<in>set q. at st a r \<and> map_of skip a \<noteq> None \<and> r \<notin> skips skip a)"

lemma finite_pending: "finite (pending st skip q)"
proof -
  have "pending st skip q \<subseteq> (\<Union>a\<in>snd ` set q. (\<lambda>r. (r, a)) ` {r. at st a r})" unfolding pending_def by force
  thus ?thesis by (rule finite_subset) (intro finite_UN_I finite_imageI finite_at, simp)
qed

lemma pending_min:
  assumes "queue_ok st skip ((r, a) # q)"
  shows "(r, a) \<in> pending st skip ((r, a) # q)" "k \<in> pending st skip ((r, a) # q) \<Longrightarrow> (r, a) \<le> k"
proof -
  show "(r, a) \<in> pending st skip ((r, a) # q)" using assms by (auto simp: pending_def queue_ok_def)
  show "(r, a) \<le> k" if k: "k \<in> pending st skip ((r, a) # q)"
  proof -
    obtain r1 b r0 where kb: "k = (r1, b)" "(r0, b) \<in> set ((r, a) # q)" "r0 \<le> r1" using k by (auto simp: pending_def)
    have "\<forall>x\<in>set q. (r, a) \<le> x" using assms by (simp add: queue_ok_def)
    hence "(r, a) \<le> (r0, b)" using kb(2) by auto
    also have "(r0, b) \<le> k" using kb(1,3) by (simp add: less_eq_prod_def)
    finally show ?thesis .
  qed
qed

lemma pop_queue:
  assumes "queue_ok st skip ((r, a) # q)" "next_wanted st a r (the (map_of skip a)) res"
  defines "q' \<equiv> (case res of None \<Rightarrow> q | Some r' \<Rightarrow> insort (r', a) q)"
  shows "queue_ok st skip q'" "pending st skip q' = pending st skip ((r, a) # q) - {(r, a)}"
proof -
  have q: "sorted q" "distinct (map snd q)" "a \<notin> snd ` set q" "\<forall>(r, a)\<in>set q. at st a r \<and> map_of skip a \<noteq> None \<and> r \<notin> skips skip a"
    "map_of skip a \<noteq> None" using assms(1) by (auto simp: queue_ok_def)
  show "queue_ok st skip q'"
    using q assms(2) by (cases res) (auto simp: q'_def queue_ok_def next_wanted_def sorted_insort set_insort_key distinct_map
        distinct_insort inj_on_def image_iff)
  have other: "(r0, b) \<in> set q' \<longleftrightarrow> (r0, b) \<in> set ((r, a) # q)" if "b \<noteq> a" for r0 b
    using that by (cases res) (auto simp: q'_def set_insort_key)
  have own: "(\<exists>r0. (r0, a) \<in> set q' \<and> r0 \<le> x) \<longleftrightarrow> (\<exists>r'. res = Some r' \<and> r' \<le> x)" for x
    using q(3) by (cases res) (force simp: q'_def set_insort_key image_iff)+
  have own0: "(\<exists>r0. (r0, a) \<in> set ((r, a) # q) \<and> r0 \<le> x) \<longleftrightarrow> r \<le> x" for x using q(3) by force
  have w: "at st a x \<and> x \<notin> skips skip a \<and> (\<exists>r'. res = Some r' \<and> r' \<le> x) \<longleftrightarrow> at st a x \<and> x \<notin> skips skip a \<and> r < x" for x
    by (rule next_wanted_reached[OF assms(2)])
  show "pending st skip q' = pending st skip ((r, a) # q) - {(r, a)}"
  proof (rule set_eqI)
    fix k :: "round \<times> authority_id"
    obtain x b where k: "k = (x, b)" by (cases k)
    show "k \<in> pending st skip q' \<longleftrightarrow> k \<in> pending st skip ((r, a) # q) - {(r, a)}"
    proof (cases "b = a")
      case True
      have "k \<in> pending st skip q' \<longleftrightarrow> at st a x \<and> x \<notin> skips skip a \<and> r < x" using w[of x] own[of x] by (simp add: pending_def k True)
      moreover have "k \<in> pending st skip ((r, a) # q) \<longleftrightarrow> at st a x \<and> x \<notin> skips skip a \<and> r \<le> x"
        using own0[of x] by (simp add: pending_def k True)
      ultimately show ?thesis by (auto simp: k True)
    next
      case False
      thus ?thesis using other by (auto simp: pending_def k)
    qed
  qed
qed

lemma next_certificate_spec:
  assumes "bt_sorted (cs_by_origin st)" "rounds_bounded st" "index_reads st" "queue_ok st skip ((r, a) # q)"
  shows "\<exists>q' x. next_certificate st skip ((r, a) # q) = Some (q', Inr (Some x)) \<and> read_by_index st a r = Some x
    \<and> queue_ok st skip q' \<and> pending st skip q' = pending st skip ((r, a) # q) - {(r, a)}"
proof -
  have a: "at st a r" "map_of skip a \<noteq> None" using assms(4) by (auto simp: queue_ok_def)
  obtain rs where rs: "map_of skip a = Some rs" using a(2) by blast
  obtain x where x: "read_by_index st a r = Some x" using assms(3) a(1) unfolding index_reads_def by blast
  have "r + 1 < u32_max" using assms(2) a(1) unfolding rounds_bounded_def by blast
  then obtain res where res: "find_next_round st a r rs = Some res" "next_wanted st a r rs res"
    using find_next_round_spec[OF assms(1,2)] by blast
  have rs': "next_wanted st a r (the (map_of skip a)) res" using res(2) rs by simp
  show ?thesis using pop_queue[OF assms(4) rs'] x rs res(1) by (cases res) auto
qed

lemma collect_missing_spec:
  assumes "bt_sorted (cs_by_origin st)" "rounds_bounded st" "index_reads st"
    and "queue_ok st (cl_skip_rounds cl) (cl_queue cl)" "cl_items_returned cl \<le> cl_max_items cl"
  shows "collect_missing st (replicate n False) cl = Some (Inr (map (\<lambda>(r, a). the (read_by_index st a r))
    (take (min n (cl_max_items cl - cl_items_returned cl)) (sorted_list_of_set (pending st (cl_skip_rounds cl) (cl_queue cl))))))"
  using assms(4,5)
proof (induction n arbitrary: cl)
  case (Suc n)
  let ?P = "pending st (cl_skip_rounds cl) (cl_queue cl)"
  show ?case
  proof (cases "cl_items_returned cl = cl_max_items cl")
    case True
    thus ?thesis by (simp add: collector_next_def max_limits_reached_def)
  next
    case lim: False
    show ?thesis
    proof (cases "cl_queue cl")
      case Nil
      hence "?P = {}" by (simp add: pending_def)
      thus ?thesis using Nil lim Suc.prems(2) by (simp add: collector_next_def max_limits_reached_def)
    next
      case (Cons k q)
      obtain r a where k: "k = (r, a)" by (cases k)
      obtain q' x where q': "next_certificate st (cl_skip_rounds cl) ((r, a) # q) = Some (q', Inr (Some x))" "read_by_index st a r = Some x"
        "queue_ok st (cl_skip_rounds cl) q'" "pending st (cl_skip_rounds cl) q' = pending st (cl_skip_rounds cl) ((r, a) # q) - {(r, a)}"
        using next_certificate_spec[OF assms(1-3)] Suc.prems(1) Cons k by metis
      define cl' where "cl' = cl\<lparr> cl_queue := q', cl_items_returned := cl_items_returned cl + 1 \<rparr>"
      have step: "collector_next st False cl = Some (cl', Some (Inr x))"
        using q'(1) Cons k lim Suc.prems(2) by (simp add: collector_next_def max_limits_reached_def cl'_def)
      have ok: "queue_ok st (cl_skip_rounds cl) ((r, a) # q)" using Suc.prems(1) Cons k by simp
      have "Min ?P = (r, a)" using pending_min[OF ok] Cons k by (intro Min_eqI finite_pending) auto
      hence sl: "sorted_list_of_set ?P = (r, a) # sorted_list_of_set (?P - {(r, a)})"
        using sorted_list_of_set_nonempty[OF finite_pending, of st "cl_skip_rounds cl" "cl_queue cl"] pending_min(1)[OF ok] Cons k by auto
      have "cl_max_items cl - cl_items_returned cl = Suc (cl_max_items cl - cl_items_returned cl')"
        using lim Suc.prems(2) by (simp add: cl'_def)
      moreover have "collect_missing st (replicate n False) cl' = Some (Inr (map (\<lambda>(r, a). the (read_by_index st a r))
          (take (min n (cl_max_items cl - cl_items_returned cl')) (sorted_list_of_set (?P - {(r, a)})))))"
        using Suc.IH[of cl'] q'(3,4) lim Suc.prems(2) Cons k by (simp add: cl'_def)
      ultimately show ?thesis using step q'(2) by (simp add: sl)
    qed
  qed
qed simp

lemma start_queue_spec:
  assumes "bt_sorted (cs_by_origin st)" "rounds_bounded st" "lower + 1 < u32_max"
    and "\<forall>(a, rs)\<in>set es. length rs \<le> max_skip \<and> map_of skip a = Some rs" "distinct (map fst es)"
    and "queue_ok st skip q" "snd ` set q \<inter> fst ` set es = {}"
  shows "\<exists>q'. start_queue max_skip st lower es q = Some (Inr q') \<and> queue_ok st skip q'
    \<and> pending st skip q' = pending st skip q \<union> {(r, a). a \<in> fst ` set es \<and> at st a r \<and> lower < r \<and> r \<notin> skips skip a}"
  using assms(4-)
proof (induction es arbitrary: q)
  case (Cons e es)
  obtain a rs where e: "e = (a, rs)" by (cases e)
  have a: "length rs \<le> max_skip" "map_of skip a = Some rs" "a \<notin> snd ` set q" "a \<notin> fst ` set es" using Cons.prems(1,2,4) e by auto
  obtain res where res: "find_next_round st a lower rs = Some res" "next_wanted st a lower rs res"
    using find_next_round_spec[OF assms(1-3)] by blast
  define q1 where "q1 = (case res of None \<Rightarrow> q | Some r' \<Rightarrow> insort (r', a) q)"
  have step: "start_queue max_skip st lower (e # es) q = start_queue max_skip st lower es q1"
    using e a(1) res(1) by (cases res) (simp_all add: q1_def)
  have ok1: "queue_ok st skip q1"
    using Cons.prems(3) res(2) a by (cases res) (auto simp: q1_def queue_ok_def next_wanted_def sorted_insort set_insort_key distinct_map
        distinct_insort inj_on_def image_iff)
  have dis: "snd ` set q1 \<inter> fst ` set es = {}" using Cons.prems(4) a(4) e by (cases res) (auto simp: q1_def set_insort_key)
  have p1: "pending st skip q1 = pending st skip q \<union> {(r, b). b = a \<and> at st a r \<and> lower < r \<and> r \<notin> skips skip a}"
  proof (cases res)
    case None
    thus ?thesis using res(2) a(2) by (force simp: q1_def next_wanted_def)
  next
    case (Some r')
    have "pending st skip q1 = pending st skip q \<union> {(r, b). b = a \<and> at st a r \<and> r' \<le> r \<and> r \<notin> skips skip a}"
      using Some a(3) by (auto simp: q1_def pending_def set_insort_key image_iff)
    moreover have "at st a r \<and> r' \<le> r \<and> r \<notin> skips skip a \<longleftrightarrow> at st a r \<and> lower < r \<and> r \<notin> skips skip a" for r
      using next_wanted_reached[OF res(2), of r] Some a(2) by auto
    ultimately show ?thesis by simp
  qed
  have es: "\<forall>(a, rs)\<in>set es. length rs \<le> max_skip \<and> map_of skip a = Some rs" "distinct (map fst es)" using Cons.prems(1,2) by simp_all
  obtain q' where q': "start_queue max_skip st lower es q1 = Some (Inr q')" "queue_ok st skip q'"
    "pending st skip q' = pending st skip q1 \<union> {(r, a). a \<in> fst ` set es \<and> at st a r \<and> lower < r \<and> r \<notin> skips skip a}"
    using Cons.IH[OF es ok1 dis] by blast
  have "pending st skip q' = pending st skip q \<union> {(r, b). b \<in> fst ` set (e # es) \<and> at st b r \<and> lower < r \<and> r \<notin> skips skip b}"
    unfolding q'(3) p1 using e by auto
  thus ?case using q'(1,2) step by auto
qed simp

section \<open>The bounds of a request\<close>

definition roaring_laws :: "roaring \<Rightarrow> bool" where
  "roaring_laws rl \<longleftrightarrow> (\<forall>xs. sorted_wrt (<) xs \<and> (\<forall>x\<in>set xs. x < u32_max) \<longrightarrow> rl_deserialize rl (rl_serialize rl xs) = Inr xs)"

definition rounds_above :: "round \<Rightarrow> round_sets \<Rightarrow> bool" where
  "rounds_above gc skip \<longleftrightarrow> bt_sorted skip \<and> (\<forall>(a, rs)\<in>set skip. sorted_wrt (<) rs \<and> (\<forall>r\<in>set rs. gc \<le> r \<and> r < u32_max))"

lemma sorted_distinct_eq:
  fixes xs ys :: "'a::linorder list"
  assumes "sorted_wrt (<) xs" "sorted_wrt (<) ys" "set xs = set ys"
  shows "xs = ys"
  using assms by (intro sorted_distinct_set_unique) (auto simp: strict_sorted_iff)

lemma bs_collect_sorted: "sorted_wrt (<) xs \<Longrightarrow> bs_collect xs = xs"
  by (rule sorted_distinct_eq) (simp_all add: sorted_bs_collect)

lemma bt_sorted_ext:
  assumes "bt_sorted m" "bt_sorted m'" "map_of m = map_of m'"
  shows "m = m'"
proof -
  have d: "distinct (map fst m)" "distinct (map fst m')" using assms(1,2) by (simp_all add: bt_sorted_distinct)
  have "e \<in> set m \<longleftrightarrow> e \<in> set m'" for e
    using map_of_eq_Some_iff[OF d(1), of "fst e" "snd e"] map_of_eq_Some_iff[OF d(2), of "fst e" "snd e"] assms(3) by simp
  hence s: "set m = set m'" by blast
  have "inj_on fst (set m \<union> set m')" using d(1) s by (simp add: distinct_map)
  thus ?thesis using assms(1,2) d s
    by (intro map_sorted_distinct_set_unique[of fst]) (auto simp: bt_sorted_def strict_sorted_iff)
qed

lemma bt_collect_sorted: "bt_sorted m \<Longrightarrow> bt_collect m = m"
  by (rule bt_sorted_ext) (simp_all add: bt_sorted_collect map_of_bt_collect bt_sorted_distinct)

lemma bounds_roundtrip:
  assumes "roaring_laws rl" "rounds_above gc skip" "gc < u32_max"
  shows "get_bounds rl (set_bounds rl gc skip req) = Inr (gc, skip)"
proof -
  let ?f = "\<lambda>(k, bytes). case rl_deserialize rl bytes of Inl e \<Rightarrow> Inl StdIo
      | Inr rs \<Rightarrow> Inr (k, bs_collect (map (u32_add gc) rs))"
  let ?g = "\<lambda>(k, rs). (k, rl_serialize rl (bs_collect (map (\<lambda>v. u32_sub v gc) rs)))"
  have one: "?f (?g e) = (Inr e :: (network_error, authority_id \<times> round list) result)" if e: "e \<in> set skip" for e
  proof -
    obtain a rs where ar: "e = (a, rs)" by (cases e)
    have rs: "sorted_wrt (<) rs" "\<forall>r\<in>set rs. gc \<le> r \<and> r < u32_max" using assms(2) e ar by (auto simp: rounds_above_def)
    have sub: "map (\<lambda>v. u32_sub v gc) rs = map (\<lambda>v. v - gc) rs" using rs(2) by (simp add: u64_simps)
    have srt: "sorted_wrt (<) (map (\<lambda>v. v - gc) rs)"
      unfolding sorted_wrt_map by (rule sorted_wrt_mono_rel[OF _ rs(1)]) (use rs(2) in \<open>auto intro: diff_less_mono\<close>)
    have c: "bs_collect (map (\<lambda>v. u32_sub v gc) rs) = map (\<lambda>v. v - gc) rs" unfolding sub using srt by (rule bs_collect_sorted)
    have "\<forall>x\<in>set (map (\<lambda>v. v - gc) rs). x < u32_max" using rs(2) by (auto intro: le_less_trans[OF diff_le_self])
    hence "rl_deserialize rl (rl_serialize rl (map (\<lambda>v. v - gc) rs)) = Inr (map (\<lambda>v. v - gc) rs)"
      using assms(1) srt unfolding roaring_laws_def by blast
    moreover have "map (u32_add gc) (map (\<lambda>v. v - gc) rs) = rs" using rs(2) by (induction rs) (auto simp: u64_simps)
    ultimately show ?thesis using bs_collect_sorted[OF rs(1)] by (simp add: ar c)
  qed
  have fields: "mr_exclusive_lower_bound (set_bounds rl gc skip req) = gc" "mr_skip_rounds (set_bounds rl gc skip req) = map ?g skip"
    by (simp_all add: set_bounds_def)
  have t: "try_map ?f (map ?g skip) = (Inr skip :: (network_error, round_sets) result)"
    unfolding try_map_Inr_iff list_all2_map1 using one by (auto simp: list_all2_conv_all_nth)
  show ?thesis unfolding get_bounds_def fields t using assms(2) by (simp add: bt_collect_sorted rounds_above_def)
qed

section \<open>The answer to a request\<close>

lemma at_iff_indexed:
  assumes "origin_index_ok st"
  shows "at st a r \<longleftrightarrow> (r, a) \<in> fst ` set (cs_by_round st)"
  using assms by (simp add: origin_index_ok_def map_of_eq_None_iff)

lemma index_reads_ok:
  assumes "store_ok st" "origin_index_ok st"
  shows "index_reads st"
  unfolding index_reads_def
proof (intro allI impI)
  fix a r assume "at st a r"
  then obtain d where d: "map_of (cs_by_origin st) (a, r) = Some d" by blast
  hence "map_of (cs_by_round st) (r, a) = Some d" using assms(2) by (simp add: origin_index_ok_def)
  thus "read_by_index st a r \<noteq> None" using assms(1) d by (fastforce simp: store_ok_def round_index_ok_def read_by_index_def)
qed

lemma listed_certs:
  assumes "store_ok st" "origin_index_ok st" "P \<subseteq> {(r, a). at st a r}"
  shows "map (\<lambda>(r, a). the (read_by_index st a r)) (sorted_list_of_set P) = filter (\<lambda>x. (c_round x, c_origin x) \<in> P) (indexed_certs st)"
proof -
  let ?es = "filter (\<lambda>e. fst e \<in> P) (cs_by_round st)"
  have so: "bt_sorted (cs_by_round st)" using assms(1) by (simp add: store_ok_def store_sorted_def)
  have "P = set (map fst ?es)" using assms(3) at_iff_indexed[OF assms(2)] by force
  moreover have "sorted_wrt (<) (map fst ?es)" using bt_sorted_filter[OF so] by (simp add: bt_sorted_def)
  ultimately have sl: "sorted_list_of_set P = map fst ?es"
    by (metis strict_sorted_iff sorted_list_of_set.idem_if_sorted_distinct)
  have rd: "the (read_by_index st (snd (fst e)) (fst (fst e))) = the (store_read st (snd e))" if "e \<in> set (cs_by_round st)" for e
  proof -
    have "map_of (cs_by_round st) (fst e) = Some (snd e)" using bt_sorted_distinct[OF so] that by simp
    thus ?thesis using assms(2) by (simp add: origin_index_ok_def read_by_index_def)
  qed
  have "map (\<lambda>(r, a). the (read_by_index st a r)) (map fst ?es) = map (\<lambda>e. the (store_read st (snd e))) ?es"
    unfolding map_map by (intro map_cong) (auto simp: rd case_prod_beta simp del: split_paired_All)
  also have "\<dots> = filter (\<lambda>x. (c_round x, c_origin x) \<in> P) (indexed_certs st)"
  proof -
    have "?es = filter (\<lambda>e. (c_round (the (store_read st (snd e))), c_origin (the (store_read st (snd e)))) \<in> P) (cs_by_round st)"
      using index_entry_the[OF assms(1)] by (intro filter_cong) simp_all
    thus ?thesis by (simp add: indexed_certs_def filter_map comp_def)
  qed
  finally show ?thesis by (simp add: sl)
qed

lemma retrieve_spec:
  assumes "store_ok st" "origin_index_ok st" "rounds_bounded st" "get_bounds rl req = Inr (lower, skip)" "bt_sorted skip"
    and "\<forall>(a, rs)\<in>set skip. length rs \<le> max_skip" "lower + 1 < u32_max" "mr_max_items req \<le> capacity"
  shows "retrieve_missing_certs rl capacity max_skip st (replicate n False) req = Some (Inr (RequestedCertificates
    (take (min n (mr_max_items req)) (filter (\<lambda>x. lower < c_round x \<and> (\<exists>rs. map_of skip (c_origin x) = Some rs \<and> c_round x \<notin> set rs))
       (indexed_certs st)))))"
proof -
  have so: "bt_sorted (cs_by_origin st)" using assms(1) by (simp add: store_ok_def store_sorted_def)
  have d: "distinct (map fst skip)" using assms(5) by (rule bt_sorted_distinct)
  have es: "\<forall>(a, rs)\<in>set skip. length rs \<le> max_skip \<and> map_of skip a = Some rs" using assms(6) d by auto
  have e: "queue_ok st skip []" "pending st skip [] = {}" by (simp_all add: queue_ok_def pending_def)
  obtain q where q: "start_queue max_skip st lower skip [] = Some (Inr q)" "queue_ok st skip q"
    "pending st skip q = {(r, a). a \<in> fst ` set skip \<and> at st a r \<and> lower < r \<and> r \<notin> skips skip a}"
    using start_queue_spec[OF so assms(3,7) es d e(1)] e(2) by auto
  define cl where "cl = \<lparr> cl_queue = q, cl_skip_rounds = skip, cl_max_items = mr_max_items req, cl_items_returned = 0 \<rparr>"
  have new: "collector_new rl max_skip st req = Some (Inr cl)" using assms(4) q(1) by (simp add: collector_new_def cl_def)
  have col: "collect_missing st (replicate n False) cl = Some (Inr (map (\<lambda>(r, a). the (read_by_index st a r))
      (take (min n (mr_max_items req)) (sorted_list_of_set (pending st skip q)))))"
    using collect_missing_spec[OF so assms(3) index_reads_ok[OF assms(1,2)], of cl n] q(2) by (simp add: cl_def)
  have "map (\<lambda>(r, a). the (read_by_index st a r)) (sorted_list_of_set (pending st skip q))
      = filter (\<lambda>x. (c_round x, c_origin x) \<in> pending st skip q) (indexed_certs st)"
    by (rule listed_certs[OF assms(1,2)]) (auto simp: q(3))
  also have "\<dots> = filter (\<lambda>x. lower < c_round x \<and> (\<exists>rs. map_of skip (c_origin x) = Some rs \<and> c_round x \<notin> set rs)) (indexed_certs st)"
  proof (rule filter_cong[OF HOL.refl])
    fix x assume "x \<in> set (indexed_certs st)"
    then obtain k where k: "k \<in> set (cs_by_round st)" "x = the (store_read st (snd k))" by (auto simp: indexed_certs_def)
    hence "(c_round x, c_origin x) \<in> fst ` set (cs_by_round st)" using index_entry_the[OF assms(1) k(1)] by simp
    hence "at st (c_origin x) (c_round x)" using at_iff_indexed[OF assms(2)] by blast
    moreover have "c_origin x \<in> fst ` set skip \<longleftrightarrow> (\<exists>rs. map_of skip (c_origin x) = Some rs)"
      by (metis domI domIff dom_map_of_conv_image_fst option.exhaust)
    ultimately show "(c_round x, c_origin x) \<in> pending st skip q \<longleftrightarrow>
        lower < c_round x \<and> (\<exists>rs. map_of skip (c_origin x) = Some rs \<and> c_round x \<notin> set rs)" by (auto simp: q(3))
  qed
  finally show ?thesis using col new assms(8) by (simp add: retrieve_missing_certs_def take_map[symmetric])
qed

section \<open>The rounds a fetcher has\<close>

definition round_view :: "round_sets \<Rightarrow> authority_id \<Rightarrow> round set" where
  "round_view m a = (case map_of m a of None \<Rightarrow> {} | Some rs \<Rightarrow> set rs)"

definition round_sets_ok :: "round_sets \<Rightarrow> bool" where
  "round_sets_ok m \<longleftrightarrow> bt_sorted m \<and> (\<forall>a rs. map_of m a = Some rs \<longrightarrow> sorted_wrt (<) rs)"

lemma add_written_spec:
  assumes "round_sets_ok m"
  shows "round_sets_ok (add_written r b m)" "round_view (add_written r b m) a = (if a = b then insert r (round_view m b) else round_view m a)"
    "dom (map_of (add_written r b m)) = insert b (dom (map_of m))"
  using assms
  by (auto simp: add_written_def round_sets_ok_def round_view_def map_simps bt_sorted_insert sorted_bs_insert split: option.splits if_splits)

lemma add_all_written:
  assumes "round_sets_ok m"
  shows "round_sets_ok (fold (add_written r) bs m)"
    "round_view (fold (add_written r) bs m) a = round_view m a \<union> (if a \<in> set bs then {r} else {})"
    "dom (map_of (fold (add_written r) bs m)) = dom (map_of m) \<union> set bs"
  using assms by (induction bs arbitrary: m) (simp_all add: add_written_spec)

lemma add_rounds_written:
  assumes "round_sets_ok m"
  shows "round_sets_ok (fold (\<lambda>(r, bs). fold (add_written r) bs) es m)
    \<and> round_view (fold (\<lambda>(r, bs). fold (add_written r) bs) es m) a = round_view m a \<union> {r. \<exists>bs. (r, bs) \<in> set es \<and> a \<in> set bs}
    \<and> dom (map_of (fold (\<lambda>(r, bs). fold (add_written r) bs) es m)) = dom (map_of m) \<union> (\<Union>(r, bs)\<in>set es. set bs)"
  using assms
proof (induction es arbitrary: m)
  case (Cons e es)
  obtain r bs where e: "e = (r, bs)" by (cases e)
  show ?case using Cons.IH[OF add_all_written(1)[OF Cons.prems, of r bs]] add_all_written(2,3)[OF Cons.prems, of r bs]
    by (auto simp: e)
qed simp

lemma origins_after_round_spec:
  assumes "store_sorted st"
  shows "(\<exists>bs. (r, bs) \<in> set (origins_after_round st k) \<and> a \<in> set bs) \<longleftrightarrow> k \<le> r \<and> (r, a) \<in> fst ` set (cs_by_round st)"
proof -
  have gen: "bt_sorted m \<Longrightarrow> bt_sorted (fold add_origin es m) \<and>
      ((\<exists>bs. map_of (fold add_origin es m) r = Some bs \<and> a \<in> set bs) \<longleftrightarrow> (\<exists>bs. map_of m r = Some bs \<and> a \<in> set bs) \<or> (r, a) \<in> fst ` set es)" for es m
  proof (induction es arbitrary: m)
    case (Cons e es)
    have "bt_sorted (add_origin e m)" using Cons.prems by (simp add: add_origin_def bt_sorted_insert)
    moreover have "(\<exists>bs. map_of (add_origin e m) r = Some bs \<and> a \<in> set bs) \<longleftrightarrow> (\<exists>bs. map_of m r = Some bs \<and> a \<in> set bs) \<or> (r, a) = fst e"
      by (cases "fst e"; cases "map_of m r") (auto simp: add_origin_def map_simps)
    ultimately show ?case using Cons.IH[of "add_origin e m"] by auto
  qed simp
  let ?es = "filter (\<lambda>e. \<not> fst (fst e) < k) (from_round st k)"
  have "bt_sorted (origins_after_round st k)" using gen[of "[]" ?es] by (simp add: origins_after_round_def bt_sorted_Nil)
  hence "(\<exists>bs. (r, bs) \<in> set (origins_after_round st k) \<and> a \<in> set bs) \<longleftrightarrow> (\<exists>bs. map_of (origins_after_round st k) r = Some bs \<and> a \<in> set bs)"
    by (simp add: map_of_eq_Some_iff bt_sorted_distinct)
  also have "\<dots> \<longleftrightarrow> (r, a) \<in> fst ` set ?es" using gen[of "[]" ?es] by (simp add: origins_after_round_def bt_sorted_Nil)
  also have "?es = filter (\<lambda>e. k \<le> fst (fst e)) (cs_by_round st)" using from_round_filter[OF assms, of k] by (simp add: not_less)
  finally show ?thesis by force
qed

lemma no_rounds_written:
  assumes "committee_wf c"
  defines "m \<equiv> fold (\<lambda>a. bt_insert (auth_id a) []) (committee_authorities c) []"
  shows "round_sets_ok m" "round_view m a = {}" "dom (map_of m) = members c"
proof -
  have gen: "round_sets_ok m0 \<Longrightarrow> (\<forall>a. round_view m0 a = {}) \<Longrightarrow>
      round_sets_ok (fold (\<lambda>a. bt_insert (auth_id a) []) as m0) \<and> (\<forall>a. round_view (fold (\<lambda>a. bt_insert (auth_id a) []) as m0) a = {})
      \<and> dom (map_of (fold (\<lambda>a. bt_insert (auth_id a) []) as m0)) = dom (map_of m0) \<union> auth_id ` set as" for as m0
  proof (induction as arbitrary: m0)
    case (Cons a as)
    have "round_sets_ok (bt_insert (auth_id a) [] m0)" "\<forall>x. round_view (bt_insert (auth_id a) [] m0) x = {}"
      using Cons.prems by (auto simp: round_sets_ok_def round_view_def map_simps bt_sorted_insert)
    moreover have "dom (map_of (bt_insert (auth_id a) [] m0)) = insert (auth_id a) (dom (map_of m0))"
      by (auto simp: map_simps split: if_splits)
    ultimately show ?case using Cons.IH[of "bt_insert (auth_id a) [] m0"] by simp
  qed simp
  have e: "round_sets_ok []" "\<forall>a. round_view [] a = {}" by (simp_all add: round_sets_ok_def round_view_def bt_sorted_Nil)
  note g = gen[OF e, of "committee_authorities c"]
  show "round_sets_ok m" "round_view m a = {}" using g by (simp_all add: m_def)
  have "auth_id ` set (committee_authorities c) = members c"
  proof -
    have "e \<in> set (authorities_by_id c) \<Longrightarrow> auth_id (snd e) = fst e" for e
      using committee_authority_iff[OF assms(1), of "fst e" "snd e"] bt_sorted_distinct[OF by_id_sorted[OF assms(1)]]
      by (simp add: committee_authority_def)
    thus ?thesis by (force simp: committee_authorities_def members_def bt_values_def bt_keys_def)
  qed
  thus "dom (map_of m) = members c" using g by (simp add: m_def)
qed

lemma written_rounds_spec:
  assumes "committee_wf c" "store_ok st" "origin_index_ok st" "gc + 1 < u32_max"
  shows "round_sets_ok (written_rounds c st gc)" "round_view (written_rounds c st gc) a = {r. gc < r \<and> at st a r}"
    "dom (map_of (written_rounds c st gc)) = members c \<union> {a. \<exists>r. gc < r \<and> at st a r}"
proof -
  have so: "store_sorted st" using assms(2) by (simp add: store_ok_def)
  have o: "(\<exists>bs. (r, bs) \<in> set (origins_after_round st (u32_add gc 1)) \<and> b \<in> set bs) \<longleftrightarrow> gc < r \<and> at st b r" for r b
    unfolding origins_after_round_spec[OF so] at_iff_indexed[OF assms(3)] using assms(4) by (auto simp: u64_simps)
  note w = add_rounds_written[OF no_rounds_written(1)[OF assms(1)], of "origins_after_round st (u32_add gc 1)", folded written_rounds_def]
  show "round_sets_ok (written_rounds c st gc)" using w by blast
  have "round_view (written_rounds c st gc) a = {r. \<exists>bs. (r, bs) \<in> set (origins_after_round st (u32_add gc 1)) \<and> a \<in> set bs}"
    using w[of a] no_rounds_written(2)[OF assms(1), of a] by simp
  thus "round_view (written_rounds c st gc) a = {r. gc < r \<and> at st a r}" by (simp only: o)
  have "dom (map_of (written_rounds c st gc)) = members c \<union> {b. \<exists>r bs. (r, bs) \<in> set (origins_after_round st (u32_add gc 1)) \<and> b \<in> set bs}"
    using w[of a] no_rounds_written(3)[OF assms(1)] by auto
  thus "dom (map_of (written_rounds c st gc)) = members c \<union> {a. \<exists>r. gc < r \<and> at st a r}" by (simp only: o)
qed

end
