(* ===== verification/Exchange_Properties.thy ===== *)
theory Exchange_Properties
  imports Cert_Exchange_Proofs Sample_Network
begin

text \<open>
  The property of the exchange of certificates between primaries, from the store of the one that asks to
  the answer of its peer.
\<close>

text \<open>C27: a peer answers the fetcher's request with exactly the certificates that the fetcher lacks, from lower to higher
  rounds and at most as many as one request may return: the certificates above the garbage collection
  round that the peer has and the fetcher's store has not, of every authority of the committee and of
  every other author that the fetcher's store has above that round. The bounds survive the message, and the peer's collector neither skips, repeats nor reorders a
  certificate. The time that the peer allows for a request does not run out, and the fetcher has no more
  rounds of an authority above the collection round than a request may list.\<close>

theorem missing_certs_answered:
  assumes "roaring_laws rl" "committee_wf c"
    and mine: "store_ok mine" "origin_index_ok mine" "rounds_bounded mine"
    and peer: "store_ok peer" "origin_index_ok peer" "rounds_bounded peer"
    and "gc + 1 < u32_max" "\<And>a. card {r. gc < r \<and> at mine a r} \<le> max_skip" "MAX_CERTIFICATES_TO_FETCH \<le> capacity"
  shows "retrieve_missing_certs rl capacity max_skip peer (replicate MAX_CERTIFICATES_TO_FETCH False)
       (fetch_request rl gc (written_rounds c mine gc)) = Some (Inr (RequestedCertificates (take MAX_CERTIFICATES_TO_FETCH
         (filter (\<lambda>x. gc < c_round x \<and> (c_origin x \<in> members c \<or> (\<exists>r>gc. at mine (c_origin x) r))
            \<and> \<not> at mine (c_origin x) (c_round x)) (indexed_certs peer)))))"
proof -
  let ?w = "written_rounds c mine gc"
  note w = written_rounds_spec[OF assms(2) mine(1,2) assms(9)]
  have srt: "bt_sorted ?w" using w(1) by (simp add: round_sets_ok_def)
  have of_list: "map_of ?w a = Some rs" if "(a, rs) \<in> set ?w" for a rs using that bt_sorted_distinct[OF srt] by simp
  have some: "map_of ?w a = Some rs \<Longrightarrow> sorted_wrt (<) rs \<and> set rs = {r. gc < r \<and> at mine a r}" for a rs
    using w(1) w(2)[of a] by (simp add: round_sets_ok_def round_view_def)
  have above: "rounds_above gc ?w"
    unfolding rounds_above_def
  proof (intro conjI srt ballI, clarify)
    fix a rs assume e: "(a, rs) \<in> set ?w"
    have s: "sorted_wrt (<) rs" "set rs = {r. gc < r \<and> at mine a r}" using some[OF of_list[OF e]] by simp_all
    have "r + 1 < u32_max" if "r \<in> set rs" for r using that s(2) mine(3) unfolding rounds_bounded_def by blast
    thus "sorted_wrt (<) rs \<and> (\<forall>r\<in>set rs. gc \<le> r \<and> r < u32_max)" using s by (force dest: add_lessD1)
  qed
  have len: "\<forall>(a, rs)\<in>set ?w. length rs \<le> max_skip"
  proof clarify
    fix a rs assume "(a, rs) \<in> set ?w"
    hence s: "sorted_wrt (<) rs" "set rs = {r. gc < r \<and> at mine a r}" using some of_list by blast+
    have "length rs = card (set rs)" using s(1) by (simp add: distinct_card strict_sorted_iff)
    thus "length rs \<le> max_skip" using assms(10)[of a] s(2) by simp
  qed
  have gb: "get_bounds rl (fetch_request rl gc ?w) = Inr (gc, ?w)"
  proof -
    have "get_bounds rl (fetch_request rl gc ?w) = get_bounds rl (set_bounds rl gc ?w default_request)"
      by (simp add: get_bounds_def fetch_request_def set_max_items_def cong: sum.case_cong)
    thus ?thesis using bounds_roundtrip[OF assms(1) above, of default_request] assms(9) by simp
  qed
  have mi: "mr_max_items (fetch_request rl gc ?w) = MAX_CERTIFICATES_TO_FETCH" by (simp add: fetch_request_def set_max_items_def)
  have lacks: "(\<exists>rs. map_of ?w a = Some rs \<and> r \<notin> set rs) \<longleftrightarrow> (a \<in> members c \<or> (\<exists>r>gc. at mine a r)) \<and> \<not> at mine a r" if "gc < r" for a r
  proof -
    have "map_of ?w a \<noteq> None \<longleftrightarrow> a \<in> members c \<or> (\<exists>r>gc. at mine a r)" using w(3) by blast
    thus ?thesis using some[of a] that by (cases "map_of ?w a") auto
  qed
  have "filter (\<lambda>x. gc < c_round x \<and> (\<exists>rs. map_of ?w (c_origin x) = Some rs \<and> c_round x \<notin> set rs)) (indexed_certs peer)
      = filter (\<lambda>x. gc < c_round x \<and> (c_origin x \<in> members c \<or> (\<exists>r>gc. at mine (c_origin x) r)) \<and> \<not> at mine (c_origin x) (c_round x)) (indexed_certs peer)"
    by (intro filter_cong refl conj_cong lacks)
  thus ?thesis using retrieve_spec[OF peer gb srt len assms(9), of capacity MAX_CERTIFICATES_TO_FETCH] mi assms(11) by simp
qed

definition sample_roaring :: roaring where
  "sample_roaring = \<lparr> rl_serialize = (\<lambda>xs. xs), rl_deserialize = Inr \<rparr>"

definition sample_saved :: "certificate list \<Rightarrow> cert_store" where
  "sample_saved xs = fold save_cert xs cert_store_empty"

lemma sample_saved_ok:
  assumes "set xs \<subseteq> set sample_certs"
  shows "store_ok (sample_saved xs)" "origin_index_ok (sample_saved xs)"
proof -
  have "stored_certs cert_store_empty = {}" by (simp add: stored_certs_def ran_def store_read_def cert_store_empty_def)
  moreover have "digests_identify (set sample_certs)" unfolding digests_identify_def by code_simp
  ultimately have "digests_identify (set xs \<union> stored_certs cert_store_empty)" using digests_identify_mono assms by simp
  thus "store_ok (sample_saved xs)" unfolding sample_saved_def by (rule store_ok_save_all[OF store_ok_empty])
  show "origin_index_ok (sample_saved xs)" unfolding sample_saved_def by (rule origin_index_save_all[OF origin_index_empty])
qed

lemma at_listed: "at st a r \<Longrightarrow> r \<in> (\<lambda>e. snd (fst e)) ` set (cs_by_origin st)"
  by (force dest: map_of_SomeD)

lemma sample_saved_bounded: "rounds_bounded (sample_saved sample_certs)" "rounds_bounded (sample_saved (take 4 sample_certs))"
proof -
  have "\<forall>r\<in>set (map (\<lambda>e. snd (fst e)) (cs_by_origin (sample_saved xs))). r + 1 < u32_max \<Longrightarrow> rounds_bounded (sample_saved xs)" for xs
    using at_listed[of "sample_saved xs"] unfolding rounds_bounded_def by force
  moreover have "\<forall>r\<in>set (map (\<lambda>e. snd (fst e)) (cs_by_origin (sample_saved sample_certs))). r + 1 < u32_max"
    "\<forall>r\<in>set (map (\<lambda>e. snd (fst e)) (cs_by_origin (sample_saved (take 4 sample_certs)))). r + 1 < u32_max" by code_simp+
  ultimately show "rounds_bounded (sample_saved sample_certs)" "rounds_bounded (sample_saved (take 4 sample_certs))" by blast+
qed

theorem missing_certs_answered_witness:
  "\<exists>xs. retrieve_missing_certs sample_roaring 2000 1000 (sample_saved sample_certs) (replicate MAX_CERTIFICATES_TO_FETCH False)
     (fetch_request sample_roaring 1 (written_rounds sample_committee (sample_saved (take 4 sample_certs)) 1)) = Some (Inr (RequestedCertificates xs))
   \<and> map cert_digest xs = [22, 23, 31, 32]"
proof -
  let ?m = "sample_saved (take 4 sample_certs)" and ?p = "sample_saved sample_certs"
  have "card {r. 1 < r \<and> at ?m a r} \<le> 1000" for a
  proof -
    have "{r. 1 < r \<and> at ?m a r} \<subseteq> set (map (\<lambda>e. snd (fst e)) (cs_by_origin ?m))" using at_listed[of ?m] by auto
    hence "card {r. 1 < r \<and> at ?m a r} \<le> card (set (map (\<lambda>e. snd (fst e)) (cs_by_origin ?m)))" by (rule card_mono[rotated]) simp
    also have "\<dots> \<le> length (map (\<lambda>e. snd (fst e)) (cs_by_origin ?m))" by (rule card_length)
    also have "\<dots> \<le> 1000" by code_simp
    finally show ?thesis .
  qed
  moreover have "roaring_laws sample_roaring" by (simp add: roaring_laws_def sample_roaring_def)
  moreover have "map cert_digest (take MAX_CERTIFICATES_TO_FETCH (filter (\<lambda>x. 1 < c_round x \<and>
      (c_origin x \<in> members sample_committee \<or> (\<exists>r>1. at ?m (c_origin x) r)) \<and> \<not> at ?m (c_origin x) (c_round x)) (indexed_certs ?p))) = [22, 23, 31, 32]"
  proof -
    have "\<forall>x\<in>set (indexed_certs ?p). c_origin x \<in> members sample_committee" by code_simp
    hence "filter (\<lambda>x. 1 < c_round x \<and> (c_origin x \<in> members sample_committee \<or> (\<exists>r>1. at ?m (c_origin x) r)) \<and> \<not> at ?m (c_origin x) (c_round x)) (indexed_certs ?p)
        = filter (\<lambda>x. 1 < c_round x \<and> \<not> at ?m (c_origin x) (c_round x)) (indexed_certs ?p)" by (intro filter_cong) auto
    moreover have "map cert_digest (filter (\<lambda>x. 1 < c_round x \<and> \<not> at ?m (c_origin x) (c_round x)) (indexed_certs ?p)) = [22, 23, 31, 32]" by code_simp
    ultimately show ?thesis by (simp add: MAX_CERTIFICATES_TO_FETCH_def flip: take_map)
  qed
  ultimately show ?thesis
    using missing_certs_answered[OF _ sample_committee_wf sample_saved_ok(1,2)[of "take 4 sample_certs"] sample_saved_bounded(2)
        sample_saved_ok(1,2)[of sample_certs] sample_saved_bounded(1), of sample_roaring 1 1000 2000] set_take_subset[of 4 sample_certs]
    by (auto simp: u32_max_def MAX_CERTIFICATES_TO_FETCH_def)
qed

end
