(* ===== verification/Certifier.thy ===== *)
theory Certifier
  imports Vote_Handler Aggregators Network_Error
begin

text \<open>
  The certifier of the primary (crates/consensus/primary/src/certifier.rs): it asks the other primaries to
  vote for a header, aggregates their votes into a certificate, hands that to the state synchronizer
  and broadcasts it. The answers of the peers and the choices between tasks are sequences of events.
\<close>

section \<open>Asking one peer for its vote\<close>

datatype request_vote_result = PeerVote vote | PeerMissingParents "digest list"

definition vote_response :: "(p2p_error, primary_response) result \<Rightarrow> (p2p_error, request_vote_result) result" where
  "vote_response reply =
     (case reply of
        Inl e \<Rightarrow> Inl e
      | Inr res \<Rightarrow>
          (case res of
             Vote v \<Rightarrow> Inr (PeerVote v)
           | ErrorResponse s \<Rightarrow> Inl (RPCError s)
           | RequestedCertificates _ \<Rightarrow> Inl (RPCError ''Got wrong response, not a vote is requested certificates!'')
           | MissingParents ds \<Rightarrow> Inr (PeerMissingParents ds)
           | ConsensusHeaderResponse _ \<Rightarrow> Inl (RPCError ''Got wrong response, not a vote is consensus header!'')))"

definition requested_parents :: "cert_store \<Rightarrow> header \<Rightarrow> digest list \<Rightarrow> (dag_error, certificate list) result" where
  "requested_parents st h missing =
     (if missing = [] then Inr []
      else let ps = List.map_filter (\<lambda>x. x) (store_read_all st (filter (\<lambda>d. d \<in> set (h_parents h)) missing))
           in if length ps \<noteq> length missing then Inl ProposedHeaderMissingCertificates else Inr ps)"

definition retry_delay :: "nat \<Rightarrow> nat" where
  "retry_delay attempt =
     (if attempt = 1 then 0 else if attempt = 2 then 100 else if attempt = 3 then 500 else if attempt = 4 then 1000
      else if attempt = 5 then 2000 else if attempt = 6 then 5000 else 10000)"

text \<open>
  An attempt is made with the store of its time and ends with the reply of the peer. The result has the
  parents sent with every attempt and the delay after it, in milliseconds; the vote is
  \<^const>\<open>None\<close> while the attempts go on.
\<close>

type_synonym vote_attempt = "cert_store \<times> (p2p_error, primary_response) result"

fun request_vote_loop ::
  "header \<Rightarrow> nat \<Rightarrow> digest list \<Rightarrow> vote_attempt list \<Rightarrow> (certificate list \<times> nat) list \<times> (dag_error, vote) result option" where
  "request_vote_loop h attempt missing [] = ([], None)"
| "request_vote_loop h attempt missing ((st, reply) # rest) =
     (case requested_parents st h missing of
        Inl e \<Rightarrow> ([], Some (Inl e))
      | Inr ps \<Rightarrow>
          (case vote_response reply of
             Inr (PeerVote v) \<Rightarrow> ([(ps, 0)], Some (Inr v))
           | Inr (PeerMissingParents ds) \<Rightarrow>
               (let (sent, r) = request_vote_loop h (attempt + 1) ds rest in ((ps, retry_delay attempt) # sent, r))
           | Inl (RPCError s) \<Rightarrow> ([(ps, 0)], Some (Inl (NetworkError s)))
           | Inl _ \<Rightarrow>
               (let (sent, r) = request_vote_loop h (attempt + 1) [] rest in ((ps, retry_delay attempt) # sent, r))))"

definition check_vote :: "committee \<Rightarrow> authority_id \<Rightarrow> header \<Rightarrow> vote \<Rightarrow> (dag_error, vote) result" where
  "check_vote c a h v =
     (if \<not> (v_header_digest v = h_digest h \<and> v_origin v = h_author h \<and> v_author v = a) then Inl (UnexpectedVote (v_header_digest v))
      else if h_epoch h \<noteq> v_epoch v then Inl (DInvalidEpoch (h_epoch h) (v_epoch v))
      else if h_round h \<noteq> v_round v then Inl (InvalidRound (h_round h) (v_round v))
      else if v_epoch v \<noteq> c_epoch c then Inl (DInvalidEpoch (c_epoch c) (v_epoch v))
      else if \<not> 0 < voting_power_by_id c (v_author v) then Inl (DUnknownAuthority (v_author v))
      else Inr v)"

definition request_vote ::
  "committee \<Rightarrow> authority_id \<Rightarrow> header \<Rightarrow> vote_attempt list \<Rightarrow> (certificate list \<times> nat) list \<times> (dag_error, vote) result option" where
  "request_vote c a h attempts =
     (let (sent, r) = request_vote_loop h 1 [] attempts
      in (sent, case r of None \<Rightarrow> None | Some (Inl e) \<Rightarrow> Some (Inl e) | Some (Inr v) \<Rightarrow> Some (check_vote c a h v)))"

section \<open>Proposing a header\<close>

text \<open>
  While votes are collected, the request to a peer finishes, all requests have finished, the proposer
  sends a header to the channel, or the certifier takes a header from the channel. An event that is
  not possible in the state is skipped. The header taken is dropped, and the one whose votes were
  collected goes to the back of the channel. The channel does not close while the certifier runs, since
  it holds a sender of the channel itself.
\<close>

datatype certify_event =
    VoteFinished authority_id "(dag_error, vote) result" timestamp
  | RequestsExhausted
  | HeaderQueued header
  | HeaderTaken

type_synonym vote_check = "signature \<Rightarrow> digest \<Rightarrow> bls_pk \<Rightarrow> bool"

fun propose_loop ::
  "vote_check \<Rightarrow> crypto \<Rightarrow> committee \<Rightarrow> header \<Rightarrow> certify_event list \<Rightarrow> authority_id list \<Rightarrow> header list \<Rightarrow> votes_aggregator
    \<Rightarrow> (header list \<times> (dag_error, certificate) result) option" where
  "propose_loop vf cr c h [] waiting chan agg = None"
| "propose_loop vf cr c h (VoteFinished a r now # evs) waiting chan agg =
     (if a \<notin> set waiting then propose_loop vf cr c h evs waiting chan agg
      else case r of
        Inl _ \<Rightarrow> propose_loop vf cr c h evs (remove1 a waiting) chan agg
      | Inr v \<Rightarrow>
          (case va_append vf cr now c h v agg of
             (_, Inl e) \<Rightarrow> Some (chan, Inl e)
           | (_, Inr (Some x)) \<Rightarrow> Some (chan, Inr x)
           | (agg', Inr None) \<Rightarrow> propose_loop vf cr c h evs (remove1 a waiting) chan agg'))"
| "propose_loop vf cr c h (RequestsExhausted # evs) waiting chan agg =
     (if waiting = [] then Some (chan, Inl (CouldNotFormCertificate (h_digest h))) else propose_loop vf cr c h evs waiting chan agg)"
| "propose_loop vf cr c h (HeaderQueued h' # evs) waiting chan agg = propose_loop vf cr c h evs waiting (chan @ [h']) agg"
| "propose_loop vf cr c h (HeaderTaken # evs) waiting chan agg =
     (case chan of
        [] \<Rightarrow> propose_loop vf cr c h evs waiting chan agg
      | _ # chan' \<Rightarrow> Some (chan' @ [h], Inl Canceled))"

definition certifier_propose_header ::
  "vote_check \<Rightarrow> node \<Rightarrow> timestamp \<Rightarrow> header \<Rightarrow> certify_event list \<Rightarrow> header list \<Rightarrow> (header list \<times> (dag_error, certificate) result) option" where
  "certifier_propose_header vf nd now h evs chan =
     (let c = nd_committee nd in
      if h_epoch h \<noteq> c_epoch c then Some (chan, Inl (DInvalidEpoch (c_epoch c) (h_epoch h)))
      else case va_append vf (nd_crypto nd) now c h (vote_new (nd_sign nd) h (nd_self nd)) votes_aggregator_new of
             (_, Inl e) \<Rightarrow> Some (chan, Inl e)
           | (_, Inr (Some x)) \<Rightarrow> Some (chan, Inr x)
           | (agg, Inr None) \<Rightarrow> propose_loop vf (nd_crypto nd) c h evs (map fst (others_primaries_by_id c (nd_self nd))) chan agg)"

section \<open>The main task\<close>

record certifier =
  ct_headers :: "header list"
  ct_sync :: validator
  ct_broadcast :: "certificate list"
  ct_receivers :: nat
  ct_running :: bool

text \<open>
  One receiver of the broadcast exists for every other primary from the start, and the last certificate
  of this authority is broadcast first. A send without receivers fails.
\<close>

definition certifier_spawn :: "node \<Rightarrow> validator \<Rightarrow> header list \<Rightarrow> certifier" where
  "certifier_spawn nd s chan =
     (let n = length (others_primaries_by_id (nd_committee nd) (nd_self nd))
      in \<lparr> ct_headers = chan, ct_sync = s,
           ct_broadcast = (case store_last_round (cm_store (sv_manager s)) (nd_self nd) of
                             Some x \<Rightarrow> if n = 0 then [] else [x] | None \<Rightarrow> []),
           ct_receivers = n, ct_running = True \<rparr>)"

text \<open>A turn of the task with the next header of the channel; \<^const>\<open>None\<close> while its votes are collected.\<close>

definition certifier_turn :: "vote_check \<Rightarrow> node \<Rightarrow> timestamp \<Rightarrow> certify_event list \<Rightarrow> certifier \<Rightarrow> certifier option" where
  "certifier_turn vf nd now evs s =
     (case ct_headers s of
        [] \<Rightarrow> Some s
      | h # chan \<Rightarrow>
          if \<not> ct_running s then Some s
          else case certifier_propose_header vf nd now h evs chan of
            None \<Rightarrow> None
          | Some (chan', Inl e) \<Rightarrow> Some (s\<lparr> ct_headers := chan' \<rparr>)
          | Some (chan', Inr x) \<Rightarrow>
              (case process_own_certificate nd x (ct_sync s) of
                 (v, Inl e) \<Rightarrow> Some (s\<lparr> ct_headers := chan', ct_sync := v, ct_running := False \<rparr>)
               | (v, Inr _) \<Rightarrow>
                   if ct_receivers s = 0 then Some (s\<lparr> ct_headers := chan', ct_sync := v, ct_running := False \<rparr>)
                   else Some (s\<lparr> ct_headers := chan', ct_sync := v, ct_broadcast := ct_broadcast s @ [x] \<rparr>)))"

section \<open>Pushing certificates to a peer\<close>

record push_state =
  pu_requests :: "certificate list"
  pu_backoff :: nat

definition push_start :: push_state where
  "push_start = \<lparr> pu_requests = [], pu_backoff = 0 \<rparr>"

datatype push_event =
    BroadcastReceived certificate
  | BroadcastLagged nat
  | BroadcastClosed
  | PublishFinished "(p2p_error, unit) result"

definition BACKOFF_INTERVAL :: nat where "BACKOFF_INTERVAL = 100"

definition MAX_BACKOFF_MULTIPLIER :: nat where "MAX_BACKOFF_MULTIPLIER = 100"

text \<open>
  The requests finish in the order in which they were made. The result has the delay before the next
  turn; \<^const>\<open>None\<close> ends the task.
\<close>

definition push_certificates :: "push_event \<Rightarrow> push_state \<Rightarrow> (push_state \<times> nat) option" where
  "push_certificates ev s =
     (case ev of
        BroadcastReceived x \<Rightarrow> Some (s\<lparr> pu_requests := pu_requests s @ [x] \<rparr>, 0)
      | BroadcastLagged _ \<Rightarrow> Some (s, 0)
      | BroadcastClosed \<Rightarrow> None
      | PublishFinished resp \<Rightarrow>
          (case pu_requests s of
             [] \<Rightarrow> Some (s, 0)
           | x # rest \<Rightarrow>
               (let s' = (case resp of
                            Inr _ \<Rightarrow> s\<lparr> pu_requests := rest, pu_backoff := 0 \<rparr>
                          | Inl _ \<Rightarrow>
                              if rest = [] then s\<lparr> pu_requests := [x], pu_backoff := min (pu_backoff s * 2 + 1) MAX_BACKOFF_MULTIPLIER \<rparr>
                              else s\<lparr> pu_requests := rest, pu_backoff := 0 \<rparr>)
                in Some (s', BACKOFF_INTERVAL * pu_backoff s'))))"

end
