(* ===== verification/Certifier_Properties.thy ===== *)
theory Certifier_Properties
  imports Certifier Sample_Network
begin

text \<open>
  The properties of the certifier: a certificate it assembles is accepted by every peer, the votes of a
  quorum end in a certificate, and the last certificate is pushed until it is published.
\<close>

section \<open>What the aggregator returns\<close>

lemma va_append_direct: "snd (va_append vf cr now c h v agg) = Inr (Some y) \<Longrightarrow> \<exists>s. c_state y = VerifiedDirectly s"
  by (auto simp: va_append_def Let_def split: if_splits sum.splits option.splits prod.splits)

lemma va_append_voters:
  assumes "committee_wf c" "power_fits c" "va_inv c agg"
  shows "fst ` set (va_votes (fst (va_append vf cr now c h v agg))) \<subseteq> insert (v_author v) (fst ` set (va_votes agg))"
    and "set (va_seen (fst (va_append vf cr now c h v agg))) \<subseteq> insert (v_author v) (set (va_seen agg))"
  by (rule va_append_cases[OF assms, of v vf cr now h]; auto simp: va_counted_def)+

definition certified :: "crypto \<Rightarrow> committee \<Rightarrow> header \<Rightarrow> authority_id set \<Rightarrow> certificate \<Rightarrow> bool" where
  "certified cr c h V x \<longleftrightarrow> c_header x = h \<and> signer_ids c x \<subseteq> V \<and> quorum_threshold c \<le> sum (voting_power_by_id c) (signer_ids c x) \<and>
     (\<exists>s. c_state x = VerifiedDirectly s \<and> verify_aggregate cr s (h_digest h) (snd (signed_by c x)))"

lemma va_append_certified:
  assumes "committee_wf c" "power_fits c" "va_inv c agg" "snd (va_append vf cr now c h v agg) = Inr (Some x)"
  shows "certified cr c h (insert (v_author v) (fst ` set (va_votes agg))) x"
proof -
  obtain s where s: "c_state x = VerifiedDirectly s" using va_append_direct[OF assms(4)] by blast
  note a = va_append_sound[OF assms]
  have "verify_aggregate cr s (h_digest h) (snd (signed_by c x))" using a s by (auto simp: aggregated_signature_def)
  thus ?thesis using a s by (simp add: certified_def)
qed

definition voters :: "certify_event list \<Rightarrow> authority_id set" where
  "voters evs = {v_author v | a v t. VoteFinished a (Inr v) t \<in> set evs}"

lemma certified_mono: "certified cr c h V x \<Longrightarrow> V \<subseteq> W \<Longrightarrow> certified cr c h W x"
  unfolding certified_def by blast

lemma voters_Cons: "voters (e # evs) = (case e of VoteFinished a (Inr v) t \<Rightarrow> {v_author v} | _ \<Rightarrow> {}) \<union> voters evs"
  by (auto simp: voters_def split: certify_event.splits sum.splits)

lemma propose_loop_certified:
  assumes "committee_wf c" "power_fits c" "va_inv c agg" "propose_loop vf cr c h evs waiting chan agg = Some (chan', Inr x)"
  shows "certified cr c h (fst ` set (va_votes agg) \<union> voters evs) x"
  using assms(3,4)
proof (induction evs arbitrary: waiting chan agg)
  case (Cons e evs)
  show ?case
  proof (cases e)
    case e: (VoteFinished a r now)
    show ?thesis
    proof (cases "a \<in> set waiting \<and> (\<exists>v. r = Inr v)")
      case True
      then obtain v where a: "a \<in> set waiting" "r = Inr v" by blast
      obtain agg' o' where ap: "va_append vf cr now c h v agg = (agg', o')" by force
      note inv = va_append_inv[OF assms(1,2) Cons.prems(1), of vf cr now h v, unfolded ap fst_conv]
      note vs = va_append_voters(1)[OF assms(1,2) Cons.prems(1), of vf cr now h v, unfolded ap fst_conv]
      show ?thesis
      proof (cases "\<exists>y. o' = Inr (Some y)")
        case True
        hence "o' = Inr (Some x)" using Cons.prems(2) e a ap by auto
        thus ?thesis using va_append_certified[OF assms(1,2) Cons.prems(1), of vf cr now h v x] ap
          by (auto simp: e a voters_Cons elim!: certified_mono)
      next
        case False
        hence "propose_loop vf cr c h evs (remove1 a waiting) chan agg' = Some (chan', Inr x)"
          using Cons.prems(2) e a ap by (auto split: sum.splits option.splits)
        from Cons.IH[OF inv this] show ?thesis using vs by (auto simp: e a voters_Cons elim!: certified_mono)
      qed
    next
      case False
      hence "\<exists>w. propose_loop vf cr c h evs w chan agg = Some (chan', Inr x)" using Cons.prems(2) e
        by (auto split: if_splits sum.splits)
      then obtain w where "propose_loop vf cr c h evs w chan agg = Some (chan', Inr x)" by blast
      from Cons.IH[OF Cons.prems(1) this] show ?thesis by (rule certified_mono) (auto simp: voters_Cons)
    qed
  qed (use Cons.IH[OF Cons.prems(1)] Cons.prems(2) in \<open>auto simp: voters_Cons split: if_splits list.splits\<close>)
qed simp

lemma propose_header_certified:
  assumes "committee_wf (nd_committee nd)" "power_fits (nd_committee nd)" "certifier_propose_header vf nd now h evs chan = Some (chan', Inr x)"
  shows "h_epoch h = c_epoch (nd_committee nd)" "certified (nd_crypto nd) (nd_committee nd) h (insert (nd_self nd) (voters evs)) x"
proof -
  let ?v = "vote_new (nd_sign nd) h (nd_self nd)" and ?c = "nd_committee nd" and ?cr = "nd_crypto nd"
  show "h_epoch h = c_epoch ?c" using assms(3) by (simp add: certifier_propose_header_def Let_def split: if_splits)
  obtain agg o' where ap: "va_append vf ?cr now ?c h ?v votes_aggregator_new = (agg, o')" by force
  note inv = va_append_inv[OF assms(1,2) va_inv_new, of vf ?cr now h ?v, unfolded ap fst_conv]
  note vs = va_append_voters(1)[OF assms(1,2) va_inv_new, of vf ?cr now h ?v, unfolded ap fst_conv]
  have self: "v_author ?v = nd_self nd" "va_votes votes_aggregator_new = []" by (simp_all add: vote_new_def votes_aggregator_new_def)
  show "certified ?cr ?c h (insert (nd_self nd) (voters evs)) x"
  proof (cases "\<exists>y. o' = Inr (Some y)")
    case True
    hence "o' = Inr (Some x)" using assms(3) ap by (auto simp: certifier_propose_header_def Let_def split: if_splits)
    thus ?thesis using va_append_certified[OF assms(1,2) va_inv_new, of vf ?cr now h ?v x] ap self by (auto elim!: certified_mono)
  next
    case False
    hence "propose_loop vf ?cr ?c h evs (map fst (others_primaries_by_id ?c (nd_self nd))) chan agg = Some (chan', Inr x)"
      using assms(3) ap by (auto simp: certifier_propose_header_def Let_def split: if_splits sum.splits option.splits)
    from propose_loop_certified[OF assms(1,2) inv this] show ?thesis using vs self by (auto elim!: certified_mono)
  qed
qed

text \<open>C14: the certificate that the certifier assembles from votes is accepted by every peer of its committee that receives it:
  it is for the proposed header, its signers are this authority and peers whose vote arrived, they
  form a quorum, and a peer that resets its state and verifies it gets the same certificate back, for
  every valid header above round zero. So it is also backed, as the state synchronizer of this node
  needs it.\<close>

theorem own_certificate_accepted:
  assumes "committee_wf (nd_committee nd)" "power_fits (nd_committee nd)"
    and "header_validate (nd_crypto nd) (nd_committee nd) (nd_workers nd) h = Inr ()" "0 < h_round h"
    and "certifier_propose_header vf nd now h evs chan = Some (chan', Inr x)"
  shows "c_header x = h \<and> signer_ids (nd_committee nd) x \<subseteq> insert (nd_self nd) (voters evs) \<and>
    quorum_threshold (nd_committee nd) \<le> sum (voting_power_by_id (nd_committee nd)) (signer_ids (nd_committee nd) x) \<and> backed nd x \<and>
    (\<exists>x0. validate_received x = Inr x0 \<and> (\<forall>peer gc. nd_committee peer = nd_committee nd \<longrightarrow> nd_crypto peer = nd_crypto nd \<longrightarrow>
       nd_workers peer = nd_workers nd \<longrightarrow> gc \<le> h_round h \<longrightarrow> validate_and_verify peer gc x0 = Inr x))"
proof -
  let ?c = "nd_committee nd"
  note p = propose_header_certified[OF assms(1,2,5)]
  obtain s where s: "c_state x = VerifiedDirectly s" "verify_aggregate (nd_crypto nd) s (h_digest h) (snd (signed_by ?c x))"
    using p(2) by (auto simp: certified_def)
  have hx: "c_header x = h" using p(2) by (simp add: certified_def)
  define x0 where "x0 = x\<lparr> c_state := Unverified s \<rparr>"
  have same: "signed_by ?c x0 = signed_by ?c x" "c_header x0 = h" by (simp_all add: x0_def signed_by_def hx)
  have w: "quorum_threshold ?c \<le> fst (signed_by ?c x)" using p(2) signed_by_weight[OF assms(1,2), of x] by (simp add: certified_def)
  have "x0\<lparr> c_state := VerifiedDirectly s \<rparr> = x" using s(1) by (simp add: x0_def)
  hence vs: "verify_signature (nd_crypto nd) x0 (snd (signed_by ?c x)) = Inr x"
    using s(2) by (simp add: verify_signature_def x0_def cert_digest_def hx)
  have v: "cert_verify (nd_crypto nd) ?c (nd_workers nd) x0 = Inr x"
    using p(1) assms(3,4) w vs by (simp add: cert_verify_def same split_def Let_def)
  have "validate_received x = Inr x0" by (simp add: validate_received_def aggregated_signature_def s(1) x0_def)
  moreover have "validate_and_verify peer gc x0 = Inr x"
    if "nd_committee peer = ?c" "nd_crypto peer = nd_crypto nd" "nd_workers peer = nd_workers nd" "gc \<le> h_round h" for peer gc
    using v that by (simp add: validate_and_verify_def same)
  moreover have "backed nd x" by (rule backed.signed[OF _ v]) (simp add: x0_def)
  ultimately show ?thesis using p(2) unfolding certified_def by blast
qed

section \<open>Votes of a quorum\<close>

type_synonym vote_outcome = "authority_id \<times> (dag_error, vote) result \<times> timestamp"

definition finished :: "vote_outcome list \<Rightarrow> certify_event list" where
  "finished rs = map (\<lambda>(a, r, t). VoteFinished a r t) rs"

definition votes_of :: "vote_outcome list \<Rightarrow> (authority_id \<times> signature) list" where
  "votes_of rs = List.map_filter (\<lambda>(a, r, t). case r of Inr v \<Rightarrow> Some (vote_entry v) | Inl _ \<Rightarrow> None) rs"

lemma votes_reach_certificate:
  assumes "committee_wf c" "power_fits c" "bls_complete vf cr" "\<forall>i\<in>members c. voting_power_by_id c i = p"
    and "va_inv c agg" "va_weight agg < quorum_threshold c" "set (va_seen agg) \<subseteq> members c - fst ` set rs"
    and "distinct (map fst rs)" "fst ` set rs \<subseteq> set waiting" "fst ` set rs \<subseteq> members c" "distinct waiting"
    and "\<forall>(a, r, t)\<in>set rs. \<forall>v. r = Inr v \<longrightarrow> v_author v = a"
    and "quorum_threshold c \<le> valid_power (\<lambda>sg pk. vf sg (h_digest h) pk) c (va_votes agg @ votes_of rs)"
  shows "\<exists>x. propose_loop vf cr c h (finished rs) waiting chan agg = Some (chan, Inr x)"
  using assms(5-)
proof (induction rs arbitrary: waiting agg)
  case Nil
  let ?ok = "\<lambda>sg pk. vf sg (h_digest h) pk"
  have "valid_power ?ok c (va_votes agg) \<le> va_weight agg"
    using Nil.prems(1) sum_list_map_filter_le[of "voting_power_by_id c \<circ> fst" "valid_vote ?ok c" "va_votes agg"]
    by (simp add: va_inv_def valid_power_def)
  thus ?case using Nil.prems(2,9) by (simp add: votes_of_def List.map_filter_simps)
next
  case (Cons e rs)
  let ?ok = "\<lambda>sg pk. vf sg (h_digest h) pk"
  obtain a r t where e: "e = (a, r, t)" by (cases e)
  have w: "a \<in> set waiting" "fst ` set rs \<subseteq> set (remove1 a waiting)" "distinct (remove1 a waiting)"
    using Cons.prems(4,5,7) by (auto simp: e)
  have m: "fst ` set rs \<subseteq> members c" "distinct (map fst rs)" "\<forall>(a, r, t)\<in>set rs. \<forall>v. r = Inr v \<longrightarrow> v_author v = a"
    using Cons.prems(4,6,8) by auto
  show ?case
  proof (cases r)
    case (Inl x)
    have "set (va_seen agg) \<subseteq> members c - fst ` set rs" using Cons.prems(3) by auto
    from Cons.IH[OF Cons.prems(1,2) this m(2) w(2) m(1) w(3) m(3)] show ?thesis
      using Cons.prems(9) w(1) by (simp add: finished_def e Inl votes_of_def List.map_filter_simps)
  next
    case (Inr v)
    have v: "v_author v = a" using Cons.prems(8) by (auto simp: e Inr)
    have seen: "set (va_seen agg) \<subseteq> members c" "v_author v \<in> members c - set (va_seen agg)" using Cons.prems(3,6) by (auto simp: e v)
    show ?thesis
    proof (rule va_append_progress[OF assms(1-4) Cons.prems(1,2) seen, of t h])
      fix agg'
      assume g: "va_append vf cr t c h v agg = (agg', Inr None)" "va_inv c agg'" "va_weight agg' < quorum_threshold c"
        "va_seen agg' = v_author v # va_seen agg" "valid_power ?ok c (va_votes agg') = valid_power ?ok c (va_votes agg @ [vote_entry v])"
      have "set (va_seen agg') \<subseteq> members c - fst ` set rs" using Cons.prems(3,4,6) by (auto simp: g(4) v e)
      moreover have "quorum_threshold c \<le> valid_power ?ok c (va_votes agg' @ votes_of rs)"
      proof -
        have "votes_of (e # rs) = [vote_entry v] @ votes_of rs" by (simp add: votes_of_def e Inr List.map_filter_simps)
        thus ?thesis using Cons.prems(9) g(5) by (simp only: valid_power_simps)
      qed
      ultimately show ?thesis using Cons.IH[OF g(2,3) _ m(2) w(2) m(1) w(3) m(3)] g(1) w(1) by (simp add: finished_def e Inr)
    qed (use w(1) in \<open>auto simp: finished_def e Inr\<close>)
  qed
qed

lemma other_primaries:
  assumes "committee_wf c"
  shows "set (map fst (others_primaries_by_id c self)) = members c - {self}" "distinct (map fst (others_primaries_by_id c self))"
proof -
  have ids: "map fst (others_primaries_by_id c self) = filter (\<lambda>i. i \<noteq> self) (map auth_id (bt_values (authorities c)))"
    by (simp add: others_primaries_by_id_def bt_values_def filter_map comp_def)
  show "set (map fst (others_primaries_by_id c self)) = members c - {self}" unfolding ids members_eq[OF assms] by auto
  show "distinct (map fst (others_primaries_by_id c self))" unfolding ids using by_id_distinct[OF assms] by (simp add: comp_def)
qed

lemma check_voteD:
  "check_vote c a h v = Inr v' \<Longrightarrow> v' = v \<and> v_author v = a"
  by (auto simp: check_vote_def split: if_splits)

lemma request_vote_author: "snd (request_vote c a h as) = Some (Inr v) \<Longrightarrow> v_author v = a"
  by (auto simp: request_vote_def Let_def dest: check_voteD split: prod.splits option.splits sum.splits)

text \<open>C19: the votes of a quorum end in a certificate: when the requests to the other authorities end, in whatever order and with
  whatever answers, and the votes with valid signatures among them form a quorum together with the
  vote of this authority, proposing the header returns a certificate. Votes with bad signatures,
  errors of peers and network errors do not prevent it, provided that all authorities have the same power,
  whatever it is, and that an aggregate of valid signatures verifies.\<close>

theorem quorum_certifies_header:
  assumes "committee_wf (nd_committee nd)" "power_fits (nd_committee nd)" "\<forall>i\<in>members (nd_committee nd). voting_power_by_id (nd_committee nd) i = p"
    and "bls_complete vf (nd_crypto nd)" "h_epoch h = c_epoch (nd_committee nd)" "nd_self nd \<in> members (nd_committee nd)"
    and "distinct (map fst rs)" "fst ` set rs \<subseteq> members (nd_committee nd) - {nd_self nd}"
    and "\<forall>(a, r, t)\<in>set rs. \<exists>attempts. snd (request_vote (nd_committee nd) a h attempts) = Some r"
    and "quorum_threshold (nd_committee nd) \<le> valid_power (\<lambda>sg pk. vf sg (h_digest h) pk) (nd_committee nd)
           ((nd_self nd, nd_sign nd (h_digest h)) # votes_of rs)"
  shows "\<exists>x. certifier_propose_header vf nd now h (finished rs) chan = Some (chan, Inr x) \<and> c_header x = h"
proof -
  let ?c = "nd_committee nd" and ?v = "vote_new (nd_sign nd) h (nd_self nd)" and ?ok = "\<lambda>sg pk. vf sg (h_digest h) pk"
  let ?n = votes_aggregator_new
  have q: "0 < quorum_threshold ?c" using quorum_threshold_eq[OF assms(1,2)] by simp
  have n: "va_weight ?n < quorum_threshold ?c" "set (va_seen ?n) \<subseteq> members ?c" "v_author ?v \<in> members ?c - set (va_seen ?n)" "va_votes ?n = []" "va_seen ?n = []"
    using q assms(6) by (simp_all add: votes_aggregator_new_def vote_new_def)
  have vs: "[vote_entry ?v] @ votes_of rs = (nd_self nd, nd_sign nd (h_digest h)) # votes_of rs" by (simp add: vote_new_def)
  have ids: "\<forall>(a, r, t)\<in>set rs. \<forall>v. r = Inr v \<longrightarrow> v_author v = a"
    using assms(9) request_vote_author by fastforce
  have "\<exists>x. certifier_propose_header vf nd now h (finished rs) chan = Some (chan, Inr x)"
  proof (rule va_append_progress[OF assms(1,2,4,3) va_inv_new n(1-3), of now h])
    fix agg
    assume g: "va_append vf (nd_crypto nd) now ?c h ?v ?n = (agg, Inr None)" "va_inv ?c agg" "va_weight agg < quorum_threshold ?c"
      "va_seen agg = v_author ?v # va_seen ?n" "valid_power ?ok ?c (va_votes agg) = valid_power ?ok ?c (va_votes ?n @ [vote_entry ?v])"
    have "set (va_seen agg) \<subseteq> members ?c - fst ` set rs" using g(4) n(5) assms(6,8) by (auto simp: vote_new_def)
    moreover have "quorum_threshold ?c \<le> valid_power ?ok ?c (va_votes agg @ votes_of rs)"
      using assms(10) g(5) n(4) unfolding vs[symmetric] by (simp only: valid_power_simps)
    moreover have "fst ` set rs \<subseteq> members ?c" using assms(8) by blast
    ultimately show ?thesis
      using votes_reach_certificate[OF assms(1,2,4,3) g(2,3), of rs "map fst (others_primaries_by_id ?c (nd_self nd))" h chan] other_primaries[OF assms(1), of "nd_self nd"]
        assms(5,7,8) g(1) ids by (auto simp: certifier_propose_header_def Let_def)
  qed (use assms(5) in \<open>auto simp: certifier_propose_header_def Let_def\<close>)
  thus ?thesis using propose_header_certified(2)[OF assms(1,2)] by (auto simp: certified_def)
qed

section \<open>Cancelled proposals\<close>

text \<open>C32: a header that the proposer sends while votes for an earlier one are collected is lost: the certifier takes it
  from the channel and drops it, cancels the proposal, and puts the earlier header back, so that its
  state is as if the new header had never been sent.\<close>

theorem newer_header_lost:
  assumes "ct_headers s = [h]" "ct_running s" "h_epoch h = c_epoch (nd_committee nd)"
    and "voting_power_by_id (nd_committee nd) (nd_self nd) < quorum_threshold (nd_committee nd)" "quorum_threshold (nd_committee nd) < u64_max"
  shows "certifier_turn vf nd now [HeaderQueued h', HeaderTaken] s = Some s"
proof -
  have "va_append vf (nd_crypto nd) now (nd_committee nd) h (vote_new (nd_sign nd) h (nd_self nd)) votes_aggregator_new
      = (va_counted (nd_committee nd) (vote_new (nd_sign nd) h (nd_self nd)) votes_aggregator_new, Inr None)"
    using assms(4,5) by (simp add: va_append_def votes_aggregator_new_def vote_new_def va_counted_def u64_simps Let_def)
  hence "certifier_propose_header vf nd now h [HeaderQueued h', HeaderTaken] [] = Some ([h], Inl Canceled)"
    using assms(3) by (simp add: certifier_propose_header_def Let_def)
  thus ?thesis using assms(1,2) by (simp add: certifier_turn_def)
qed

section \<open>Pushing certificates\<close>

text \<open>The certificates that were published, in order, over a sequence of events.\<close>

fun push_run :: "push_event list \<Rightarrow> push_state \<Rightarrow> certificate list \<Rightarrow> push_state \<times> certificate list" where
  "push_run [] s log = (s, log)"
| "push_run (ev # evs) s log =
     (case push_certificates ev s of
        None \<Rightarrow> (s, log)
      | Some (s', _) \<Rightarrow> push_run evs s' (case (ev, pu_requests s) of (PublishFinished (Inr _), x # _) \<Rightarrow> log @ [x] | _ \<Rightarrow> log))"

fun received_certs :: "push_event list \<Rightarrow> certificate list" where
  "received_certs [] = []"
| "received_certs (BroadcastReceived x # evs) = x # received_certs evs"
| "received_certs (_ # evs) = received_certs evs"

definition latest_kept :: "certificate list \<Rightarrow> push_state \<Rightarrow> certificate list \<Rightarrow> bool" where
  "latest_kept xs s log \<longleftrightarrow> pu_backoff s \<le> MAX_BACKOFF_MULTIPLIER \<and>
     (if xs = [] then pu_requests s = []
      else if pu_requests s = [] then last xs \<in> set log else last (pu_requests s) = last xs)"

lemma push_step_kept:
  assumes "latest_kept xs s log" "push_certificates ev s = Some (s', d)"
  shows "latest_kept (xs @ received_certs [ev]) s' (case (ev, pu_requests s) of (PublishFinished (Inr _), x # _) \<Rightarrow> log @ [x] | _ \<Rightarrow> log)"
    and "d \<le> BACKOFF_INTERVAL * MAX_BACKOFF_MULTIPLIER"
  using assms by (auto simp: latest_kept_def push_certificates_def Let_def MAX_BACKOFF_MULTIPLIER_def
      split: push_event.splits list.splits sum.splits if_splits)

lemma received_Cons: "received_certs (ev # evs) = received_certs [ev] @ received_certs evs"
  by (cases ev) auto

lemma push_run_kept:
  "latest_kept xs s log \<Longrightarrow> BroadcastClosed \<notin> set evs \<Longrightarrow> push_run evs s log = (s', log') \<Longrightarrow> latest_kept (xs @ received_certs evs) s' log'"
proof (induction evs arbitrary: xs s log)
  case (Cons ev evs)
  obtain s1 d where s1: "push_certificates ev s = Some (s1, d)"
    using Cons.prems(2) by (cases ev; cases "pu_requests s") (auto simp: push_certificates_def Let_def)
  from Cons.IH[OF push_step_kept(1)[OF Cons.prems(1) s1]] Cons.prems(2,3) s1
  show ?case by (subst received_Cons) simp
qed simp

text \<open>C30: the latest own certificate is pushed to a peer until it is published: while the sender of broadcasts is open, whatever
  requests fail, the last certificate that was received has been published or is the last request
  in the queue, and the delay before the next attempt is at most ten seconds.\<close>

theorem latest_certificate_pushed:
  assumes "BroadcastClosed \<notin> set evs" "received_certs evs \<noteq> []" "push_run evs push_start [] = (s, published)"
  shows "(last (received_certs evs) \<in> set published \<or> pu_requests s \<noteq> [] \<and> last (pu_requests s) = last (received_certs evs)) \<and>
    (\<forall>ev s' d. push_certificates ev s = Some (s', d) \<longrightarrow> d \<le> 10000)"
proof -
  have "latest_kept [] push_start []" by (simp add: latest_kept_def push_start_def)
  from push_run_kept[OF this assms(1,3)] have k: "latest_kept (received_certs evs) s published" by simp
  have "d \<le> 10000" if "push_certificates ev s = Some (s', d)" for ev s' d
    using push_step_kept(2)[OF k that] by (simp add: BACKOFF_INTERVAL_def MAX_BACKOFF_MULTIPLIER_def)
  thus ?thesis using k assms(2) by (auto simp: latest_kept_def split: if_splits)
qed

section \<open>Examples\<close>

text \<open>Signatures are products of the digest and the key, which aggregate by addition.\<close>

definition product_crypto :: crypto where
  "product_crypto = sample_crypto\<lparr> verify_aggregate := (\<lambda>s d ks. s = d * sum_list ks) \<rparr>"

definition product_check :: vote_check where
  "product_check sg d pk \<longleftrightarrow> sg = d * pk"

lemma product_complete: "bls_complete product_check product_crypto"
proof -
  have "sum_list sigs = d * sum_list pks" if "list_all2 (\<lambda>sg pk. product_check sg d pk) sigs pks" for sigs pks d
    using that by (induction rule: list_all2_induct) (simp_all add: product_check_def algebra_simps)
  thus ?thesis by (simp add: bls_complete_def product_crypto_def sample_crypto_def)
qed

definition certify_node :: "authority_id \<Rightarrow> node" where
  "certify_node a =
     \<lparr> nd_crypto = product_crypto, nd_committee = sample_committee, nd_workers = \<lparr> wc_epoch = 0, wc_workers = [] \<rparr>,
       nd_genesis = map (\<lambda>i. (i, sample_cert 0 i)) [1, 2, 3, 4], nd_self = a, nd_sign = (\<lambda>d. d * (10 + a)),
       nd_sync = \<lparr> max_skip_rounds = 1000, max_diff_rounds = 1000, max_proposed_header_age = 3, max_time_drift = 1,
                   max_missing_certs = 50, verification_interval = 50, verification_chunk_size = 50 \<rparr>,
       nd_gc_depth = 50, nd_iter = (\<lambda>ds. ds) \<rparr>"

text \<open>The second authority signs badly and the third one answers after a network error.\<close>

definition certify_vote :: "authority_id \<Rightarrow> vote" where
  "certify_vote a = vote_new (if a = 2 then (\<lambda>_. 5) else nd_sign (certify_node a)) (sample_header 1 1) a"

definition certify_attempts :: "authority_id \<Rightarrow> vote_attempt list" where
  "certify_attempts a = (if a = 3 then [(cert_store_empty, Inl RedialAttempt)] else []) @ [(cert_store_empty, Inr (Vote (certify_vote a)))]"

definition certify_outcomes :: "vote_outcome list" where
  "certify_outcomes = map (\<lambda>a. (a, Inr (certify_vote a), 7)) [2, 3, 4]"

lemma certify_requests:
  "list_all (\<lambda>a. snd (request_vote sample_committee a (sample_header 1 1) (certify_attempts a)) = Some (Inr (certify_vote a))) [2, 3, 4]"
  by code_simp

lemma certify_node_fields [simp]:
  "nd_committee (certify_node a) = sample_committee" "nd_crypto (certify_node a) = product_crypto" "nd_self (certify_node a) = a"
  by (simp_all add: certify_node_def)

theorem quorum_certifies_header_witness:
  "\<exists>x. certifier_propose_header product_check (certify_node 1) 7 (sample_header 1 1) (finished certify_outcomes) [] = Some ([], Inr x) \<and> c_header x = sample_header 1 1"
proof (rule quorum_certifies_header)
  show "committee_wf (nd_committee (certify_node 1))" "power_fits (nd_committee (certify_node 1))"
    using sample_committee_wf sample_power(1) by simp_all
  show "\<forall>i\<in>members (nd_committee (certify_node 1)). voting_power_by_id (nd_committee (certify_node 1)) i = 1"
    using sample_power(2,3) by simp
  show "bls_complete product_check (nd_crypto (certify_node 1))" using product_complete by simp
  show "nd_self (certify_node 1) \<in> members (nd_committee (certify_node 1))" using sample_power(2) by simp
  show "distinct (map fst certify_outcomes)" by (simp add: certify_outcomes_def)
  show "fst ` set certify_outcomes \<subseteq> members (nd_committee (certify_node 1)) - {nd_self (certify_node 1)}"
    using sample_power(2) by (simp add: certify_outcomes_def)
  show "\<forall>(a, r, t)\<in>set certify_outcomes. \<exists>attempts. snd (request_vote (nd_committee (certify_node 1)) a (sample_header 1 1) attempts) = Some r"
    using certify_requests by (auto simp: certify_outcomes_def)
qed code_simp+

theorem own_certificate_accepted_witness:
  "\<exists>x. certifier_propose_header product_check (certify_node 1) 7 (sample_header 1 1) (finished certify_outcomes) [] = Some ([], Inr x) \<and>
     c_header x = sample_header 1 1 \<and> backed (certify_node 1) x"
proof -
  have "(case certifier_propose_header product_check (certify_node 1) 7 (sample_header 1 1) (finished certify_outcomes) [] of Some ([], Inr x) \<Rightarrow> True | _ \<Rightarrow> False)"
    by code_simp
  then obtain x where x: "certifier_propose_header product_check (certify_node 1) 7 (sample_header 1 1) (finished certify_outcomes) [] = Some ([], Inr x)"
    by (auto split: option.splits prod.splits list.splits sum.splits)
  have "header_validate (nd_crypto (certify_node 1)) (nd_committee (certify_node 1)) (nd_workers (certify_node 1)) (sample_header 1 1) = Inr ()" by code_simp
  moreover have "0 < h_round (sample_header 1 1)" by (simp add: sample_header_def)
  ultimately show ?thesis using own_certificate_accepted[OF _ _ _ _ x] sample_committee_wf sample_power(1) x by simp
qed

theorem newer_header_lost_witness:
  "certifier_turn product_check (certify_node 1) 7 [HeaderQueued (sample_header 2 1), HeaderTaken]
     (certifier_spawn (certify_node 1) (state_sync_new cert_store_empty None) [sample_header 1 1]) =
   Some (certifier_spawn (certify_node 1) (state_sync_new cert_store_empty None) [sample_header 1 1])"
proof (rule newer_header_lost)
  show "ct_headers (certifier_spawn (certify_node 1) (state_sync_new cert_store_empty None) [sample_header 1 1]) = [sample_header 1 1]"
    "ct_running (certifier_spawn (certify_node 1) (state_sync_new cert_store_empty None) [sample_header 1 1])"
    by (simp_all add: certifier_spawn_def Let_def)
qed code_simp+

theorem latest_certificate_pushed_witness:
  "last (pu_requests (fst (push_run [BroadcastReceived (sample_cert 1 1), PublishFinished (Inl NoPeers)] push_start []))) = sample_cert 1 1"
proof -
  have "snd (push_run [BroadcastReceived (sample_cert 1 1), PublishFinished (Inl NoPeers)] push_start []) = []"
    by (simp add: push_certificates_def push_start_def Let_def)
  thus ?thesis
    using latest_certificate_pushed[of "[BroadcastReceived (sample_cert 1 1), PublishFinished (Inl NoPeers)]"]
    by (cases "push_run [BroadcastReceived (sample_cert 1 1), PublishFinished (Inl NoPeers)] push_start []") auto
qed

end
