(* ===== verification/Consensus_Chain.thy ===== *)
theory Consensus_Chain
  imports Vote_Handler Batches Dag_State Network_Error
begin

text \<open>
  The consensus chain: the output of consensus (crates/types/src/primary/output.rs), its tables
  (crates/storage/src/stores/consensus_store.rs and save_consensus of crates/state-sync/src/lib.rs), the
  answers to requests for headers (network/handler.rs), the subscriber of crates/consensus/executor and
  the tasks of crates/state-sync that follow the chain from peers. The execution layer is an argument:
  the parent beacon block root of the last executed block is the digest of the last executed header.
\<close>

section \<open>Outputs and tables\<close>

record consensus_output =
  co_sub_dag :: sub_dag
  co_batches :: "batch list list"
  co_beneficiary :: address
  co_batch_digests :: "block_hash list"
  co_parent_hash :: block_hash
  co_number :: nat
  co_extra :: nat
  co_early_finalize :: bool

definition flatten_batches :: "consensus_output \<Rightarrow> batch list" where
  "flatten_batches co = concat (co_batches co)"

definition next_batch_digest :: "consensus_output \<Rightarrow> consensus_output \<times> block_hash option" where
  "next_batch_digest co =
     (case co_batch_digests co of [] \<Rightarrow> (co, None) | d # ds \<Rightarrow> (co\<lparr> co_batch_digests := ds \<rparr>, Some d))"

definition output_header :: "consensus_output \<Rightarrow> consensus_header" where
  "output_header co =
     \<lparr> ch_parent_hash = co_parent_hash co, ch_sub_dag = co_sub_dag co, ch_number = co_number co, ch_extra = co_extra co \<rparr>"

definition consensus_header_hash :: "chain_hash \<Rightarrow> consensus_output \<Rightarrow> block_hash" where
  "consensus_header_hash ha co = digest_from_parts ha (co_parent_hash co) (co_sub_dag co) (co_number co)"

text \<open>A database that fails is one that is not open.\<close>

record chain_store =
  cc_blocks :: "(nat, consensus_header) btree_map"
  cc_numbers :: "(block_hash, nat) btree_map"
  cc_batches :: "(block_hash, batch) btree_map"
  cc_open :: bool

definition save_consensus ::
  "(batch \<Rightarrow> block_hash) \<Rightarrow> chain_hash \<Rightarrow> consensus_output \<Rightarrow> chain_store \<Rightarrow> chain_store \<times> (string, unit) result" where
  "save_consensus hb ha co st =
     (if \<not> cc_open st then (st, Inl ''database'')
      else let h = output_header co
           in (st\<lparr> cc_batches := fold (\<lambda>b. bt_insert (batch_digest hb b) (encoded b)) (flatten_batches co) (cc_batches st),
                   cc_blocks := bt_insert (ch_number h) h (cc_blocks st),
                   cc_numbers := bt_insert (consensus_header_digest ha h) (ch_number h) (cc_numbers st) \<rparr>, Inr ()))"

definition last_record :: "chain_store \<Rightarrow> (nat \<times> consensus_header) option" where
  "last_record st = (if cc_blocks st = [] \<or> \<not> cc_open st then None else Some (last (cc_blocks st)))"

section \<open>The consensus store\<close>

definition raise_round :: "authority_id \<Rightarrow> round \<Rightarrow> (authority_id, round) hash_map \<Rightarrow> (authority_id, round) hash_map" where
  "raise_round a r m = AList.update a (case map_of m a of Some r' \<Rightarrow> max r' r | None \<Rightarrow> r) m"

definition read_last_committed :: "chain_store \<Rightarrow> (authority_id, round) hash_map" where
  "read_last_committed st =
     fold (\<lambda>e m. fold (\<lambda>x. raise_round (c_origin x) (c_round x)) (sd_certificates (ch_sub_dag (snd e)))
                   (raise_round (c_origin (sd_leader (ch_sub_dag (snd e)))) (c_round (sd_leader (ch_sub_dag (snd e)))) m))
       (take 50 (rev (cc_blocks st))) []"

definition get_latest_sub_dag :: "chain_store \<Rightarrow> sub_dag option" where
  "get_latest_sub_dag st = map_option (\<lambda>e. ch_sub_dag (snd e)) (last_record st)"

definition read_committed_sub_dags_from :: "nat \<Rightarrow> chain_store \<Rightarrow> (string, sub_dag list) result" where
  "read_committed_sub_dags_from n st =
     (if \<not> cc_open st then Inl ''database'' else Inr (map (\<lambda>e. ch_sub_dag (snd e)) (dropWhile (\<lambda>e. fst e < n) (cc_blocks st))))"

definition read_latest_commit_with_final_reputation_scores :: "chain_store \<Rightarrow> sub_dag option" where
  "read_latest_commit_with_final_reputation_scores st =
     find (\<lambda>s. final_of_schedule (sd_reputation_score s)) (map (\<lambda>e. ch_sub_dag (snd e)) (rev (cc_blocks st)))"

definition get_restored_consensus_output :: "chain_store \<Rightarrow> nat \<Rightarrow> (string, sub_dag list) result" where
  "get_restored_consensus_output st last_executed = read_committed_sub_dags_from (last_executed + 1) st"

section \<open>Requests of peers\<close>

definition get_header_by_number :: "chain_store \<Rightarrow> nat \<Rightarrow> (network_error, consensus_header) result" where
  "get_header_by_number st n =
     (if \<not> cc_open st then Inl NStorage
      else case map_of (cc_blocks st) n of Some h \<Rightarrow> Inr h | None \<Rightarrow> Inl (InvalidRequest ''consensus header unknown''))"

definition get_header_by_hash :: "chain_store \<Rightarrow> block_hash \<Rightarrow> (network_error, consensus_header) result" where
  "get_header_by_hash st d =
     (if \<not> cc_open st then Inl NStorage
      else case map_of (cc_numbers st) d of
        None \<Rightarrow> Inl (UnknowConsensusHeaderDigest d) | Some n \<Rightarrow> get_header_by_number st n)"

definition get_latest_output :: "chain_store \<Rightarrow> (network_error, consensus_header) result" where
  "get_latest_output st =
     (case last_record st of Some e \<Rightarrow> Inr (snd e) | None \<Rightarrow> Inl (InvalidRequest ''Consensus headers unavailable''))"

definition retrieve_consensus_header ::
  "chain_store \<Rightarrow> nat option \<Rightarrow> block_hash option \<Rightarrow> (network_error, primary_response) result" where
  "retrieve_consensus_header st number d =
     (case (case (number, d) of
              (_, Some d) \<Rightarrow> get_header_by_hash st d
            | (Some n, None) \<Rightarrow> get_header_by_number st n
            | (None, None) \<Rightarrow> get_latest_output st) of
        Inl e \<Rightarrow> Inl e | Inr h \<Rightarrow> Inr (ConsensusHeaderResponse h))"

section \<open>What was executed\<close>

text \<open>\<open>dflt\<close> is the default consensus header, \<open>root\<close> the parent beacon block root of the last executed block.\<close>

definition last_executed_consensus_block :: "chain_store \<Rightarrow> block_hash option \<Rightarrow> consensus_header option" where
  "last_executed_consensus_block st root =
     (case root of
        None \<Rightarrow> None
      | Some d \<Rightarrow>
          if \<not> cc_open st then None
          else (case map_of (cc_numbers st) d of None \<Rightarrow> None | Some n \<Rightarrow> map_of (cc_blocks st) n))"

definition last_executed_or :: "consensus_header \<Rightarrow> chain_store \<Rightarrow> block_hash option \<Rightarrow> consensus_header" where
  "last_executed_or dflt st root = (case last_executed_consensus_block st root of Some h \<Rightarrow> h | None \<Rightarrow> dflt)"

definition get_missing_consensus ::
  "consensus_header \<Rightarrow> chain_store \<Rightarrow> block_hash option \<Rightarrow> (string, consensus_header list) result" where
  "get_missing_consensus dflt st root =
     (let executed = last_executed_or dflt st root;
          last_db = (case last_record st of Some e \<Rightarrow> snd e | None \<Rightarrow> executed)
      in if ch_number last_db > ch_number executed then
           (if \<not> cc_open st then Inl ''database''
            else Inr (List.map_filter (map_of (cc_blocks st)) [ch_number executed + 1..<ch_number last_db + 1]))
         else Inr [])"

text \<open>The same headers, sent to the channel of headers.\<close>

definition stream_missing_consensus ::
  "consensus_header \<Rightarrow> chain_store \<Rightarrow> block_hash option \<Rightarrow> consensus_header list \<Rightarrow> (string, consensus_header list) result" where
  "stream_missing_consensus dflt st root chan =
     (case get_missing_consensus dflt st root of Inl e \<Rightarrow> Inl e | Inr hs \<Rightarrow> Inr (chan @ hs))"

section \<open>The subscriber\<close>

datatype node_mode = CvvActive | CvvInactive | Observer

definition is_active_cvv :: "node_mode \<Rightarrow> bool" where "is_active_cvv m = (m = CvvActive)"
definition is_cvv :: "node_mode \<Rightarrow> bool" where "is_cvv m = (m = CvvActive \<or> m = CvvInactive)"
definition is_observer :: "node_mode \<Rightarrow> bool" where "is_observer m = (m = Observer)"

datatype subscriber_error =
    SClosedChannel string
  | SStoreError string
  | PayloadRetrieveError digest string
  | UnexpectedWorkerId worker_id
  | UnexpectedAuthority authority_id
  | ExecutorConnectionDropped
  | SerializationError string
  | UnexpectedProtocolMessage
  | OnlyOneConsensusClientPermitted
  | NodeExecutionError string
  | ClientExecutionError string
  | ClientRequestsFailed

text \<open>The reply of the worker to a request for batches, as a function of the digests that are asked for.\<close>

type_synonym batch_client = "block_hash list \<Rightarrow> (string, (block_hash \<times> batch) list) result"

definition fetch_batches_from_peers ::
  "batch_client \<Rightarrow> block_hash list \<Rightarrow> (subscriber_error, (block_hash, batch) hash_map) result" where
  "fetch_batches_from_peers client ds =
     (case client ds of
        Inl _ \<Rightarrow> Inl ClientRequestsFailed
      | Inr bs \<Rightarrow> Inr (fold (\<lambda>(d, b). AList.update d b) bs []))"

definition cert_batches ::
  "(block_hash, batch) hash_map \<Rightarrow> certificate \<Rightarrow> (subscriber_error, batch list) result" where
  "cert_batches fetched x =
     try_map (\<lambda>(d, _). case map_of fetched d of None \<Rightarrow> Inl ClientRequestsFailed | Some b \<Rightarrow> Inr b) (h_payload (c_header x))"

definition sub_dag_payload :: "sub_dag \<Rightarrow> block_hash list" where
  "sub_dag_payload s = concat (map (\<lambda>x. map fst (h_payload (c_header x))) (sd_certificates s))"

definition fetch_batches ::
  "committee \<Rightarrow> node_mode \<Rightarrow> batch_client \<Rightarrow> sub_dag \<Rightarrow> block_hash \<Rightarrow> nat \<Rightarrow> (subscriber_error, consensus_output) result" where
  "fetch_batches c mode client deliver parent number =
     (case committee_authority c (c_origin (sd_leader deliver)) of
        None \<Rightarrow> Inl (UnexpectedAuthority (c_origin (sd_leader deliver)))
      | Some a \<Rightarrow>
          (let co = \<lparr> co_sub_dag = deliver, co_batches = [], co_beneficiary = execution_address a, co_batch_digests = [],
                      co_parent_hash = parent, co_number = number, co_extra = 0, co_early_finalize = is_active_cvv mode \<rparr>
           in if num_primary_blocks deliver = 0 then Inr co
              else case fetch_batches_from_peers client (remdups (sub_dag_payload deliver)) of
                Inl e \<Rightarrow> Inl e
              | Inr fetched \<Rightarrow>
                  (case try_map (cert_batches fetched) (sd_certificates deliver) of
                     Inl e \<Rightarrow> Inl e
                   | Inr bss \<Rightarrow> Inr (co\<lparr> co_batch_digests := sub_dag_payload deliver, co_batches := bss \<rparr>))))"

text \<open>
  What the tasks of a node share: the tables, the certificate store, the rounds, the watch of the last
  header, the channels of headers and outputs, the mode and the flag to restart.
\<close>

record chain_config =
  cg_hash_batch :: "batch \<Rightarrow> block_hash"
  cg_hash :: chain_hash
  cg_crypto :: crypto
  cg_committee :: committee
  cg_gc_depth :: round
  cg_default :: consensus_header

record chain_node =
  cn_store :: chain_store
  cn_certs :: cert_store
  cn_rounds :: consensus_round
  cn_primary_round :: round
  cn_last_header :: consensus_header
  cn_headers :: "consensus_header list"
  cn_outputs :: "consensus_output list"
  cn_outputs_open :: bool
  cn_mode :: node_mode
  cn_restart :: bool
  cn_published :: "(nat \<times> block_hash) list"

definition update_consensus_rounds :: "consensus_round \<Rightarrow> chain_node \<Rightarrow> chain_node" where
  "update_consensus_rounds r s = s\<lparr> cn_rounds := r \<rparr>"

definition send_output :: "consensus_output \<Rightarrow> chain_node \<Rightarrow> chain_node" where
  "send_output co s = s\<lparr> cn_outputs := cn_outputs s @ [co] \<rparr>"

definition handle_consensus_header ::
  "chain_config \<Rightarrow> batch_client \<Rightarrow> consensus_header \<Rightarrow> chain_node \<Rightarrow> chain_node \<times> (subscriber_error, unit) result" where
  "handle_consensus_header g client h s =
     (case fetch_batches (cg_committee g) (cn_mode s) client (ch_sub_dag h) (ch_parent_hash h) (ch_number h) of
        Inl e \<Rightarrow> (s, Inl e)
      | Inr co \<Rightarrow>
          (case save_consensus (cg_hash_batch g) (cg_hash g) co (cn_store s) of
             (_, Inl e) \<Rightarrow> (s, Inl (SStoreError e))
           | (st, Inr _) \<Rightarrow>
               (let certs = store_write_all (sd_certificates (co_sub_dag co)) (store_write (sd_leader (co_sub_dag co)) (cn_certs s));
                    last_round = c_round (sd_leader (co_sub_dag co));
                    s1 = update_consensus_rounds (round_new_with_gc_depth last_round (cg_gc_depth g))
                           (s\<lparr> cn_store := st, cn_certs := certs, cn_primary_round := last_round \<rparr>)
                in if \<not> cn_outputs_open s1 then (s1, Inl (SClosedChannel ''consensus_output''))
                   else (send_output co s1, Inr ()))))"

definition get_last_executed_consensus :: "chain_config \<Rightarrow> chain_store \<Rightarrow> block_hash option \<Rightarrow> block_hash \<times> nat" where
  "get_last_executed_consensus g st root =
     (let h = last_executed_or (cg_default g) st root in (consensus_header_digest (cg_hash g) h, ch_number h))"

definition MAX_PENDING_PAYLOADS :: nat where "MAX_PENDING_PAYLOADS = 1000"

text \<open>
  The subscriber of an active validator: the digest and number of the last header it made, and the
  sub dags whose batches are being fetched.
\<close>

record subscriber = chain_node +
  su_parent :: block_hash
  su_number :: nat
  su_waiting :: "(sub_dag \<times> block_hash \<times> nat) list"

fun handle_all :: "chain_config \<Rightarrow> batch_client \<Rightarrow> consensus_header list \<Rightarrow> chain_node \<Rightarrow> chain_node \<times> (subscriber_error, unit) result" where
  "handle_all g client [] s = (s, Inr ())"
| "handle_all g client (h # hs) s =
     (case handle_consensus_header g client h s of (s1, Inl e) \<Rightarrow> (s1, Inl e) | (s1, Inr _) \<Rightarrow> handle_all g client hs s1)"

text \<open>The start of the main loop; \<open>root'\<close> is what was executed when the unexecuted headers had been sent.\<close>

definition subscriber_start ::
  "chain_config \<Rightarrow> batch_client \<Rightarrow> block_hash option \<Rightarrow> block_hash option \<Rightarrow> chain_node \<Rightarrow> (subscriber_error, subscriber) result" where
  "subscriber_start g client root root' s =
     (case get_missing_consensus (cg_default g) (cn_store s) root of
        Inl e \<Rightarrow> Inl (SStoreError e)
      | Inr missing \<Rightarrow>
          (case handle_all g client missing s of
             (_, Inl e) \<Rightarrow> Inl e
           | (s1, Inr _) \<Rightarrow>
               (let (parent, number) = get_last_executed_consensus g (cn_store s1) root'
                in Inr (chain_node.extend s1 \<lparr> su_parent = parent, su_number = number, su_waiting = [] \<rparr>))))"

datatype subscriber_event = SubDagReceived sub_dag | BatchesFetched batch_client

text \<open>One turn of the main loop; the second component tells whether and how the loop ends.\<close>

definition subscriber_step ::
  "chain_config \<Rightarrow> subscriber_event \<Rightarrow> subscriber \<Rightarrow> subscriber \<times> (subscriber_error, unit) result option" where
  "subscriber_step g ev s =
     (case ev of
        SubDagReceived sd \<Rightarrow>
          if \<not> length (su_waiting s) < MAX_PENDING_PAYLOADS then (s, None)
          else (let parent = su_parent s; number = su_number s + 1; d = digest_from_parts (cg_hash g) parent sd number
                in (s\<lparr> cn_last_header := \<lparr> ch_parent_hash = parent, ch_sub_dag = sd, ch_number = number, ch_extra = 0 \<rparr>,
                       cn_published := cn_published s @ [(number, d)],
                       su_parent := d, su_number := number, su_waiting := su_waiting s @ [(sd, parent, number)] \<rparr>, None))
      | BatchesFetched client \<Rightarrow>
          (case su_waiting s of
             [] \<Rightarrow> (s, None)
           | (sd, parent, number) # rest \<Rightarrow>
               (let s1 = s\<lparr> su_waiting := rest \<rparr> in
                case fetch_batches (cg_committee g) (cn_mode s) client sd parent number of
                  Inl e \<Rightarrow> (s1, None)
                | Inr co \<Rightarrow>
                    (case save_consensus (cg_hash_batch g) (cg_hash g) co (cn_store s1) of
                       (_, Inl e) \<Rightarrow> (s1, Some (Inl (SStoreError e)))
                     | (st, Inr _) \<Rightarrow>
                         (let s2 = s1\<lparr> cn_store := st \<rparr> in
                          if \<not> cn_outputs_open s2 then (s2, Some (Inr ()))
                          else (s2\<lparr> cn_outputs := cn_outputs s2 @ [co] \<rparr>, None))))))"

fun subscriber_run :: "chain_config \<Rightarrow> subscriber_event list \<Rightarrow> subscriber \<Rightarrow> subscriber \<times> (subscriber_error, unit) result option" where
  "subscriber_run g [] s = (s, None)"
| "subscriber_run g (ev # evs) s =
     (case subscriber_step g ev s of (s1, Some r) \<Rightarrow> (s1, Some r) | (s1, None) \<Rightarrow> subscriber_run g evs s1)"

text \<open>
  Following the chain: the headers of the channel are handled in order. A validator that caught up
  with the last header it heard of asks for a restart as an active one.
\<close>

fun catch_up_rejoin_consensus ::
  "chain_config \<Rightarrow> batch_client \<Rightarrow> consensus_header list \<Rightarrow> chain_node \<Rightarrow> chain_node \<times> (subscriber_error, unit) result option" where
  "catch_up_rejoin_consensus g client [] s = (s, None)"
| "catch_up_rejoin_consensus g client (h # hs) s =
     (case handle_consensus_header g client h s of
        (s1, Inl e) \<Rightarrow> (s1, Some (Inl e))
      | (s1, Inr _) \<Rightarrow>
          if ch_number h = ch_number (cn_last_header s1) then (s1\<lparr> cn_restart := True, cn_mode := CvvActive \<rparr>, Some (Inr ()))
          else catch_up_rejoin_consensus g client hs s1)"

definition follow_consensus ::
  "chain_config \<Rightarrow> batch_client \<Rightarrow> consensus_header list \<Rightarrow> chain_node \<Rightarrow> chain_node \<times> (subscriber_error, unit) result" where
  "follow_consensus g client hs s = handle_all g client hs s"

section \<open>Headers from peers\<close>

definition header_response :: "(p2p_error, primary_response) result \<Rightarrow> (p2p_error, consensus_header) result" where
  "header_response reply =
     (case reply of
        Inl e \<Rightarrow> Inl e
      | Inr (ConsensusHeaderResponse h) \<Rightarrow> Inr h
      | Inr (ErrorResponse s) \<Rightarrow> Inl (RPCError s)
      | Inr _ \<Rightarrow> Inl (RPCError ''Got wrong response, not a consensus header!''))"

text \<open>
  Asking any peer, up to three times: \<^const>\<open>Inl\<close> is a request that could not be made, \<^const>\<open>Inr\<close> the reply of the peer.
  \<^const>\<open>None\<close> while replies are missing.
\<close>

type_synonym any_reply = "(p2p_error, (p2p_error, primary_response) result) result"

fun request_consensus :: "nat \<Rightarrow> any_reply list \<Rightarrow> (p2p_error, consensus_header) result option" where
  "request_consensus tries [] = (if tries = 0 then Some (Inl (RPCError ''Could not get the consensus header!'')) else None)"
| "request_consensus tries (r # rs) =
     (if tries = 0 then Some (Inl (RPCError ''Could not get the consensus header!''))
      else case r of
        Inl e \<Rightarrow> Some (Inl e)
      | Inr (Inr (ConsensusHeaderResponse h)) \<Rightarrow> Some (Inr h)
      | Inr _ \<Rightarrow> request_consensus (tries - 1) rs)"

text \<open>Up to four headers are requested until the certificates of one verify.\<close>

fun request_valid_header ::
  "crypto \<Rightarrow> committee \<Rightarrow> nat \<Rightarrow> any_reply list list \<Rightarrow> (string, consensus_header) result option" where
  "request_valid_header cr c try_num [] = (if try_num > 3 then Some (Inl ''unable to read a valid consensus header!'') else None)"
| "request_valid_header cr c try_num (rs # rss) =
     (if try_num > 3 then Some (Inl ''unable to read a valid consensus header!'')
      else case request_consensus 3 rs of
        None \<Rightarrow> None
      | Some (Inl e) \<Rightarrow> Some (Inl ''network'')
      | Some (Inr h) \<Rightarrow>
          (case ch_verify_certificates cr c h of
             Inr h' \<Rightarrow> Some (Inr h') | Inl _ \<Rightarrow> request_valid_header cr c (try_num + 1) rss))"

text \<open>The replies of the peers for each number, and the blocks that get executed in time.\<close>

record catch_up_env =
  ce_replies :: "nat \<Rightarrow> any_reply list list"
  ce_executed :: "block_num_hash \<Rightarrow> bool"

definition next_header ::
  "chain_config \<Rightarrow> catch_up_env \<Rightarrow> chain_store \<Rightarrow> consensus_header \<Rightarrow> nat \<Rightarrow> (string, consensus_header) result option" where
  "next_header g env st max_consensus number =
     (if number = ch_number max_consensus then Some (Inr max_consensus)
      else case (if cc_open st then map_of (cc_blocks st) number else None) of
        Some h \<Rightarrow> Some (Inr h)
      | None \<Rightarrow> request_valid_header (cg_crypto g) (cg_committee g) 0 (ce_replies env number))"

text \<open>The headers that are sent to the channel, and the result; \<^const>\<open>None\<close> while a reply is missing.\<close>

fun catch_up_loop ::
  "chain_config \<Rightarrow> catch_up_env \<Rightarrow> chain_store \<Rightarrow> consensus_header \<Rightarrow> nat list \<Rightarrow> block_hash \<Rightarrow> consensus_header
    \<Rightarrow> consensus_header list \<times> (string, consensus_header) result option" where
  "catch_up_loop g env st max_consensus [] parent result = ([], Some (Inr result))"
| "catch_up_loop g env st max_consensus (n # ns) parent result =
     (case next_header g env st max_consensus n of
        None \<Rightarrow> ([], None)
      | Some (Inl e) \<Rightarrow> ([], Some (Inl e))
      | Some (Inr h) \<Rightarrow>
          (let d = digest_from_parts (cg_hash g) parent (ch_sub_dag h) n in
           if d \<noteq> consensus_header_digest (cg_hash g) h then ([], Some (Inl ''consensus header digest mismatch!''))
           else if \<not> ce_executed env (h_latest_execution_block (c_header (sd_leader (ch_sub_dag h))))
           then ([], Some (Inl ''consensus_output has a parent not in our chain''))
           else (let (sent, r) = catch_up_loop g env st max_consensus ns d h in (h # sent, r))))"

definition catch_up_consensus_from_to ::
  "chain_config \<Rightarrow> catch_up_env \<Rightarrow> chain_store \<Rightarrow> consensus_header \<Rightarrow> consensus_header
    \<Rightarrow> consensus_header list \<times> (string, consensus_header) result option" where
  "catch_up_consensus_from_to g env st from max_consensus =
     (if ch_number from \<ge> ch_number max_consensus then ([], Some (Inr from))
      else catch_up_loop g env st max_consensus [ch_number from + 1..<ch_number max_consensus + 1]
             (consensus_header_digest (cg_hash g) from) from)"

text \<open>The task that keeps the watch of the last header up to date, for one number heard by gossip.\<close>

definition track_recent_consensus :: "chain_config \<Rightarrow> (p2p_error, consensus_header) result \<Rightarrow> chain_node \<Rightarrow> chain_node" where
  "track_recent_consensus g reply s =
     (case reply of
        Inl _ \<Rightarrow> s
      | Inr h \<Rightarrow>
          (case ch_verify_certificates (cg_crypto g) (cg_committee g) h of
             Inl _ \<Rightarrow> s
           | Inr h' \<Rightarrow> if ch_number h' > ch_number (cn_last_header s) then s\<lparr> cn_last_header := h' \<rparr> else s))"

text \<open>The task that streams headers: its state is the last header that it sent.\<close>

definition stream_start :: "chain_config \<Rightarrow> chain_store \<Rightarrow> consensus_header" where
  "stream_start g st = (case last_record st of Some e \<Rightarrow> snd e | None \<Rightarrow> cg_default g)"

definition stream_consensus_headers ::
  "chain_config \<Rightarrow> catch_up_env \<Rightarrow> consensus_header \<Rightarrow> chain_node \<Rightarrow> chain_node \<times> (string, consensus_header) result option" where
  "stream_consensus_headers g env prev s =
     (if ch_number (cn_last_header s) > ch_number prev then
        (let (sent, r) = catch_up_consensus_from_to g env (cn_store s) prev (cn_last_header s)
         in (s\<lparr> cn_headers := cn_headers s @ sent \<rparr>, r))
      else (s, Some (Inr prev)))"

text \<open>
  The latest header among those of the committee. A reply is \<^const>\<open>None\<close> when its time is up; a header that
  does not verify ends the search with no header at all.
\<close>

definition later_header :: "consensus_header \<Rightarrow> consensus_header \<Rightarrow> consensus_header" where
  "later_header h prev =
     (let l = sd_leader (ch_sub_dag h); p = sd_leader (ch_sub_dag prev)
      in if cert_epoch l > cert_epoch p \<or> cert_epoch l = cert_epoch p \<and> c_round l > c_round p then h else prev)"

fun max_header_loop ::
  "chain_config \<Rightarrow> (p2p_error, consensus_header) result option list \<Rightarrow> consensus_header option \<Rightarrow> consensus_header option" where
  "max_header_loop g [] result = result"
| "max_header_loop g (Some (Inr h) # rs) result =
     (case ch_verify_certificates (cg_crypto g) (cg_committee g) h of
        Inl _ \<Rightarrow> None
      | Inr h' \<Rightarrow> max_header_loop g rs (Some (case result of None \<Rightarrow> h' | Some prev \<Rightarrow> later_header h' prev)))"
| "max_header_loop g (_ # rs) result = max_header_loop g rs result"

definition get_peers :: "committee \<Rightarrow> authority_id \<Rightarrow> authority_id list" where
  "get_peers c self = map fst (others_primaries_by_id c self)"

text \<open>The replies arrive in any order, one of each peer.\<close>

definition max_consensus_header_from_committee ::
  "chain_config \<Rightarrow> (p2p_error, consensus_header) result option list \<Rightarrow> consensus_header option" where
  "max_consensus_header_from_committee g replies = max_header_loop g replies None"

definition can_cvv ::
  "chain_config \<Rightarrow> block_hash option \<Rightarrow> (p2p_error, consensus_header) result option list \<Rightarrow> chain_node \<Rightarrow> chain_node \<times> bool" where
  "can_cvv g root replies s =
     (let executed = last_executed_or (cg_default g) (cn_store s) root;
          epoch = cert_epoch (sd_leader (ch_sub_dag executed)); last_round = c_round (sd_leader (ch_sub_dag executed));
          s1 = update_consensus_rounds (round_new_with_gc_depth last_round (cg_gc_depth g)) (s\<lparr> cn_primary_round := last_round \<rparr>);
          max_header = (case max_consensus_header_from_committee g replies of Some h \<Rightarrow> h | None \<Rightarrow> executed);
          s2 = s1\<lparr> cn_last_header := max_header \<rparr>
      in (s2, cert_epoch (sd_leader (ch_sub_dag max_header)) = epoch \<and> u32_add last_round (cg_gc_depth g) > c_round (sd_leader (ch_sub_dag max_header))))"

section \<open>The state handler\<close>

definition handle_sequenced :: "authority_id \<Rightarrow> round \<Rightarrow> certificate list \<Rightarrow> round \<times> round list" where
  "handle_sequenced self commit_round xs =
     (commit_round, map (\<lambda>x. h_round (c_header x)) (filter (\<lambda>x. h_author (c_header x) = self) xs))"

end
