(* ===== verification/Chain_Proofs.thy ===== *)
theory Chain_Proofs
  imports Consensus_Chain
begin

text \<open>
  The consensus chain as a list of headers linked by hash and number: what the subscriber publishes and
  saves is such a list, and so is what a follower receives from its peers.
\<close>

section \<open>Linked headers\<close>

fun chain_linked :: "chain_hash \<Rightarrow> block_hash \<Rightarrow> nat \<Rightarrow> consensus_header list \<Rightarrow> bool" where
  "chain_linked ha p n [] \<longleftrightarrow> True"
| "chain_linked ha p n (h # hs) \<longleftrightarrow> ch_parent_hash h = p \<and> ch_number h = n + 1 \<and> chain_linked ha (consensus_header_digest ha h) (n + 1) hs"

fun chain_headers :: "chain_hash \<Rightarrow> block_hash \<Rightarrow> nat \<Rightarrow> sub_dag list \<Rightarrow> consensus_header list" where
  "chain_headers ha p n [] = []"
| "chain_headers ha p n (sd # sds) =
     \<lparr> ch_parent_hash = p, ch_sub_dag = sd, ch_number = n + 1, ch_extra = 0 \<rparr> # chain_headers ha (digest_from_parts ha p sd (n + 1)) (n + 1) sds"

text \<open>The parent hash and the number with which the list continues.\<close>

fun chain_tip :: "chain_hash \<Rightarrow> block_hash \<Rightarrow> nat \<Rightarrow> sub_dag list \<Rightarrow> block_hash \<times> nat" where
  "chain_tip ha p n [] = (p, n)"
| "chain_tip ha p n (sd # sds) = chain_tip ha (digest_from_parts ha p sd (n + 1)) (n + 1) sds"

lemma chain_headers_linked: "chain_linked ha p n (chain_headers ha p n sds)"
  by (induction sds arbitrary: p n) (simp_all add: consensus_header_digest_def)

lemma chain_headers_snoc:
  "chain_headers ha p n (sds @ [sd]) = chain_headers ha p n sds @
     [\<lparr> ch_parent_hash = fst (chain_tip ha p n sds), ch_sub_dag = sd, ch_number = snd (chain_tip ha p n sds) + 1, ch_extra = 0 \<rparr>]"
  "chain_tip ha p n (sds @ [sd]) =
     (digest_from_parts ha (fst (chain_tip ha p n sds)) sd (snd (chain_tip ha p n sds) + 1), snd (chain_tip ha p n sds) + 1)"
  by (induction sds arbitrary: p n) simp_all

lemma chain_headers_length [simp]: "length (chain_headers ha p n sds) = length sds"
  by (induction sds arbitrary: p n) simp_all

lemma chain_linked_numbers: "chain_linked ha p n hs \<Longrightarrow> map ch_number hs = [n + 1..<n + 1 + length hs]"
proof (induction hs arbitrary: p n)
  case (Cons h hs)
  have "chain_linked ha (consensus_header_digest ha h) (n + 1) hs" using Cons.prems by simp
  from Cons.IH[OF this] show ?case using Cons.prems by (simp add: upt_conv_Cons del: upt_Suc)
qed simp

lemma chain_linked_numbers_distinct: "chain_linked ha p n hs \<Longrightarrow> distinct (map ch_number hs)"
  by (simp add: chain_linked_numbers)

text \<open>What is assumed of the hash of a header: it identifies its parts.\<close>

definition block_hash_injective :: "chain_hash \<Rightarrow> bool" where
  "block_hash_injective ha \<longleftrightarrow> (\<forall>p d m q e n. hash_block ha p d m = hash_block ha q e n \<longrightarrow> p = q \<and> d = e \<and> m = n)"

lemma digest_injective:
  assumes "block_hash_injective ha" "consensus_header_digest ha h = consensus_header_digest ha h'"
  shows "ch_parent_hash h = ch_parent_hash h'" "sub_dag_digest ha (ch_sub_dag h) = sub_dag_digest ha (ch_sub_dag h')" "ch_number h = ch_number h'"
  using assms unfolding block_hash_injective_def consensus_header_digest_def digest_from_parts_def by blast+

text \<open>Two linked lists from one start that end in the same header are the same list, up to the digests.\<close>

lemma chain_linked_same_start:
  assumes "block_hash_injective ha" "length hs = length hs'" "hs \<noteq> []" "chain_linked ha p n hs" "chain_linked ha q n hs'"
    and "consensus_header_digest ha (last hs) = consensus_header_digest ha (last hs')"
  shows "p = q"
  using assms(2-)
proof (induction hs hs' arbitrary: p q n rule: list_induct2)
  case (Cons x xs y ys)
  have "consensus_header_digest ha x = consensus_header_digest ha y"
  proof (cases "xs = []")
    case False
    moreover have "ys \<noteq> []" using False Cons.hyps by auto
    ultimately show ?thesis using Cons.IH[of "consensus_header_digest ha x" "n + 1" "consensus_header_digest ha y"] Cons.prems by simp
  qed (use Cons in simp)
  thus ?case using digest_injective(1)[OF assms(1), of x y] Cons.prems(2,3) by simp
qed simp

lemma chain_linked_same_end:
  assumes "block_hash_injective ha" "length hs = length hs'" "chain_linked ha p n hs" "chain_linked ha p n hs'" "hs \<noteq> []"
    and "consensus_header_digest ha (last hs) = consensus_header_digest ha (last hs')"
  shows "map (consensus_header_digest ha) hs = map (consensus_header_digest ha) hs'"
  using assms(2-)
proof (induction hs hs' arbitrary: p n rule: list_induct2)
  case (Cons x xs y ys)
  show ?case
  proof (cases "xs = []")
    case False
    hence ys: "ys \<noteq> []" using Cons.hyps by auto
    have tl: "chain_linked ha (consensus_header_digest ha x) (n + 1) xs" "chain_linked ha (consensus_header_digest ha y) (n + 1) ys"
      using Cons.prems(1,2) by simp_all
    have "consensus_header_digest ha x = consensus_header_digest ha y"
      using chain_linked_same_start[OF assms(1) Cons.hyps False tl] Cons.prems(4) False ys by simp
    thus ?thesis using Cons.IH[of "consensus_header_digest ha x" "n + 1"] tl Cons.prems(4) False ys by simp
  qed (use Cons in simp)
qed simp

section \<open>Saving outputs\<close>

lemma save_consensus_spec:
  assumes "save_consensus hb ha co st = (st', Inr ())"
  shows "cc_open st" "cc_open st'"
    "map_of (cc_blocks st') k = (if k = co_number co then Some (output_header co) else map_of (cc_blocks st) k)"
    "map_of (cc_numbers st') d = (if d = consensus_header_hash ha co then Some (co_number co) else map_of (cc_numbers st) d)"
  using assms by (auto simp: save_consensus_def Let_def map_simps output_header_def consensus_header_hash_def consensus_header_digest_def split: if_splits)

lemma fetch_batches_parts:
  assumes "fetch_batches c mode client sd p n = Inr co"
  shows "co_sub_dag co = sd" "co_parent_hash co = p" "co_number co = n" "co_extra co = 0" "co_early_finalize co = is_active_cvv mode"
  using assms by (auto simp: fetch_batches_def Let_def split: option.splits if_splits sum.splits)

text \<open>
  A worker serves batches when it answers every request with a batch for each digest that was asked
  for, and a digest is the digest of its batch.
\<close>

definition serves :: "(batch \<Rightarrow> block_hash) \<Rightarrow> batch_client \<Rightarrow> bool" where
  "serves hb client \<longleftrightarrow> (\<forall>ds. \<exists>bs. client ds = Inr bs \<and> set ds \<subseteq> fst ` set bs \<and> (\<forall>(d, b)\<in>set bs. batch_digest hb b = d))"

lemma fetched_map:
  assumes "\<forall>(d, b)\<in>set bs. batch_digest hb b = d" "d \<in> fst ` set bs"
  shows "\<exists>b. map_of (fold (\<lambda>(d, b). AList.update d b) bs []) d = Some b \<and> batch_digest hb b = d"
proof -
  have m: "map_of (fold (\<lambda>(d, b). AList.update d b) bs []) = map_of (rev bs)"
    using hm.get_put_list[of "[]" bs] by simp
  obtain b where b: "map_of (rev bs) d = Some b" using assms(2) by (metis map_of_eq_None_iff not_None_eq set_rev)
  hence "(d, b) \<in> set bs" using map_of_SomeD by fastforce
  thus ?thesis using m b assms(1) by auto
qed

lemma try_map_ok:
  assumes "\<forall>x\<in>set xs. \<exists>y. f x = Inr y \<and> P x y"
  shows "\<exists>ys. try_map f xs = Inr ys \<and> list_all2 P xs ys"
  using assms by (induction xs) auto

lemma fetch_batches_ok:
  assumes "committee_authority c (c_origin (sd_leader sd)) = Some a" "serves hb client"
  shows "\<exists>co. fetch_batches c mode client sd p n = Inr co \<and> map (batch_digest hb) (flatten_batches co) = sub_dag_payload sd \<and>
    co_batch_digests co = sub_dag_payload sd"
proof (cases "num_primary_blocks sd = 0")
  case True
  hence "sub_dag_payload sd = []" by (auto simp: num_primary_blocks_def sub_dag_payload_def)
  thus ?thesis using True assms(1) by (simp add: fetch_batches_def Let_def flatten_batches_def)
next
  case False
  let ?ds = "remdups (sub_dag_payload sd)"
  obtain bs where bs: "client ?ds = Inr bs" "set ?ds \<subseteq> fst ` set bs" "\<forall>(d, b)\<in>set bs. batch_digest hb b = d"
    using assms(2) unfolding serves_def by blast
  let ?f = "fold (\<lambda>(d, b). AList.update d b) bs []"
  have "\<exists>ys. cert_batches ?f x = Inr ys \<and> map (batch_digest hb) ys = map fst (h_payload (c_header x))" if "x \<in> set (sd_certificates sd)" for x
  proof -
    have "\<forall>e\<in>set (h_payload (c_header x)). \<exists>b. (case e of (d, _) \<Rightarrow> case map_of ?f d of None \<Rightarrow> Inl ClientRequestsFailed | Some b \<Rightarrow> Inr b) = Inr b \<and> batch_digest hb b = fst e"
    proof (clarify)
      fix d w assume "(d, w) \<in> set (h_payload (c_header x))"
      hence "d \<in> fst ` set bs" using bs(2) that by (force simp: sub_dag_payload_def)
      thus "\<exists>b. (case map_of ?f d of None \<Rightarrow> Inl ClientRequestsFailed | Some b \<Rightarrow> Inr b) = Inr b \<and> batch_digest hb b = fst (d, w)"
        using fetched_map[OF bs(3)] by force
    qed
    from try_map_ok[OF this] obtain ys where "cert_batches ?f x = Inr ys" "list_all2 (\<lambda>e b. batch_digest hb b = fst e) (h_payload (c_header x)) ys"
      unfolding cert_batches_def by blast
    moreover from this(2) have "map (batch_digest hb) ys = map fst (h_payload (c_header x))" by (induction rule: list_all2_induct) auto
    ultimately show ?thesis by blast
  qed
  hence "\<exists>bss. try_map (cert_batches ?f) (sd_certificates sd) = Inr bss \<and>
      list_all2 (\<lambda>x ys. map (batch_digest hb) ys = map fst (h_payload (c_header x))) (sd_certificates sd) bss"
    by (intro try_map_ok) blast
  then obtain bss where s: "try_map (cert_batches ?f) (sd_certificates sd) = Inr bss"
    "list_all2 (\<lambda>x ys. map (batch_digest hb) ys = map fst (h_payload (c_header x))) (sd_certificates sd) bss" by blast
  have "map (batch_digest hb) (concat bss) = sub_dag_payload sd"
    unfolding sub_dag_payload_def using s(2) by (induction rule: list_all2_induct) auto
  thus ?thesis using False assms(1) bs(1) s(1) by (simp add: fetch_batches_def fetch_batches_from_peers_def Let_def flatten_batches_def)
qed

section \<open>The subscriber\<close>

text \<open>
  The steps of the main loop with the log of the sub dags it took; \<open>F\<close> is the set of the answers that the
  workers may give and \<open>L\<close> the set of the sub dags that may arrive.
\<close>

inductive subscribed :: "chain_config \<Rightarrow> batch_client set \<Rightarrow> sub_dag set \<Rightarrow> subscriber \<times> sub_dag list \<Rightarrow> subscriber \<times> sub_dag list \<Rightarrow> bool" for g F L where
  received: "sd \<in> L \<Longrightarrow> length (su_waiting s) < MAX_PENDING_PAYLOADS \<Longrightarrow> subscriber_step g (SubDagReceived sd) s = (s', None) \<Longrightarrow>
    subscribed g F L (s, log) (s', log @ [sd])"
| fetched: "client \<in> F \<Longrightarrow> subscriber_step g (BatchesFetched client) s = (s', r) \<Longrightarrow> subscribed g F L (s, log) (s', log)"

abbreviation waiting_header :: "sub_dag \<times> block_hash \<times> nat \<Rightarrow> consensus_header" where
  "waiting_header e \<equiv> \<lparr> ch_parent_hash = fst (snd e), ch_sub_dag = fst e, ch_number = snd (snd e), ch_extra = 0 \<rparr>"

text \<open>
  From a start with parent \<open>p\<close>, number \<open>n\<close> and the outputs \<open>old\<close>: the headers of the outputs followed by
  those that wait are the chain of the sub dags taken; the outputs are in the tables and carry the
  batches of their payload.
\<close>

definition sub_inv ::
  "chain_config \<Rightarrow> block_hash \<Rightarrow> nat \<Rightarrow> (nat \<times> block_hash) list \<Rightarrow> consensus_output list \<Rightarrow> sub_dag set \<Rightarrow> subscriber \<times> sub_dag list \<Rightarrow> bool" where
  "sub_inv g p n pub old L sl \<longleftrightarrow> (case sl of (s, log) \<Rightarrow>
     (\<exists>new. cn_outputs s = old @ new \<and> chain_headers (cg_hash g) p n log = map output_header new @ map waiting_header (su_waiting s) \<and>
       (\<forall>co\<in>set new. map (batch_digest (cg_hash_batch g)) (flatten_batches co) = sub_dag_payload (co_sub_dag co) \<and>
          co_batch_digests co = sub_dag_payload (co_sub_dag co) \<and>
          map_of (cc_blocks (cn_store s)) (co_number co) = Some (output_header co) \<and>
          map_of (cc_numbers (cn_store s)) (consensus_header_hash (cg_hash g) co) = Some (co_number co))) \<and>
     chain_tip (cg_hash g) p n log = (su_parent s, su_number s) \<and>
     cn_published s = pub @ map (\<lambda>h. (ch_number h, consensus_header_digest (cg_hash g) h)) (chain_headers (cg_hash g) p n log) \<and>
     cc_open (cn_store s) \<and> cn_outputs_open s \<and> set log \<subseteq> L)"

lemma sub_inv_received:
  assumes "sub_inv g p n pub old L (s, log)" "sd \<in> L" "length (su_waiting s) < MAX_PENDING_PAYLOADS" "subscriber_step g (SubDagReceived sd) s = (s', None)"
  shows "sub_inv g p n pub old L (s', log @ [sd])"
proof -
  have "s' = s\<lparr> cn_last_header := \<lparr> ch_parent_hash = su_parent s, ch_sub_dag = sd, ch_number = su_number s + 1, ch_extra = 0 \<rparr>,
      cn_published := cn_published s @ [(su_number s + 1, digest_from_parts (cg_hash g) (su_parent s) sd (su_number s + 1))],
      su_parent := digest_from_parts (cg_hash g) (su_parent s) sd (su_number s + 1), su_number := su_number s + 1,
      su_waiting := su_waiting s @ [(sd, su_parent s, su_number s + 1)] \<rparr>"
    using assms(3,4) by (simp add: subscriber_step_def Let_def)
  thus ?thesis using assms(1,2) unfolding sub_inv_def by (auto simp: chain_headers_snoc consensus_header_digest_def)
qed

lemma chain_headers_sub_dags: "map ch_sub_dag (chain_headers ha p n sds) = sds"
  by (induction sds arbitrary: p n) simp_all

lemma sub_inv_fetched:
  assumes "block_hash_injective (cg_hash g)" "\<forall>sd\<in>L. c_origin (sd_leader sd) \<in> members (cg_committee g)" "serves (cg_hash_batch g) client"
    and "sub_inv g p n pub old L (s, log)" "subscriber_step g (BatchesFetched client) s = (s', r)"
  shows "sub_inv g p n pub old L (s', log)"
proof (cases "su_waiting s")
  case Nil
  thus ?thesis using assms(4,5) by (simp add: subscriber_step_def)
next
  case (Cons e rest)
  let ?ha = "cg_hash g" and ?hb = "cg_hash_batch g"
  obtain sd q m where e: "e = (sd, q, m)" by (cases e)
  obtain new where new: "cn_outputs s = old @ new" "chain_headers ?ha p n log = map output_header new @ map waiting_header (su_waiting s)"
    "\<forall>co\<in>set new. map (batch_digest ?hb) (flatten_batches co) = sub_dag_payload (co_sub_dag co) \<and> co_batch_digests co = sub_dag_payload (co_sub_dag co) \<and>
      map_of (cc_blocks (cn_store s)) (co_number co) = Some (output_header co) \<and> map_of (cc_numbers (cn_store s)) (consensus_header_hash ?ha co) = Some (co_number co)"
    using assms(4) unfolding sub_inv_def by auto
  have rest': "chain_tip ?ha p n log = (su_parent s, su_number s)" "set log \<subseteq> L" "cc_open (cn_store s)" "cn_outputs_open s"
    "cn_published s = pub @ map (\<lambda>h. (ch_number h, consensus_header_digest ?ha h)) (chain_headers ?ha p n log)"
    using assms(4) unfolding sub_inv_def by auto
  have "sd \<in> set (map ch_sub_dag (chain_headers ?ha p n log))" by (simp add: new(2) Cons e)
  hence "c_origin (sd_leader sd) \<in> members (cg_committee g)" using assms(2) rest'(2) by (auto simp: chain_headers_sub_dags)
  then obtain a where a: "committee_authority (cg_committee g) (c_origin (sd_leader sd)) = Some a"
    by (auto simp: members_def bt_keys_def committee_authority_def dest: weak_map_of_SomeI)
  obtain co where co: "fetch_batches (cg_committee g) (cn_mode s) client sd q m = Inr co"
    "map (batch_digest ?hb) (flatten_batches co) = sub_dag_payload sd" "co_batch_digests co = sub_dag_payload sd"
    using fetch_batches_ok[OF a assms(3)] by blast
  note parts = fetch_batches_parts[OF co(1)]
  obtain st where st: "save_consensus ?hb ?ha co (cn_store s) = (st, Inr ())" using rest'(3) by (simp add: save_consensus_def Let_def)
  note sv = save_consensus_spec[OF st]
  have s': "s' = s\<lparr> su_waiting := rest, cn_store := st, cn_outputs := cn_outputs s @ [co] \<rparr>"
    using assms(5) Cons e co(1) st rest'(4) by (simp add: subscriber_step_def Let_def)
  have oh: "output_header co = waiting_header e" using parts by (simp add: output_header_def e)
  have fresh: "co_number co' \<noteq> co_number co" if "co' \<in> set new" for co'
  proof -
    have "distinct (map ch_number (chain_headers ?ha p n log))" by (rule chain_linked_numbers_distinct[OF chain_headers_linked])
    moreover have "ch_number (output_header co') \<in> ch_number ` set (map output_header new)" using that by simp
    ultimately have "ch_number (output_header co') \<noteq> ch_number (waiting_header e)" by (auto simp: new(2) Cons)
    thus ?thesis using parts by (simp add: output_header_def e)
  qed
  have hash: "consensus_header_hash ?ha co' \<noteq> consensus_header_hash ?ha co" if "co' \<in> set new" for co'
    using fresh[OF that] assms(1) unfolding block_hash_injective_def consensus_header_hash_def digest_from_parts_def by blast
  have "\<exists>new. cn_outputs s' = old @ new \<and> chain_headers ?ha p n log = map output_header new @ map waiting_header (su_waiting s') \<and>
       (\<forall>co\<in>set new. map (batch_digest ?hb) (flatten_batches co) = sub_dag_payload (co_sub_dag co) \<and> co_batch_digests co = sub_dag_payload (co_sub_dag co) \<and>
          map_of (cc_blocks (cn_store s')) (co_number co) = Some (output_header co) \<and> map_of (cc_numbers (cn_store s')) (consensus_header_hash ?ha co) = Some (co_number co))"
    by (rule exI[of _ "new @ [co]"]) (use new fresh hash co parts oh in \<open>auto simp: s' Cons sv\<close>)
  thus ?thesis using rest' sv(2) unfolding sub_inv_def by (simp add: s')
qed

section \<open>Catching up\<close>

lemma next_header_source:
  assumes "next_header g env st goal n = Some (Inr h)"
  shows "h = goal \<or> n \<noteq> ch_number goal \<and> (h \<in> snd ` set (cc_blocks st) \<or> (\<exists>h0. ch_verify_certificates (cg_crypto g) (cg_committee g) h0 = Inr h))"
proof -
  have "\<exists>h0. ch_verify_certificates cr c h0 = Inr h" if "request_valid_header cr c k rss = Some (Inr h)" for cr c k rss
    using that by (induction cr c k rss rule: request_valid_header.induct) (auto split: if_splits option.splits sum.splits)
  thus ?thesis using assms by (force simp: next_header_def split: if_splits option.splits dest: map_of_SomeD)
qed

lemma catch_up_loop_linked:
  assumes "block_hash_injective (cg_hash g)" "catch_up_loop g env st goal [n + 1..<m] p from = (sent, r)"
  shows "chain_linked (cg_hash g) p n sent \<and>
    (\<forall>h\<in>set sent. h = goal \<or> ch_number h \<noteq> ch_number goal \<and> (h \<in> snd ` set (cc_blocks st) \<or> (\<exists>h0. ch_verify_certificates (cg_crypto g) (cg_committee g) h0 = Inr h))) \<and>
    (\<forall>h. r = Some (Inr h) \<longrightarrow> length sent = m - (n + 1) \<and> h = (if sent = [] then from else last sent))"
  using assms(2)
proof (induction "m - (n + 1)" arbitrary: n p "from" sent)
  case 0
  thus ?case by auto
next
  case (Suc k)
  let ?ha = "cg_hash g"
  have up: "[n + 1..<m] = (n + 1) # [n + 1 + 1..<m]" using Suc.hyps(2) by (simp add: upt_conv_Cons)
  show ?case
  proof (cases "\<exists>h. next_header g env st goal (n + 1) = Some (Inr h) \<and> digest_from_parts ?ha p (ch_sub_dag h) (n + 1) = consensus_header_digest ?ha h \<and>
      ce_executed env (h_latest_execution_block (c_header (sd_leader (ch_sub_dag h))))")
    case True
    then obtain h where h: "next_header g env st goal (n + 1) = Some (Inr h)" "digest_from_parts ?ha p (ch_sub_dag h) (n + 1) = consensus_header_digest ?ha h"
      "ce_executed env (h_latest_execution_block (c_header (sd_leader (ch_sub_dag h))))" by blast
    obtain sent' r' where l: "catch_up_loop g env st goal [n + 1 + 1..<m] (consensus_header_digest ?ha h) h = (sent', r')" by force
    have sr: "sent = h # sent'" "r = r'" using Suc.prems up h l by (simp_all add: Let_def)
    have p: "ch_parent_hash h = p" "ch_number h = n + 1"
      using h(2) assms(1) unfolding block_hash_injective_def consensus_header_digest_def digest_from_parts_def by metis+
    have k: "k = m - (n + 1 + 1)" using Suc.hyps(2) by simp
    show ?thesis using Suc.hyps(1)[OF k l[folded sr(2)]] p next_header_source[OF h(1)] k Suc.hyps(2) by (auto simp: sr)
  next
    case False
    hence "sent = []" "\<forall>h. r \<noteq> Some (Inr h)" using Suc.prems up by (auto simp: Let_def split: option.splits sum.splits if_splits)
    thus ?thesis by simp
  qed
qed

section \<open>What is published\<close>

text \<open>The published numbers and digests follow the sub dags taken, whatever happens to their batches.\<close>

definition published_inv :: "chain_config \<Rightarrow> block_hash \<Rightarrow> nat \<Rightarrow> (nat \<times> block_hash) list \<Rightarrow> subscriber \<times> sub_dag list \<Rightarrow> bool" where
  "published_inv g p n pub sl \<longleftrightarrow> chain_tip (cg_hash g) p n (snd sl) = (su_parent (fst sl), su_number (fst sl)) \<and>
     cn_published (fst sl) = pub @ map (\<lambda>h. (ch_number h, consensus_header_digest (cg_hash g) h)) (chain_headers (cg_hash g) p n (snd sl))"

interpretation pb: step_system
  "\<lambda>sl. snd sl = [] \<and> su_parent (fst sl) = p \<and> su_number (fst sl) = n \<and> cn_published (fst sl) = pub"
  "subscribed g F L" "published_inv g p n pub" for g F L p n pub
proof unfold_locales
  fix a b
  assume i: "published_inv g p n pub a" and s: "subscribed g F L a b"
  from s show "published_inv g p n pub b"
  proof (cases rule: subscribed.cases)
    case (received sd s s' log)
    thus ?thesis using i
      by (auto simp: published_inv_def subscriber_step_def Let_def chain_headers_snoc consensus_header_digest_def)
  next
    case (fetched client s s' r log)
    have "su_parent s' = su_parent s \<and> su_number s' = su_number s \<and> cn_published s' = cn_published s"
      using fetched(4) by (auto simp: subscriber_step_def Let_def split: list.splits prod.splits sum.splits if_splits)
    thus ?thesis using fetched i by (simp add: published_inv_def)
  qed
qed (simp add: published_inv_def)

text \<open>The invariant of a subscriber whose workers serve and whose sub dags have leaders of the committee.\<close>

definition served_inv ::
  "chain_config \<Rightarrow> batch_client set \<Rightarrow> sub_dag set \<Rightarrow> block_hash \<Rightarrow> nat \<Rightarrow> (nat \<times> block_hash) list \<Rightarrow> consensus_output list \<Rightarrow> subscriber \<times> sub_dag list \<Rightarrow> bool" where
  "served_inv g F L p n pub old sl \<longleftrightarrow> block_hash_injective (cg_hash g) \<and> (\<forall>sd\<in>L. c_origin (sd_leader sd) \<in> members (cg_committee g)) \<and>
     (\<forall>client\<in>F. serves (cg_hash_batch g) client) \<and> sub_inv g p n pub old L sl"

definition served_start ::
  "chain_config \<Rightarrow> batch_client set \<Rightarrow> sub_dag set \<Rightarrow> block_hash \<Rightarrow> nat \<Rightarrow> (nat \<times> block_hash) list \<Rightarrow> consensus_output list \<Rightarrow> subscriber \<times> sub_dag list \<Rightarrow> bool" where
  "served_start g F L p n pub old sl \<longleftrightarrow> block_hash_injective (cg_hash g) \<and> (\<forall>sd\<in>L. c_origin (sd_leader sd) \<in> members (cg_committee g)) \<and>
     (\<forall>client\<in>F. serves (cg_hash_batch g) client) \<and> snd sl = [] \<and> su_waiting (fst sl) = [] \<and> su_parent (fst sl) = p \<and> su_number (fst sl) = n \<and>
     cn_published (fst sl) = pub \<and> cn_outputs (fst sl) = old \<and> cc_open (cn_store (fst sl)) \<and> cn_outputs_open (fst sl)"

interpretation sb: step_system "served_start g F L p n pub old" "subscribed g F L" "served_inv g F L p n pub old" for g F L p n pub old
proof unfold_locales
  fix sl assume "served_start g F L p n pub old sl"
  thus "served_inv g F L p n pub old sl" by (auto simp: served_start_def served_inv_def sub_inv_def split: prod.splits)
next
  fix a b
  assume i: "served_inv g F L p n pub old a" and s: "subscribed g F L a b"
  from s show "served_inv g F L p n pub old b"
  proof (cases rule: subscribed.cases)
    case (received sd s s' log)
    thus ?thesis using i sub_inv_received[OF _ received(3-5)] by (simp add: served_inv_def)
  next
    case (fetched client s s' r log)
    thus ?thesis using i sub_inv_fetched[of g L client p n pub old s log s' r] by (simp add: served_inv_def)
  qed
qed

section \<open>Restarts\<close>

lemma handle_header_store:
  assumes "handle_consensus_header g client h s = (s1, Inr ())"
  obtains co st where "fetch_batches (cg_committee g) (cn_mode s) client (ch_sub_dag h) (ch_parent_hash h) (ch_number h) = Inr co"
    "save_consensus (cg_hash_batch g) (cg_hash g) co (cn_store s) = (st, Inr ())" "cn_store s1 = st" "cn_outputs_open s1 = cn_outputs_open s"
  using assms by (auto simp: handle_consensus_header_def Let_def send_output_def update_consensus_rounds_def split: sum.splits prod.splits if_splits)

text \<open>Handling headers above the number \<open>N\<close> keeps the chain up to it.\<close>

definition chain_kept :: "chain_config \<Rightarrow> nat \<Rightarrow> chain_node \<Rightarrow> chain_node \<Rightarrow> bool" where
  "chain_kept g N s t \<longleftrightarrow> (\<forall>k\<le>N. map_of (cc_blocks (cn_store t)) k = map_of (cc_blocks (cn_store s)) k) \<and>
     dom (map_of (cc_blocks (cn_store s))) \<subseteq> dom (map_of (cc_blocks (cn_store t))) \<and>
     (\<forall>e. block_hash_injective (cg_hash g) \<longrightarrow> ch_number e \<le> N \<longrightarrow>
        map_of (cc_numbers (cn_store t)) (consensus_header_digest (cg_hash g) e) = map_of (cc_numbers (cn_store s)) (consensus_header_digest (cg_hash g) e)) \<and>
     (cc_open (cn_store s) \<longrightarrow> cc_open (cn_store t)) \<and> cn_outputs_open t = cn_outputs_open s"

lemma chain_kept_refl: "chain_kept g N s s"
  by (simp add: chain_kept_def)

lemma chain_kept_trans: "chain_kept g N s t \<Longrightarrow> chain_kept g N t u \<Longrightarrow> chain_kept g N s u"
  unfolding chain_kept_def by (intro conjI allI impI; (elim conjE)?; (simp | blast))

lemma handle_header_kept:
  assumes "N < ch_number h" "handle_consensus_header g client h s = (s1, Inr ())"
  shows "chain_kept g N s s1"
proof (rule handle_header_store[OF assms(2)])
  fix co st
  assume co: "fetch_batches (cg_committee g) (cn_mode s) client (ch_sub_dag h) (ch_parent_hash h) (ch_number h) = Inr co"
    "save_consensus (cg_hash_batch g) (cg_hash g) co (cn_store s) = (st, Inr ())" "cn_store s1 = st" "cn_outputs_open s1 = cn_outputs_open s"
  note sv = save_consensus_spec[OF co(2)]
  have n: "N < co_number co" using assms(1) fetch_batches_parts(3)[OF co(1)] by simp
  have "consensus_header_digest (cg_hash g) e \<noteq> consensus_header_hash (cg_hash g) co" if "block_hash_injective (cg_hash g)" "ch_number e \<le> N" for e
    using that n unfolding block_hash_injective_def consensus_header_hash_def consensus_header_digest_def digest_from_parts_def by (metis not_le)
  thus ?thesis using sv n co(3,4) by (auto simp: chain_kept_def)
qed

lemma handle_all_kept:
  assumes "\<forall>h\<in>set hs. N < ch_number h" "handle_all g client hs s = (s', Inr ())"
  shows "chain_kept g N s s'"
  using assms
proof (induction hs arbitrary: s)
  case (Cons h hs)
  obtain s1 where s1: "handle_consensus_header g client h s = (s1, Inr ())" "handle_all g client hs s1 = (s', Inr ())"
    using Cons.prems(2) by (auto split: prod.splits sum.splits)
  show ?case using chain_kept_trans[OF handle_header_kept[OF _ s1(1)] Cons.IH[OF _ s1(2)]] Cons.prems(1) by simp
qed (simp add: chain_kept_refl)

lemma missing_numbers:
  assumes "get_missing_consensus dflt st root = Inr hs" "\<forall>k h. map_of (cc_blocks st) k = Some h \<longrightarrow> ch_number h = k"
  shows "\<forall>h\<in>set hs. ch_number (last_executed_or dflt st root) < ch_number h"
  using assms by (auto simp: get_missing_consensus_def Let_def map_filter_def split: if_splits)

end
