(* ===== verification/Consensus_Task.thy ===== *)
theory Consensus_Task
  imports Bullshark_Safety Consensus_Chain
begin

text \<open>
  The consensus task (spawn, run and new_certificate of
  crates/consensus/primary/src/consensus/state.rs): it recovers the state of the protocol, gives it every
  new certificate and forwards what was committed to the subscriber and the state handler. The
  argument \<open>executed\<close> tells for which blocks waiting for execution succeeds; \<^const>\<open>None\<close> is a failed
  assertion.
\<close>

record consensus_task =
  tk_protocol :: bullshark
  tk_state :: cstate
  tk_active :: bool
  tk_sequence :: "sub_dag list"
  tk_committed :: "(round \<times> certificate list) list"
  tk_rounds :: consensus_round
  tk_mode :: node_mode
  tk_open :: bool

definition consensus_spawn :: "bullshark \<Rightarrow> round \<Rightarrow> node_mode \<Rightarrow> chain_store \<Rightarrow> (round \<Rightarrow> certificate list) \<Rightarrow> consensus_task option" where
  "consensus_spawn b depth mode st after =
     (let recovered = read_last_committed st;
          last_committed_round = foldr max (map snd recovered) 0;
          latest = get_latest_sub_dag st
      in if (case latest of Some s \<Rightarrow> c_round (sd_leader s) \<noteq> last_committed_round | None \<Rightarrow> False) then None
         else (case new_from_store last_committed_round depth recovered latest after of
                 None \<Rightarrow> None
               | Some cs \<Rightarrow> Some \<lparr> tk_protocol = b, tk_state = cs, tk_active = is_active_cvv mode, tk_sequence = [], tk_committed = [],
                                 tk_rounds = last_round cs, tk_mode = mode, tk_open = True \<rparr>))"

text \<open>The sub dags are forwarded until execution does not have the block that one of them builds on.\<close>

fun forward_sub_dags ::
  "(block_num_hash \<Rightarrow> bool) \<Rightarrow> sub_dag list \<Rightarrow> sub_dag list \<times> certificate list \<times> node_mode \<Rightarrow> sub_dag list \<times> certificate list \<times> node_mode" where
  "forward_sub_dags executed [] acc = acc"
| "forward_sub_dags executed (s # ss) (sequence, certs, mode) =
     (if \<not> executed (h_latest_execution_block (c_header (sd_leader s))) then (sequence, certs, CvvInactive)
      else forward_sub_dags executed ss (sequence @ [s], certs @ sd_certificates s, mode))"

definition new_certificate ::
  "rng \<Rightarrow> (block_num_hash \<Rightarrow> bool) \<Rightarrow> certificate \<Rightarrow> consensus_task \<Rightarrow> (consensus_task \<times> (consensus_error, unit) result) option" where
  "new_certificate g executed x t =
     (if cert_epoch x \<noteq> c_epoch (bs_committee (tk_protocol t)) then Some (t, Inr ())
      else case process_certificate g (tk_protocol t) (tk_state t) x of
        None \<Rightarrow> None
      | Some (b, st, Inl e) \<Rightarrow> Some (t\<lparr> tk_protocol := b, tk_state := st \<rparr>, Inl e)
      | Some (b, st, Inr (_, committed)) \<Rightarrow>
          (let t1 = t\<lparr> tk_protocol := b, tk_state := st \<rparr> in
           if \<not> tk_active t then Some (t1, Inr ())
           else let (sequence, certs, mode) = forward_sub_dags executed committed (tk_sequence t, [], tk_mode t)
                in if \<not> tk_open t \<and> sequence \<noteq> tk_sequence t then Some (t1, Inl ShuttingDownC)
                   else let t2 = t1\<lparr> tk_sequence := sequence, tk_mode := mode \<rparr>
                        in if certs = [] then Some (t2, Inr ())
                           else let r = foldr max (map c_round certs) 0
                                in if committed_round (last_round st) \<noteq> r then None
                                   else Some (t2\<lparr> tk_committed := tk_committed t2 @ [(r, certs)], tk_rounds := last_round st \<rparr>, Inr ())))"

lemma forward_sub_dags_spec:
  defines "ok executed \<equiv> \<lambda>s. executed (h_latest_execution_block (c_header (sd_leader s)))"
  shows "forward_sub_dags executed ss (sequence, certs, mode) =
    (sequence @ takeWhile (ok executed) ss, certs @ committed_log (takeWhile (ok executed) ss),
     if takeWhile (ok executed) ss = ss then mode else CvvInactive)"
  by (induction ss arbitrary: sequence certs) (auto simp: ok_def committed_log_def)

lemma foldr_max_le: "\<forall>x\<in>set xs. x \<le> (n::nat) \<Longrightarrow> n \<in> set xs \<Longrightarrow> foldr max xs 0 = n"
proof -
  assume a: "\<forall>x\<in>set xs. x \<le> n" "n \<in> set xs"
  have "(\<forall>x\<in>set xs. x \<le> n) \<Longrightarrow> foldr max xs 0 \<le> n" for xs by (induction xs) auto
  moreover have "n \<in> set xs \<Longrightarrow> n \<le> foldr max xs 0" for xs by (induction xs) auto
  ultimately show ?thesis using a by (simp add: le_antisym)
qed

text \<open>The highest round of a prefix of what was committed is the round of its last leader.\<close>

lemma committed_prefix_round:
  assumes "output_inv st (out @ ss)" "ss = pre @ post" "pre \<noteq> []"
  shows "foldr max (map c_round (committed_log pre)) 0 = c_round (sd_leader (last pre))" "committed_log pre \<noteq> []"
    "post = [] \<Longrightarrow> committed_round (last_round st) = c_round (sd_leader (last pre))"
    "post \<noteq> [] \<Longrightarrow> committed_round (last_round st) \<noteq> c_round (sd_leader (last pre))"
proof -
  have s: "sorted_wrt (<) (map (\<lambda>s. c_round (sd_leader s)) (out @ pre @ post))"
    and in_certs: "\<forall>s\<in>set (out @ pre @ post). sd_leader s \<in> set (sd_certificates s) \<and> (\<forall>x\<in>set (sd_certificates s). c_round x \<le> c_round (sd_leader s))"
    and cr: "committed_round (last_round st) = c_round (sd_leader (last (out @ pre @ post)))"
    using assms unfolding output_inv_def by auto
  have up: "c_round (sd_leader s) \<le> c_round (sd_leader (last pre))" if "s \<in> set pre" for s
  proof -
    have "pre = butlast pre @ [last pre]" using assms(3) by simp
    moreover have "sorted_wrt (<) (map (\<lambda>s. c_round (sd_leader s)) pre)" using s by (simp add: sorted_wrt_append)
    ultimately have "sorted_wrt (<) (map (\<lambda>s. c_round (sd_leader s)) (butlast pre @ [last pre]))" by simp
    hence "\<forall>s\<in>set (butlast pre). c_round (sd_leader s) < c_round (sd_leader (last pre))" by (simp add: sorted_wrt_append)
    moreover have "s \<in> set (butlast pre) \<or> s = last pre" using that by (cases pre rule: rev_cases) auto
    ultimately show ?thesis by auto
  qed
  have lp: "last pre \<in> set pre" using assms(3) by simp
  show "foldr max (map c_round (committed_log pre)) 0 = c_round (sd_leader (last pre))"
  proof (rule foldr_max_le)
    show "\<forall>r\<in>set (map c_round (committed_log pre)). r \<le> c_round (sd_leader (last pre))"
      using up in_certs by (fastforce simp: committed_log_def)
    show "c_round (sd_leader (last pre)) \<in> set (map c_round (committed_log pre))"
      using lp in_certs by (force simp: committed_log_def)
  qed
  show "committed_log pre \<noteq> []" using lp in_certs by (force simp: committed_log_def)
  show "post = [] \<Longrightarrow> committed_round (last_round st) = c_round (sd_leader (last pre))" using cr assms(3) by simp
  show "committed_round (last_round st) \<noteq> c_round (sd_leader (last pre))" if "post \<noteq> []"
  proof -
    have "last post \<in> set post" "last (out @ pre @ post) = last post" using that by simp_all
    moreover have "\<forall>a\<in>set pre. \<forall>b\<in>set post. c_round (sd_leader a) < c_round (sd_leader b)" using s by (auto simp: sorted_wrt_append)
    ultimately show ?thesis using cr lp by (metis less_irrefl)
  qed
qed

end
