(* ===== verification/Chain_Properties.thy ===== *)
theory Chain_Properties
  imports Chain_Proofs Consensus_Task Sample_Network "HOL-Library.Countable"
begin

text \<open>
  The properties of the consensus chain: validators publish the same chain, what the subscriber saves and
  sends to execution is that chain with its batches, a follower receives it from untrusted peers, and
  ways in which a node leaves it or stops.
\<close>

section \<open>The chain of the validators\<close>

lemma same_sub_dag_digest: "same_sub_dag s t \<Longrightarrow> sub_dag_digest ha s = sub_dag_digest ha t"
proof -
  assume s: "same_sub_dag s t"
  have d: "map cert_digest (sd_certificates s) = map h_digest (map c_header (sd_certificates s))" for s by (simp add: cert_digest_def)
  have "map cert_digest (sd_certificates s) = map cert_digest (sd_certificates t)" using s unfolding d by (simp only: same_sub_dag_def)
  thus ?thesis using s by (simp add: same_sub_dag_def sub_dag_digest_def cert_digest_def)
qed

lemma chain_headers_same:
  assumes "list_all2 same_sub_dag sds sds'"
  shows "map (\<lambda>h. (ch_number h, consensus_header_digest ha h)) (chain_headers ha p n sds) =
    map (\<lambda>h. (ch_number h, consensus_header_digest ha h)) (chain_headers ha p n sds')"
  using assms
proof (induction arbitrary: p n rule: list_all2_induct)
  case (Cons x xs y ys)
  have "digest_from_parts ha p x (n + 1) = digest_from_parts ha p y (n + 1)"
    using same_sub_dag_digest[OF Cons.hyps(1)] by (simp add: digest_from_parts_def)
  thus ?case using Cons.IH by (simp add: consensus_header_digest_def)
qed simp

lemma chain_headers_take: "take k (chain_headers ha p n sds) = chain_headers ha p n (take k sds)"
  by (induction sds arbitrary: k p n) (auto simp: take_Cons split: nat.splits)

text \<open>C3: validators publish one chain: two validators with the same committee and parameters whose certificates come from
  one universe commit sub dags, and their subscribers, which start from the same header, publish
  for them the same numbers with the same digests, the one that is behind a prefix of the other,
  whatever the order in which certificates arrive and whatever happens to the batches.\<close>

theorem validators_publish_one_chain:
  assumes "cert_universe (bs_committee b) S" "bs_committee b' = bs_committee b" "bs_schedule b' = bs_schedule b"
    and "bs_subdags_per_schedule b' = bs_subdags_per_schedule b" "bs_threshold b' = bs_threshold b" "0 < depth"
    and "(run_step S rng)\<^sup>*\<^sup>* (b, cstate_new depth, []) (b1, st1, out1)" "(run_step S rng)\<^sup>*\<^sup>* (b', cstate_new depth, []) (b2, st2, out2)"
    and "(subscribed g F L)\<^sup>*\<^sup>* (s, []) (t, out1)" "(subscribed g' F' L')\<^sup>*\<^sup>* (s', []) (t', out2)" "cg_hash g' = cg_hash g"
    and "su_parent s' = su_parent s" "su_number s' = su_number s" "cn_published s = []" "cn_published s' = []" "length out1 \<le> length out2"
  shows "cn_published t = take (length out1) (cn_published t')"
proof -
  let ?ch = "chain_headers (cg_hash g) (su_parent s) (su_number s)"
  let ?f = "map (\<lambda>h. (ch_number h, consensus_header_digest (cg_hash g) h))"
  have same: "list_all2 same_sub_dag out1 (take (length out1) out2)"
    by (rule runs_total_order[OF assms(1) _ assms(6-8,16)]) (simp add: b_sim_fields assms(2-5))
  have p: "cn_published t = ?f (?ch out1)"
    using pb.inv_reachable[of "(s, [])" "su_parent s" "su_number s" "[]" g F L "(t, out1)"] assms(9,14) by (simp add: published_inv_def)
  have p': "cn_published t' = ?f (?ch out2)"
    using pb.inv_reachable[of "(s', [])" "su_parent s" "su_number s" "[]" g' F' L' "(t', out2)"] assms(10-13,15) by (simp add: published_inv_def)
  have "take (length out1) (cn_published t') = ?f (?ch (take (length out1) out2))" by (simp add: p' take_map chain_headers_take)
  thus ?thesis using chain_headers_same[OF same] p by simp
qed

text \<open>C16: the subscriber saves and delivers the chain: while its workers serve batches with the right digests and leaders are
  members of the committee, the outputs it sends to execution are the headers of the sub dags it
  received, in that order and without a gap, each linked to the one before by hash and number; each
  output carries the batches of its certificates in order, and a peer that asks for its hash or its
  number gets it.\<close>

theorem subscriber_delivers_chain:
  assumes "block_hash_injective (cg_hash g)" "\<forall>sd\<in>L. c_origin (sd_leader sd) \<in> members (cg_committee g)" "\<forall>client\<in>F. serves (cg_hash_batch g) client"
    and "su_waiting s = []" "cc_open (cn_store s)" "cn_outputs_open s" "(subscribed g F L)\<^sup>*\<^sup>* (s, []) (t, log)"
  defines "chain \<equiv> chain_headers (cg_hash g) (su_parent s) (su_number s) log"
  shows "\<exists>new. cn_outputs t = cn_outputs s @ new \<and> map output_header new = take (length new) chain \<and>
    map ch_sub_dag chain = log \<and> chain_linked (cg_hash g) (su_parent s) (su_number s) chain \<and>
    length new + length (su_waiting t) = length log \<and>
    (\<forall>co\<in>set new. map (batch_digest (cg_hash_batch g)) (flatten_batches co) = sub_dag_payload (co_sub_dag co) \<and>
       retrieve_consensus_header (cn_store t) None (Some (consensus_header_hash (cg_hash g) co)) = Inr (ConsensusHeaderResponse (output_header co)) \<and>
       retrieve_consensus_header (cn_store t) (Some (co_number co)) None = Inr (ConsensusHeaderResponse (output_header co)))"
proof -
  have "served_start g F L (su_parent s) (su_number s) (cn_published s) (cn_outputs s) (s, [])"
    using assms(1-6) by (simp add: served_start_def)
  from sb.inv_reachable[OF this assms(7)]
  have inv: "sub_inv g (su_parent s) (su_number s) (cn_published s) (cn_outputs s) L (t, log)" by (simp add: served_inv_def)
  then obtain new where new: "cn_outputs t = cn_outputs s @ new" "chain = map output_header new @ map waiting_header (su_waiting t)"
    "\<forall>co\<in>set new. map (batch_digest (cg_hash_batch g)) (flatten_batches co) = sub_dag_payload (co_sub_dag co) \<and> co_batch_digests co = sub_dag_payload (co_sub_dag co) \<and>
      map_of (cc_blocks (cn_store t)) (co_number co) = Some (output_header co) \<and> map_of (cc_numbers (cn_store t)) (consensus_header_hash (cg_hash g) co) = Some (co_number co)"
    unfolding sub_inv_def chain_def by auto
  have op: "cc_open (cn_store t)" using inv by (simp add: sub_inv_def)
  have "length new + length (su_waiting t) = length log" using arg_cong[OF new(2), of length] by (simp add: chain_def)
  moreover have "map output_header new = take (length new) chain" by (simp add: new(2))
  ultimately show ?thesis using new(1,3) op
    by (auto simp: chain_def chain_headers_sub_dags chain_headers_linked retrieve_consensus_header_def get_header_by_hash_def get_header_by_number_def)
qed

section \<open>Following the chain\<close>

text \<open>C18: a node that catches up only gets a chain: whatever its peers answer, the headers it passes on are linked by hash and
  number to the header it started from, and each one is the goal, was in its tables, or has
  certificates that verify; when it succeeds they end with the goal. So when the goal is a
  header of the chain of the validators, the node has received exactly that chain.\<close>

theorem follower_gets_the_chain:
  assumes "block_hash_injective (cg_hash g)" "catch_up_consensus_from_to g env st from goal = (sent, r)"
  shows "chain_linked (cg_hash g) (consensus_header_digest (cg_hash g) from) (ch_number from) sent \<and>
    (\<forall>h\<in>set sent. h = goal \<or> h \<in> snd ` set (cc_blocks st) \<or> (\<exists>h0. ch_verify_certificates (cg_crypto g) (cg_committee g) h0 = Inr h)) \<and>
    (\<forall>h. r = Some (Inr h) \<longrightarrow> ch_number from < ch_number goal \<longrightarrow> h = goal \<and> sent \<noteq> [] \<and> last sent = goal \<and>
      (\<forall>chain. chain_linked (cg_hash g) (consensus_header_digest (cg_hash g) from) (ch_number from) chain \<and> chain \<noteq> [] \<and>
         consensus_header_digest (cg_hash g) (last chain) = consensus_header_digest (cg_hash g) goal \<longrightarrow>
         map (consensus_header_digest (cg_hash g)) sent = map (consensus_header_digest (cg_hash g)) chain))"
proof (cases "ch_number from < ch_number goal")
  case False
  thus ?thesis using assms(2) by (simp add: catch_up_consensus_from_to_def)
next
  case True
  let ?ha = "cg_hash g" and ?p = "consensus_header_digest (cg_hash g) from" and ?n = "ch_number from"
  have loop: "catch_up_loop g env st goal [?n + 1..<ch_number goal + 1] ?p from = (sent, r)"
    using assms(2) True by (simp add: catch_up_consensus_from_to_def del: upt_Suc)
  note l = catch_up_loop_linked[OF assms(1) loop]
  have "h = goal \<and> sent \<noteq> [] \<and> last sent = goal \<and> (\<forall>chain. chain_linked ?ha ?p ?n chain \<and> chain \<noteq> [] \<and>
      consensus_header_digest ?ha (last chain) = consensus_header_digest ?ha goal \<longrightarrow> map (consensus_header_digest ?ha) sent = map (consensus_header_digest ?ha) chain)"
    if r: "r = Some (Inr h)" for h
  proof -
    have len: "length sent = ch_number goal - ?n" "h = (if sent = [] then from else last sent)" using l r by simp_all
    have ne: "sent \<noteq> []" using len(1) True by auto
    have num: "chain_linked ?ha ?p ?n hs \<Longrightarrow> hs \<noteq> [] \<Longrightarrow> ch_number (last hs) = ?n + length hs" for hs
      using chain_linked_numbers[of ?ha ?p ?n hs] last_map[of hs ch_number] by (simp add: last_upt del: upt_Suc)
    have "ch_number (last sent) = ch_number goal" using num[of sent] l ne len(1) True by simp
    hence lg: "last sent = goal" using l ne last_in_set[OF ne] by blast
    have "map (consensus_header_digest ?ha) sent = map (consensus_header_digest ?ha) chain"
      if c: "chain_linked ?ha ?p ?n chain" "chain \<noteq> []" "consensus_header_digest ?ha (last chain) = consensus_header_digest ?ha goal" for chain
    proof -
      have "length sent = length chain" using num[OF c(1,2)] digest_injective(3)[OF assms(1) c(3)] len(1) by simp
      thus ?thesis using chain_linked_same_end[OF assms(1) _ _ c(1) ne] l lg c(3) by simp
    qed
    thus ?thesis using ne lg len(2) by simp
  qed
  thus ?thesis using l by blast
qed

section \<open>Leaving the chain\<close>

text \<open>C33: a restart can overwrite the chain: when headers that were saved before the restart are handed to execution again and
  the subscriber then asks what was executed before the first of them is, it continues from the
  old header, and the next sub dag takes the number of a saved header and replaces it in the table.\<close>

theorem restart_overwrites_header:
  assumes "block_hash_injective (cg_hash g)" "\<forall>k h. map_of (cc_blocks (cn_store s)) k = Some h \<longrightarrow> ch_number h = k" "cc_open (cn_store s)" "cn_outputs_open s"
    and "map_of (cc_numbers (cn_store s)) (consensus_header_digest (cg_hash g) e) = Some (ch_number e)" "map_of (cc_blocks (cn_store s)) (ch_number e) = Some e"
    and "map_of (cc_blocks (cn_store s)) (ch_number e + 1) = Some h"
    and "subscriber_start g client (Some (consensus_header_digest (cg_hash g) e)) (Some (consensus_header_digest (cg_hash g) e)) s = Inr s1"
    and "serves (cg_hash_batch g) client'" "c_origin (sd_leader sd) \<in> members (cg_committee g)" "sd \<noteq> ch_sub_dag h"
  shows "map_of (cc_blocks (cn_store s1)) (ch_number e + 1) \<noteq> None \<and>
    (\<exists>s2 h2. subscriber_run g [SubDagReceived sd, BatchesFetched client'] s1 = (s2, None) \<and>
      map_of (cc_blocks (cn_store s2)) (ch_number e + 1) = Some h2 \<and> ch_sub_dag h2 = sd \<and> h2 \<noteq> h)"
proof -
  let ?d = "consensus_header_digest (cg_hash g) e"
  have ex: "last_executed_or (cg_default g) (cn_store s) (Some ?d) = e"
    using assms(3,5,6) by (simp add: last_executed_or_def last_executed_consensus_block_def)
  obtain missing s0 where m: "get_missing_consensus (cg_default g) (cn_store s) (Some ?d) = Inr missing" "handle_all g client missing s = (s0, Inr ())"
    "s1 = chain_node.extend s0 \<lparr> su_parent = fst (get_last_executed_consensus g (cn_store s0) (Some ?d)),
       su_number = snd (get_last_executed_consensus g (cn_store s0) (Some ?d)), su_waiting = [] \<rparr>"
    using assms(8) by (auto simp: subscriber_start_def Let_def split: sum.splits prod.splits)
  have k: "chain_kept g (ch_number e) s s0" by (rule handle_all_kept[OF _ m(2)]) (use missing_numbers[OF m(1) assms(2)] ex in simp)
  have "last_executed_or (cg_default g) (cn_store s0) (Some ?d) = e"
    using k assms(1,3,5,6) by (simp add: chain_kept_def last_executed_or_def last_executed_consensus_block_def)
  hence s1: "su_parent s1 = ?d" "su_number s1 = ch_number e" "su_waiting s1 = []" "cn_store s1 = cn_store s0" "cn_outputs_open s1 = cn_outputs_open s0"
    by (simp_all add: m(3) get_last_executed_consensus_def chain_node.defs)
  have op: "cc_open (cn_store s0)" "cn_outputs_open s0" using k assms(3,4) by (simp_all add: chain_kept_def)
  have "map_of (cc_blocks (cn_store s1)) (ch_number e + 1) \<noteq> None" using k assms(7) s1(4) by (auto simp: chain_kept_def)
  moreover obtain a where a: "committee_authority (cg_committee g) (c_origin (sd_leader sd)) = Some a"
    using assms(10) by (auto simp: members_def bt_keys_def committee_authority_def dest: weak_map_of_SomeI)
  obtain co where co: "fetch_batches (cg_committee g) (cn_mode s1) client' sd ?d (ch_number e + 1) = Inr co"
    using fetch_batches_ok[OF a assms(9)] by blast
  obtain st where st: "save_consensus (cg_hash_batch g) (cg_hash g) co (cn_store s0) = (st, Inr ())" using op(1) by (simp add: save_consensus_def Let_def)
  note parts = fetch_batches_parts[OF co]
  define s2 where "s2 = s1\<lparr> cn_last_header := \<lparr> ch_parent_hash = ?d, ch_sub_dag = sd, ch_number = ch_number e + 1, ch_extra = 0 \<rparr>,
      cn_published := cn_published s1 @ [(ch_number e + 1, digest_from_parts (cg_hash g) ?d sd (ch_number e + 1))],
      su_parent := digest_from_parts (cg_hash g) ?d sd (ch_number e + 1), su_number := ch_number e + 1, su_waiting := [], cn_store := st,
      cn_outputs := cn_outputs s1 @ [co] \<rparr>"
  have "subscriber_run g [SubDagReceived sd, BatchesFetched client'] s1 = (s2, None)"
    using co st s1 op by (simp add: subscriber_step_def Let_def MAX_PENDING_PAYLOADS_def s2_def)
  moreover have "map_of (cc_blocks (cn_store s2)) (ch_number e + 1) = Some (output_header co)" "ch_sub_dag (output_header co) = sd"
    using save_consensus_spec(3)[OF st] parts by (simp_all add: s2_def output_header_def)
  ultimately show ?thesis using assms(11) by blast
qed

text \<open>C34: one bad answer makes a node that is behind believe it is not: when one member of the committee answers with a header
  whose certificates do not verify, the headers of all others are ignored, the node takes its own
  last executed header for the latest one, and decides to rejoin consensus.\<close>

theorem bad_header_hides_lag:
  assumes "Some (Inr h) \<in> set replies" "ch_verify_certificates (cg_crypto g) (cg_committee g) h = Inl e" "0 < cg_gc_depth g"
    and "c_round (sd_leader (ch_sub_dag (last_executed_or (cg_default g) (cn_store s) root))) + cg_gc_depth g < u32_max"
  shows "snd (can_cvv g root replies s) \<and> cn_last_header (fst (can_cvv g root replies s)) = last_executed_or (cg_default g) (cn_store s) root"
proof -
  have "max_header_loop g replies res = None" for res
    using assms(1,2) by (induction g replies res rule: max_header_loop.induct) (auto split: sum.splits)
  thus ?thesis using assms(3,4) by (simp add: can_cvv_def Let_def max_consensus_header_from_committee_def update_consensus_rounds_def u64_simps)
qed

section \<open>The consensus task\<close>

text \<open>C29: the consensus task forwards what the protocol commits, in order and up to the first sub dag whose base block was
  not executed, and the round it reports is the committed round. It panics exactly when one
  certificate commits several sub dags and execution has the base blocks of the first of them but
  not of all: the committed round is then ahead of the certificates that were forwarded.\<close>

theorem consensus_task_panics_iff:
  fixes executed :: "block_num_hash \<Rightarrow> bool"
  assumes "collision_free S" "(run_step S g)\<^sup>*\<^sup>* (b0, cstate_new depth, []) (tk_protocol t, tk_state t, out)" "x \<in> S"
    and "process_certificate g (tk_protocol t) (tk_state t) x = Some (b', st', Inr (oc, cs))" "cert_epoch x = c_epoch (bs_committee (tk_protocol t))"
    and "tk_active t" "tk_open t"
  defines "fwd \<equiv> takeWhile (\<lambda>s. executed (h_latest_execution_block (c_header (sd_leader s)))) cs"
  shows "(new_certificate g executed x t = None \<longleftrightarrow> fwd \<noteq> [] \<and> fwd \<noteq> cs) \<and>
    (\<not> (fwd \<noteq> [] \<and> fwd \<noteq> cs) \<longrightarrow> (\<exists>t'. new_certificate g executed x t = Some (t', Inr ()) \<and> tk_sequence t' = tk_sequence t @ fwd \<and>
       tk_committed t' = tk_committed t @ (if cs = [] \<or> fwd = [] then [] else [(c_round (sd_leader (last cs)), committed_log cs)]) \<and>
       tk_mode t' = (if fwd = cs then tk_mode t else CvvInactive)))"
proof -
  have "run_step S g (tk_protocol t, tk_state t, out) (b', st', out @ cs)" by (rule run_step.process[OF assms(3,4)])
  with assms(2) have steps: "(run_step S g)\<^sup>*\<^sup>* (b0, cstate_new depth, []) (b', st', out @ cs)" by (rule rtranclp.rtrancl_into_rtrancl)
  have "run_start S (b0, cstate_new depth, [])" using assms(1) by (auto simp: run_start_def)
  from run.inv_reachable[OF this steps] have "run_inv S (b', st', out @ cs)" .
  hence oi: "output_inv st' (out @ cs)" by (simp add: run_inv_def)
  obtain post where post: "cs = fwd @ post" unfolding fwd_def by (metis takeWhile_dropWhile_id)
  note f = forward_sub_dags_spec[of executed cs "tk_sequence t" "[]" "tk_mode t", folded fwd_def]
  show ?thesis
  proof (cases "fwd = []")
    case True
    thus ?thesis using assms(4-7) f by (auto simp: new_certificate_def Let_def committed_log_def)
  next
    case False
    note r = committed_prefix_round[OF oi post False]
    show ?thesis using assms(4-7) f r False post by (cases "post = []") (auto simp: new_certificate_def Let_def)
  qed
qed

section \<open>Examples\<close>

text \<open>Hashes are pairings of numbers, and the digest of a batch is its timestamp.\<close>

definition pairing_hash :: chain_hash where
  "pairing_hash = \<lparr> hash_sub_dag = (\<lambda>ds d t. d + t), hash_block = (\<lambda>p d n. prod_encode (p, prod_encode (d, n))) \<rparr>"

lemma pairing_injective: "block_hash_injective pairing_hash"
  by (simp add: block_hash_injective_def pairing_hash_def)

definition chain_config_example :: chain_config where
  "chain_config_example =
     \<lparr> cg_hash_batch = b_timestamp, cg_hash = pairing_hash, cg_crypto = sample_crypto, cg_committee = sample_committee,
       cg_gc_depth = 50, cg_default = consensus_header_default sample_crypto 0 \<rparr>"

definition example_cert :: "round \<Rightarrow> authority_id \<Rightarrow> (block_hash \<times> worker_id \<times> timestamp) list \<Rightarrow> certificate" where
  "example_cert r a payload = (sample_cert r a)\<lparr> c_header := (sample_header r a)\<lparr> h_payload := payload \<rparr>, c_state := Unverified (sample_digest r a + 36) \<rparr>"

definition example_sub_dag :: "round \<Rightarrow> sub_dag" where
  "example_sub_dag r = sub_dag_new [example_cert r 1 [(5, (0, 1)), (6, (0, 1))]] (example_cert r 1 []) scores_default None"

definition example_batch :: "block_hash \<Rightarrow> batch" where
  "example_batch d = \<lparr> b_transactions = [], b_parent_hash = 0, b_beneficiary = 0, b_timestamp = d, b_base_fee = None, b_received_at = None \<rparr>"

definition example_client :: batch_client where
  "example_client ds = Inr (map (\<lambda>d. (d, example_batch d)) ds)"

definition example_chain :: "consensus_header list" where
  "example_chain = chain_headers pairing_hash (consensus_header_digest pairing_hash (cg_default chain_config_example)) 0 [example_sub_dag 2, example_sub_dag 4]"

definition example_node :: "consensus_header list \<Rightarrow> chain_node" where
  "example_node hs =
     \<lparr> cn_store = \<lparr> cc_blocks = map (\<lambda>h. (ch_number h, h)) hs, cc_numbers = map (\<lambda>h. (consensus_header_digest pairing_hash h, ch_number h)) hs,
                    cc_batches = [], cc_open = True \<rparr>,
       cn_certs = cert_store_empty, cn_rounds = \<lparr> committed_round = 0, gc_round = 0 \<rparr>, cn_primary_round = 0,
       cn_last_header = cg_default chain_config_example, cn_headers = [], cn_outputs = [], cn_outputs_open = True, cn_mode = CvvActive,
       cn_restart = False, cn_published = [] \<rparr>"

definition example_subscriber :: subscriber where
  "example_subscriber = chain_node.extend (example_node []) \<lparr> su_parent = 0, su_number = 0, su_waiting = [] \<rparr>"

lemma example_serves: "serves (cg_hash_batch chain_config_example) example_client"
  by (auto simp: serves_def example_client_def chain_config_example_def batch_digest_def encoded_def example_batch_def image_image)

lemma example_config [simp]: "cg_hash chain_config_example = pairing_hash" "cg_committee chain_config_example = sample_committee"
  by (simp_all add: chain_config_example_def)

lemma example_leader: "c_origin (sd_leader (example_sub_dag r)) \<in> members sample_committee"
  by (simp add: example_sub_dag_def sub_dag_new_def example_cert_def sample_header_def sample_power(2))

lemma example_start:
  "su_waiting example_subscriber = []" "cc_open (cn_store example_subscriber)" "cn_outputs_open example_subscriber"
  "cn_outputs example_subscriber = []" "cn_published example_subscriber = []"
  by (simp_all add: example_subscriber_def example_node_def chain_node.defs)

text \<open>A subscriber can take a few sub dags before any batches arrive.\<close>

lemma subscribed_all:
  assumes "length (su_waiting s) + length out \<le> MAX_PENDING_PAYLOADS"
  shows "\<exists>t. (subscribed g F UNIV)\<^sup>*\<^sup>* (s, log) (t, log @ out)"
  using assms
proof (induction out arbitrary: s log)
  case (Cons sd out)
  obtain s1 where s1: "subscriber_step g (SubDagReceived sd) s = (s1, None)" "length (su_waiting s1) = length (su_waiting s) + 1"
    using Cons.prems by (simp add: subscriber_step_def Let_def)
  have "subscribed g F UNIV (s, log) (s1, log @ [sd])" by (rule subscribed.received[OF _ _ s1(1)]) (use Cons.prems in simp_all)
  moreover obtain t where "(subscribed g F UNIV)\<^sup>*\<^sup>* (s1, log @ [sd]) (t, (log @ [sd]) @ out)" using Cons.IH[of s1 "log @ [sd]"] Cons.prems s1(2) by auto
  ultimately show ?case using converse_rtranclp_into_rtranclp by fastforce
qed auto

theorem validators_publish_one_chain_witness:
  "\<exists>out1 out2 t t'. map (\<lambda>s. map cert_digest (sd_certificates s)) out1 = [[13, 12, 11, 21]] \<and>
     (subscribed chain_config_example {} UNIV)\<^sup>*\<^sup>* (example_subscriber, []) (t, out1) \<and>
     (subscribed chain_config_example {} UNIV)\<^sup>*\<^sup>* (example_subscriber, []) (t', out2) \<and> cn_published t = cn_published t'"
proof -
  obtain b1 st1 out1 where r1: "(run_step (set sample_certs) first_rng)\<^sup>*\<^sup>* (sample_bullshark, cstate_new 50, []) (b1, st1, out1)"
    "map (\<lambda>s. map cert_digest (sd_certificates s)) out1 = [[13, 12, 11, 21]]"
    using run_digests_steps[OF sample_digests(1)] by blast
  obtain b2 st2 out2 where r2: "(run_step (set sample_certs) first_rng)\<^sup>*\<^sup>* (sample_bullshark, cstate_new 50, []) (b2, st2, out2)"
    "map (\<lambda>s. map cert_digest (sd_certificates s)) out2 = [[13, 12, 11, 21]]"
    using run_digests_steps[OF sample_digests(2)] sample_certs_same by blast
  have l: "length out1 = 1" "length out2 = 1" using arg_cong[OF r1(2), of length] arg_cong[OF r2(2), of length] by simp_all
  have "cert_universe (bs_committee sample_bullshark) (set sample_certs)" using sample_universe by (simp add: sample_bullshark_def)
  moreover obtain t where t: "(subscribed chain_config_example {} UNIV)\<^sup>*\<^sup>* (example_subscriber, []) (t, out1)"
    using subscribed_all[of example_subscriber out1 chain_config_example "{}" "[]"] l by (auto simp: example_start MAX_PENDING_PAYLOADS_def)
  moreover obtain t' where t': "(subscribed chain_config_example {} UNIV)\<^sup>*\<^sup>* (example_subscriber, []) (t', out2)"
    using subscribed_all[of example_subscriber out2 chain_config_example "{}" "[]"] l by (auto simp: example_start MAX_PENDING_PAYLOADS_def)
  ultimately have a: "cn_published t = take (length out1) (cn_published t')"
    using validators_publish_one_chain[OF _ refl refl refl refl _ r1(1) r2(1) t t'] l example_start by simp
  have b: "cn_published t' = take (length out2) (cn_published t)"
    using validators_publish_one_chain[OF _ refl refl refl refl _ r2(1) r1(1) t' t] l example_start sample_universe by (simp add: sample_bullshark_def)
  have "cn_published t = cn_published t'" using a b l by (metis take_take min.idem)
  thus ?thesis using r1(2) t t' by (intro exI[of _ out1] exI[of _ out2] exI[of _ t] exI[of _ t'] conjI)
qed

theorem subscriber_delivers_chain_witness:
  "\<exists>t co. (subscribed chain_config_example {example_client} {example_sub_dag 2})\<^sup>*\<^sup>* (example_subscriber, []) (t, [example_sub_dag 2]) \<and>
     cn_outputs t = [co] \<and> co_sub_dag co = example_sub_dag 2 \<and> map b_timestamp (map encoded (flatten_batches co)) = [5, 6]"
proof -
  let ?g = chain_config_example and ?sd = "example_sub_dag 2"
  let ?s1 = "fst (subscriber_step ?g (SubDagReceived ?sd) example_subscriber)"
  let ?s2 = "fst (subscriber_step ?g (BatchesFetched example_client) ?s1)"
  have e: "subscriber_step ?g (SubDagReceived ?sd) example_subscriber = (?s1, None)" by (simp add: subscriber_step_def Let_def example_start MAX_PENDING_PAYLOADS_def)
  have "subscribed ?g {example_client} {?sd} (example_subscriber, []) (?s1, [] @ [?sd])"
    by (rule subscribed.received[OF _ _ e]) (simp_all add: example_start MAX_PENDING_PAYLOADS_def)
  moreover have "subscribed ?g {example_client} {?sd} (?s1, [] @ [?sd]) (?s2, [] @ [?sd])"
    by (rule subscribed.fetched[of example_client _ _ _ _ "snd (subscriber_step ?g (BatchesFetched example_client) ?s1)"]) simp_all
  ultimately have steps: "(subscribed ?g {example_client} {?sd})\<^sup>*\<^sup>* (example_subscriber, []) (?s2, [?sd])" by auto
  have w: "su_waiting ?s2 = []"
  proof -
    have "su_waiting (fst (subscriber_step ?g (BatchesFetched example_client) s)) = tl (su_waiting s)" for s
      by (auto simp: subscriber_step_def Let_def split: list.splits prod.splits sum.splits)
    moreover have "su_waiting ?s1 = [(?sd, su_parent example_subscriber, su_number example_subscriber + 1)]"
      by (simp add: subscriber_step_def Let_def example_start MAX_PENDING_PAYLOADS_def)
    ultimately show ?thesis by simp
  qed
  obtain new where new: "cn_outputs ?s2 = new" "map output_header new = take (length new) (chain_headers pairing_hash (su_parent example_subscriber) (su_number example_subscriber) [?sd])"
    "length new = 1" "\<forall>co\<in>set new. map (batch_digest b_timestamp) (flatten_batches co) = sub_dag_payload (co_sub_dag co)"
    using subscriber_delivers_chain[OF _ _ _ example_start(1-3) steps] pairing_injective example_leader example_serves w
    by (auto simp: example_start chain_config_example_def)
  then obtain co where co: "new = [co]" by (cases new) auto
  have "ch_sub_dag (output_header co) = ?sd" using new(2) co by simp
  hence sd: "co_sub_dag co = ?sd" by (simp add: output_header_def)
  moreover have "sub_dag_payload ?sd = [5, 6]" by (simp add: sub_dag_payload_def example_sub_dag_def sub_dag_new_def example_cert_def)
  ultimately show ?thesis using steps new(1,4) co by (auto simp: batch_digest_def comp_def)
qed

text \<open>The first peer fails and the second one answers.\<close>

definition example_env :: catch_up_env where
  "example_env = \<lparr> ce_replies = (\<lambda>n. [[Inr (Inl NoPeers), Inr (Inr (ConsensusHeaderResponse (hd example_chain)))]]), ce_executed = (\<lambda>_. True) \<rparr>"

theorem follower_gets_the_chain_witness:
  "\<exists>sent. catch_up_consensus_from_to chain_config_example example_env (cn_store (example_node [])) (cg_default chain_config_example) (last example_chain) =
     (sent, Some (Inr (last example_chain))) \<and> map (consensus_header_digest pairing_hash) sent = map (consensus_header_digest pairing_hash) example_chain"
proof -
  let ?from = "cg_default chain_config_example" and ?goal = "last example_chain"
  obtain sent r where c: "catch_up_consensus_from_to chain_config_example example_env (cn_store (example_node [])) ?from ?goal = (sent, r)" by force
  have "(case snd (catch_up_consensus_from_to chain_config_example example_env (cn_store (example_node [])) ?from ?goal) of Some (Inr h) \<Rightarrow> True | _ \<Rightarrow> False)"
    by code_simp
  then obtain h where r: "r = Some (Inr h)" using c by (auto split: option.splits sum.splits)
  have n: "ch_number ?from = 0" "ch_number ?goal = 2" "example_chain \<noteq> []"
    by (simp_all add: chain_config_example_def consensus_header_default_def example_chain_def)
  have "chain_linked pairing_hash (consensus_header_digest pairing_hash ?from) (ch_number ?from) example_chain"
    unfolding n(1) example_chain_def by (rule chain_headers_linked)
  thus ?thesis using follower_gets_the_chain[OF _ c] pairing_injective n c r by simp
qed

theorem restart_overwrites_header_witness:
  "\<exists>s1 s2 h2. subscriber_start chain_config_example example_client (Some (consensus_header_digest pairing_hash (hd example_chain)))
      (Some (consensus_header_digest pairing_hash (hd example_chain))) (example_node example_chain) = Inr s1 \<and>
    subscriber_run chain_config_example [SubDagReceived (example_sub_dag 6), BatchesFetched example_client] s1 = (s2, None) \<and>
    map_of (cc_blocks (cn_store (example_node example_chain))) 2 = Some (last example_chain) \<and>
    map_of (cc_blocks (cn_store s2)) 2 = Some h2 \<and> h2 \<noteq> last example_chain"
proof -
  let ?s = "example_node example_chain" and ?e = "hd example_chain" and ?g = chain_config_example
  have "(case subscriber_start ?g example_client (Some (consensus_header_digest pairing_hash ?e)) (Some (consensus_header_digest pairing_hash ?e)) ?s of Inr _ \<Rightarrow> True | _ \<Rightarrow> False)"
    by code_simp
  then obtain s1 where s1: "subscriber_start ?g example_client (Some (consensus_header_digest pairing_hash ?e)) (Some (consensus_header_digest pairing_hash ?e)) ?s = Inr s1"
    by (auto split: sum.splits)
  have b: "map_of (cc_blocks (cn_store ?s)) k = Some h \<longrightarrow> ch_number h = k" for k h
    by (auto simp: example_node_def dest!: map_of_SomeD)
  have e: "ch_number ?e = 1" "map_of (cc_blocks (cn_store ?s)) 1 = Some ?e" "map_of (cc_blocks (cn_store ?s)) 2 = Some (last example_chain)"
    "map_of (cc_numbers (cn_store ?s)) (consensus_header_digest pairing_hash ?e) = Some 1" "cc_open (cn_store ?s)" "cn_outputs_open ?s"
    by (simp_all add: example_node_def example_chain_def)
  have "example_sub_dag 6 \<noteq> ch_sub_dag (last example_chain)"
  proof
    assume "example_sub_dag 6 = ch_sub_dag (last example_chain)"
    hence "c_round (sd_leader (example_sub_dag 6)) = c_round (sd_leader (ch_sub_dag (last example_chain)))" by simp
    thus False by (simp add: example_chain_def example_sub_dag_def sub_dag_new_def example_cert_def sample_header_def)
  qed
  thus ?thesis
    using restart_overwrites_header[of ?g ?s ?e "last example_chain" example_client s1 example_client "example_sub_dag 6"]
      pairing_injective b e s1 example_serves example_leader by (auto simp: numeral_2_eq_2)
qed

theorem bad_header_hides_lag_witness:
  "snd (can_cvv chain_config_example None [Some (Inr (last example_chain)), Some (Inr (cg_default chain_config_example))] (example_node []))"
proof -
  have "(case ch_verify_certificates (cg_crypto chain_config_example) (cg_committee chain_config_example) (cg_default chain_config_example) of Inl _ \<Rightarrow> True | _ \<Rightarrow> False)"
    by code_simp
  then obtain e where "ch_verify_certificates (cg_crypto chain_config_example) (cg_committee chain_config_example) (cg_default chain_config_example) = Inl e"
    by (auto split: sum.splits)
  moreover have "c_round (sd_leader (ch_sub_dag (last_executed_or (cg_default chain_config_example) (cn_store (example_node [])) None))) + cg_gc_depth chain_config_example < u32_max"
    "0 < cg_gc_depth chain_config_example" by code_simp+
  ultimately show ?thesis
    using bad_header_hides_lag[of "cg_default chain_config_example" "[Some (Inr (last example_chain)), Some (Inr (cg_default chain_config_example))]"] by simp
qed

theorem consensus_task_panics_iff_witness:
  "\<exists>t t'. new_certificate first_rng (\<lambda>_. True) (sample_cert 3 2) t = Some (t', Inr ()) \<and> length (tk_sequence t') = 1"
proof -
  have "(case run_all first_rng (sample_bullshark, cstate_new 50, []) (take 7 sample_certs) of
      Some (b, st, out) \<Rightarrow> bs_committee b = bs_committee sample_bullshark \<and> (case process_certificate first_rng b st (sample_cert 3 2) of
        Some (_, _, Inr (_, cs)) \<Rightarrow> length cs = 1 | _ \<Rightarrow> False) | None \<Rightarrow> False)" by code_simp
  then obtain b st out b' st' oc cs where r: "run_all first_rng (sample_bullshark, cstate_new 50, []) (take 7 sample_certs) = Some (b, st, out)"
    "bs_committee b = bs_committee sample_bullshark" "process_certificate first_rng b st (sample_cert 3 2) = Some (b', st', Inr (oc, cs))" "length cs = 1"
    by (auto split: option.splits sum.splits prod.splits)
  have steps: "(run_step (set sample_certs) first_rng)\<^sup>*\<^sup>* (sample_bullshark, cstate_new 50, []) (b, st, out)"
    by (rule run_all_steps[OF r(1)]) (rule set_take_subset)
  let ?t = "\<lparr> tk_protocol = b, tk_state = st, tk_active = True, tk_sequence = [], tk_committed = [], tk_rounds = last_round st, tk_mode = CvvActive, tk_open = True \<rparr>"
  have "cert_epoch (sample_cert 3 2) = c_epoch (bs_committee sample_bullshark)" by code_simp
  moreover have "collision_free (set sample_certs)" using sample_universe by (simp add: cert_universe_def)
  moreover have "sample_cert 3 2 \<in> set sample_certs" by (simp add: sample_certs_def)
  ultimately obtain t' where "new_certificate first_rng (\<lambda>_. True) (sample_cert 3 2) ?t = Some (t', Inr ())" "tk_sequence t' = cs"
    using consensus_task_panics_iff[where S = "set sample_certs" and g = first_rng and ?b0.0 = sample_bullshark and depth = 50 and t = ?t and out = out
      and x = "sample_cert 3 2" and b' = b' and st' = st' and oc = oc and cs = cs and executed = "\<lambda>_. True"] steps r by auto
  thus ?thesis using r(4) by blast
qed

end
