(* ===== verification/Spec2Isabelle.thy ===== *)
theory Spec2Isabelle
  imports Core_Properties Leader_Properties Certificate_Properties Sync_Properties
    Network_Properties Proposer_Properties Worker_Properties Exchange_Properties
    Certifier_Properties Chain_Properties
begin

text \<open>
  This library verifies the consensus layer of a Telcoin network node, a Narwhal/Bullshark DAG
  protocol whose output an EVM execution layer runs. Paths below are under \<^verbatim>\<open>src/crates/\<close>.

  \<^bold>\<open>The program.\<close> In every round the proposer of a node makes a header with the digests of its workers'
  batches and the certificates of the round before as parents. The certifier asks the other primaries
  for votes on it and assembles a quorum of votes into a certificate, which is sent to all. The vote
  handler of a peer checks the header, its parents and batches, and votes once for an author and
  round. Certificates of peers pass the certificate validator and the certificate manager, which
  holds them until their parents are known and then writes them to the store and hands them to
  consensus. There the Bullshark rule commits leaders of even rounds and flattens the history of each
  into a sub dag; the schedule of leaders follows reputation scores. The subscriber turns sub dags into
  consensus headers, which form a chain, and outputs with their batches.

  \<^bold>\<open>How the code is modelled.\<close> Structs are records, enums are datatypes, one definition stands for one
  function, in the order and with the early returns of the code; a definition with a shorter name
  is a loop body or a stage of the function named next to it. Errors are \<^const>\<open>Inl\<close> values; a panic is
  \<^const>\<open>None\<close>. A stateful operation takes and returns its state, also when it fails. Digests, keys and
  signatures are numbers with the order of their bytes. Voting power is computed at 64 bits and rounds
  at 32 bits, wrapping as the release build does. BTreeMap and HashMap are association lists, sorted and
  in iteration order; where the code iterates over a hash set, the order is an argument. Hashing, BLS
  signatures, the random generator, serialisation and peers are arguments: what the proofs need of
  them is a named hypothesis, such as \<open>digests_identify\<close>, \<open>unforgeable\<close> or \<open>hash_order\<close>, which the
  witnesses discharge for concrete functions. Tasks and selects are step relations, or functions of the
  sequence of events; an operation that waits is \<^const>\<open>None\<close> while it waits.

  \<^bold>\<open>The theories.\<close>
  \<^item> \<open>TN_Prelude\<close>, \<open>Rust_Collections\<close>: integers at their width, results, loops with early return, the
    locale \<open>step_system\<close> for invariants, and the collections with the locale \<open>keyed_map\<close> that both kinds of
    map interpret.
  \<^item> \<open>Committee\<close> (types/src/committee.rs), \<open>Worker_Cache\<close> (types/src/worker/info.rs): thresholds,
    look-ups, and the locale \<open>quorum_system\<close> interpreted on the committee the program builds.
  \<^item> \<open>Consensus_Types\<close>, \<open>Certificate_Assembly\<close>, \<open>Sub_Dag\<close> (types/src/primary): headers, votes,
    certificates, scores, sub dags, outputs and consensus headers, with validation and verification.
    \<open>Certificate_Properties\<close>: quorum intersection, and that accepted certificates are signed by a quorum.
  \<^item> \<open>Dag_State\<close>, \<open>Leader_Schedule\<close>, \<open>Bullshark\<close> (consensus/primary/src/consensus): the DAG, leaders
    and the commit rule. \<open>Bullshark_Order\<close> shows that flattening is the uncommitted history,
    \<open>Bullshark_Safety\<close> the invariants of a run, \<open>Bullshark_Liveness\<close> that no panic is reached,
    \<open>Bullshark_Agreement\<close> and \<open>Bullshark_Total_Order\<close> that validators agree; the statements are in
    \<open>Core_Properties\<close> and \<open>Leader_Properties\<close>.
  \<^item> \<open>Database\<close> (storage/src/mem_db.rs, layered_db.rs), \<open>Cert_Store\<close> (stores/certificate_store.rs): the
    persistent tables of the layered database follow its memory when no operation fails and clients do
    not race for a row, and the indexes of the store agree with its table.
  \<^item> \<open>Aggregators\<close>, \<open>Pending_Certs\<close>, \<open>Cert_Manager\<close>, \<open>Cert_Validator\<close> (consensus/primary/src/aggregators and
    state_sync): certificates reach consensus after their parents, none is lost, and every one has
    signatures of a quorum behind it. Statements in \<open>Sync_Properties\<close>.
  \<^item> \<open>Header_Validator\<close>, \<open>Vote_Handler\<close>, \<open>Vote_Safety\<close> (header_validator.rs, network/handler.rs): the
    vote, and that what correct nodes sign, votes and own headers, gives what agreement assumes.
    Statements in \<open>Network_Properties\<close>, of which the first composes proposing, voting, certificates and
    the commit rule.
  \<^item> \<open>Proposer\<close>, \<open>Proposer_Properties\<close> (consensus/primary/src/proposer.rs): no acknowledged batch is
    forgotten, and one run proposes ascending rounds.
  \<^item> \<open>Batches\<close> (types/src/worker/sealed_batch.rs, execution/batch-validator), \<open>Batch_Builder\<close>
    (execution/batch-builder): building a batch within its limits and validating it. The loop over the
    transaction pool is a partial function; it is proved to return for a pool that ends.
  \<^item> \<open>Network_Error\<close>, \<open>Quorum_Waiter\<close>, \<open>Worker\<close>, \<open>Worker_Fetch\<close> (consensus/worker/src): the quorum for a
    batch, its storage, and the exchange of batches between workers. Statements in \<open>Worker_Properties\<close>:
    built batches are accepted, sealed batches are available, fetching returns what was asked for.
  \<^item> \<open>Cert_Exchange\<close>, \<open>Cert_Exchange_Proofs\<close> (certificate_fetcher.rs, cert_collector.rs, network/message.rs):
    the request of a primary that lags behind and the answer of its peer. The search for the next
    round is a partial function, proved to return. \<open>Exchange_Properties\<close>: the peer's answer is exactly
    what the requester lacks.
  \<^item> \<open>Certifier\<close> (certifier.rs, network/mod.rs): votes requested from peers, aggregated and broadcast.
    \<open>Certifier_Properties\<close>: the certificates it makes are accepted by every peer, a quorum of valid votes
    is enough, the latest one is pushed until it is published, and a cancelled proposal loses the newer header.
  \<^item> \<open>Consensus_Chain\<close>, \<open>Chain_Proofs\<close>, \<open>Consensus_Task\<close> (consensus/executor, state-sync, consensus_store.rs,
    consensus/state.rs): the task around the commit rule, the chain of
    consensus headers, the subscriber and the tasks that follow the chain. \<open>Chain_Properties\<close>: validators
    publish one chain, the subscriber delivers it with its batches, a follower gets it from untrusted
    peers; a restart can overwrite it and one bad answer hides that a node lags behind.
  \<^item> \<open>Sample_Network\<close>: the concrete network on which the witnesses evaluate.

  \<^bold>\<open>Bounds and fuel.\<close> The retry after a change of schedule in \<open>process_certificate\<close> has fuel; it is
  proved that the fuel the definition supplies is never used up. The cascade over pending
  certificates and the search of \<open>order_dag\<close> are total by a measure. Hypotheses that voting powers
  sum below \<open>2^64\<close> and rounds stay below \<open>2^32\<close> are stated where a theorem needs them, and
  \<open>quorum_threshold_wraps\<close> shows what happens beyond.

  \<^bold>\<open>Not modelled.\<close> The execution of transactions (engine, node, node-traits, tn-rpc, faucet) is a thin
  layer over the reth and alloy libraries, whose code is not part of the repository; the libp2p swarm
  in network-libp2p, the wire codecs and the local network types hand messages over and are arguments
  here; the persistent back ends (rocks, redb, mdbx) wrap C and Rust libraries behind the trait that
  the model has. BLS and network keys are parameters. Command line, configuration files, key tools,
  directories, metrics, logging and test utilities have no logic that the protocol depends on. Timers
  and sleeps appear as events, durations only where the code computes them.
\<close>

end
